(* ===== verification/Prelude.thy ===== *)
theory Prelude
  imports Main "HOL-Library.Sublist" "HOL-Library.Word" "HOL-Library.List_Lexorder"
    "HOL-Library.Char_ord"
begin

section \<open>Shared vocabulary of the development\<close>

text \<open>
  What every component uses: bytes and hashes, the exceptions of the Python source as values,
  the string methods the source calls (\<open>startswith\<close>, \<open>endswith\<close>, \<open>find\<close>, \<open>split\<close>, \<open>hex\<close>) and the
  facts about them, and the collections that carry the proofs.
  A Python \<open>str\<close> is a HOL \<open>string\<close>: code points up to 255, which covers every character the
  source tests for; a Python \<open>bytes\<close> is a list of 8-bit words; an \<open>int\<close> that is never negative in the
  source is a \<open>nat\<close>, any other an \<open>int\<close>.
\<close>

named_theorems path_simps \<open>equations of the string methods on paths\<close>
named_theorems exn_simps \<open>equations of the exception monad\<close>

unbundle bit_operations_syntax

type_synonym byte = "8 word"
type_synonym bytes = "byte list"

subsection \<open>Exceptions\<close>

text \<open>
  A Python call that raises returns \<open>Inl\<close> with the class of the exception; \<open>UnsupportedHashFormat\<close>
  is \<open>UnsupportedContentHashFormatError\<close> of \<open>utils/ecf.py\<close>, a subclass of \<open>ValueError\<close>.
\<close>

datatype exn =
    ValueError | TypeError | KeyError | AttributeError | UnboundLocalError
  | RecursionError | IndexError | UnsupportedHashFormat

type_synonym 'a result = "exn + 'a"

definition bind_r :: "'a result \<Rightarrow> ('a \<Rightarrow> 'b result) \<Rightarrow> 'b result" where
  "bind_r r f = (case r of Inl e \<Rightarrow> Inl e | Inr x \<Rightarrow> f x)"

lemma bind_r_simps [simp, exn_simps]:
  "bind_r (Inl e) f = Inl e"
  "bind_r (Inr x) f = f x"
  by (simp_all add: bind_r_def)

lemma bind_r_Inr_iff [exn_simps]: "bind_r r f = Inr y \<longleftrightarrow> (\<exists>x. r = Inr x \<and> f x = Inr y)"
  by (cases r) simp_all

lemma bind_r_Inl_iff [exn_simps]:
  "bind_r r f = Inl e \<longleftrightarrow> r = Inl e \<or> (\<exists>x. r = Inr x \<and> f x = Inl e)"
  by (cases r) simp_all

lemma bind_r_cong [fundef_cong]:
  "r = r' \<Longrightarrow> (\<And>x. r' = Inr x \<Longrightarrow> f x = g x) \<Longrightarrow> bind_r r f = bind_r r' g"
  by (cases r') simp_all

text \<open>A loop that calls a raising function on every element and collects the results.\<close>

fun map_r :: "('a \<Rightarrow> 'b result) \<Rightarrow> 'a list \<Rightarrow> 'b list result" where
  "map_r f [] = Inr []"
| "map_r f (x # xs) = bind_r (f x) (\<lambda>y. bind_r (map_r f xs) (\<lambda>ys. Inr (y # ys)))"

lemma map_r_cong [fundef_cong]:
  "xs = ys \<Longrightarrow> (\<And>x. x \<in> set ys \<Longrightarrow> f x = g x) \<Longrightarrow> map_r f xs = map_r g ys"
  by (induction ys arbitrary: xs) auto

lemma map_r_Inr: "(\<And>x. x \<in> set xs \<Longrightarrow> f x = Inr (g x)) \<Longrightarrow> map_r f xs = Inr (map g xs)"
  by (induction xs) simp_all

text \<open>
  A call that changes a state and may raise returns its result beside the state it leaves, also when it
  raises.
\<close>

definition and_then :: "'a result \<times> 's \<Rightarrow> ('a \<Rightarrow> 's \<Rightarrow> 'b result \<times> 's) \<Rightarrow> 'b result \<times> 's" where
  "and_then r f = (case r of (Inl e, s) \<Rightarrow> (Inl e, s) | (Inr x, s) \<Rightarrow> f x s)"

lemma and_then_simps [simp, exn_simps]:
  "and_then (Inl e, s) f = (Inl e, s)"
  "and_then (Inr x, s) f = f x s"
  by (simp_all add: and_then_def)

lemma and_then_cong [fundef_cong]:
  "r = r' \<Longrightarrow> (\<And>x s. r' = (Inr x, s) \<Longrightarrow> f x s = g x s) \<Longrightarrow> and_then r f = and_then r' g"
  by (cases r'; cases "fst r'") simp_all

text \<open>\<open>xs[i]\<close> and \<open>xs.insert(i, x)\<close> for an index that is not negative; \<open>insert\<close> clamps.\<close>

definition item_at :: "'a list \<Rightarrow> nat \<Rightarrow> 'a result" where
  "item_at xs i = (if i < length xs then Inr (xs ! i) else Inl IndexError)"

definition insert_at :: "nat \<Rightarrow> 'a \<Rightarrow> 'a list \<Rightarrow> 'a list" where
  "insert_at i x xs = take i xs @ x # drop i xs"

definition delete_at :: "nat \<Rightarrow> 'a list \<Rightarrow> 'a list" where
  "delete_at i xs = take i xs @ drop (Suc i) xs"

subsection \<open>String methods\<close>

abbreviation starts_with :: "'a list \<Rightarrow> 'a list \<Rightarrow> bool" where
  "starts_with s p \<equiv> prefix p s"

abbreviation ends_with :: "'a list \<Rightarrow> 'a list \<Rightarrow> bool" where
  "ends_with s p \<equiv> suffix p s"

text \<open>\<open>s.find(c, n)\<close> for a one-character \<open>c\<close>: the least index from \<open>n\<close> on, or \<open>None\<close> for -1.\<close>

definition find_from :: "char \<Rightarrow> string \<Rightarrow> nat \<Rightarrow> nat option" where
  "find_from c s n =
     (if c \<in> set (drop n s) then Some (n + length (takeWhile (\<lambda>x. x \<noteq> c) (drop n s))) else None)"

text \<open>\<open>s.split(c, 1)\<close>: what is before the first \<open>c\<close>, and what is after it when there is one.\<close>

definition split_once :: "char \<Rightarrow> string \<Rightarrow> string \<times> string option" where
  "split_once c s =
     (takeWhile (\<lambda>x. x \<noteq> c) s,
      if c \<in> set s then Some (tl (dropWhile (\<lambda>x. x \<noteq> c) s)) else None)"

text \<open>\<open>s.split(c)\<close>: the segments between the \<open>c\<close>s; never the empty list.\<close>

fun split_all :: "char \<Rightarrow> string \<Rightarrow> string list" where
  "split_all c [] = [[]]"
| "split_all c (x # xs) =
     (if x = c then [] # split_all c xs
      else (x # hd (split_all c xs)) # tl (split_all c xs))"

text \<open>\<open>c in s\<close> for a two-character separator is \<open>sublist\<close>; \<open>dslash\<close> is \<open>"//" in s\<close>.\<close>

abbreviation dslash :: "string \<Rightarrow> bool" where
  "dslash s \<equiv> sublist ''//'' s"

definition hex_digit :: "nat \<Rightarrow> char" where
  "hex_digit n = (if n < 10 then char_of (48 + n) else char_of (87 + n))"

definition hex_byte :: "byte \<Rightarrow> string" where
  "hex_byte b = [hex_digit (unat b div 16), hex_digit (unat b mod 16)]"

definition hex :: "bytes \<Rightarrow> string" where
  "hex bs = concat (map hex_byte bs)"

lemma unat_byte_less: "unat (b :: byte) < 256"
proof -
  have "unat b < 2 ^ LENGTH(8)" by (rule unsigned_less)
  then show ?thesis by simp
qed

lemma uint_byte_less: "uint (b :: byte) < 256"
proof -
  have "uint b < 2 ^ LENGTH(8)" by (rule unsigned_less)
  then show ?thesis by simp
qed

lemma hex_digit_inj: "m < 16 \<Longrightarrow> n < 16 \<Longrightarrow> hex_digit m = hex_digit n \<Longrightarrow> m = n"
  by (auto simp: hex_digit_def split: if_splits)

lemma hex_byte_inj: "hex_byte a = hex_byte b \<Longrightarrow> a = b"
proof -
  assume h: "hex_byte a = hex_byte b"
  have lt: "unat c div 16 < 16" "unat c mod 16 < 16" for c :: byte
    using unat_byte_less [of c] by simp_all
  from h have "unat a div 16 = unat b div 16" "unat a mod 16 = unat b mod 16"
    using lt hex_digit_inj by (auto simp: hex_byte_def)
  then have "unat a = unat b" by (metis div_mult_mod_eq)
  then show "a = b" using word_eq_iff_unsigned by blast
qed

lemma hex_byte_length [simp]: "length (hex_byte b) = 2"
  by (simp add: hex_byte_def)

lemma hex_simps [simp]:
  "hex [] = []"
  "hex (b # bs) = hex_byte b @ hex bs"
  by (simp_all add: hex_def)

lemma hex_eq_Nil [simp]: "hex bs = [] \<longleftrightarrow> bs = []"
  by (cases bs) (simp_all add: hex_byte_def)

lemma hex_inj: "hex a = hex b \<Longrightarrow> a = b"
proof (induction a arbitrary: b)
  case Nil
  then show ?case by (cases b) (simp_all add: hex_byte_def)
next
  case (Cons x a)
  from Cons.prems obtain y b' where b: "b = y # b'"
    by (cases b) (simp_all add: hex_byte_def)
  from Cons.prems have "hex_byte x = hex_byte y" and "hex a = hex b'"
    by (simp_all add: b)
  then show ?case using Cons.IH by (auto simp: b dest: hex_byte_inj)
qed

subsection \<open>Facts about the string methods\<close>

lemma split_all_not_Nil [simp]: "split_all c s \<noteq> []"
  by (cases s) auto

text \<open>For evaluation: one recursive call where the definition writes two.\<close>

lemma split_all_code [code]:
  "split_all c [] = [[]]"
  "split_all c (x # xs) =
     (if x = c then [] # split_all c xs
      else case split_all c xs of s # ss \<Rightarrow> (x # s) # ss | [] \<Rightarrow> [])"
  by (auto split: list.split)

lemma split_all_hd: "hd (split_all c s) = takeWhile (\<lambda>x. x \<noteq> c) s"
  by (induction s) auto

lemma split_all_single: "c \<notin> set s \<Longrightarrow> split_all c s = [s]"
  by (induction s) auto

lemma split_all_append: "c \<notin> set s \<Longrightarrow> split_all c (s @ c # t) = s # split_all c t"
  by (induction s) auto

lemma split_once_at: "c \<notin> set a \<Longrightarrow> split_once c (a @ c # b) = (a, Some b)"
  by (simp add: split_once_def takeWhile_append dropWhile_append)

lemma split_once_Some: "split_once c s = (a, Some b) \<longleftrightarrow> s = a @ c # b \<and> c \<notin> set a"
proof
  assume h: "split_once c s = (a, Some b)"
  then have "c \<in> set s" by (auto simp: split_once_def split: if_splits)
  then obtain a' b' where "s = a' @ c # b'" and "c \<notin> set a'"
    by (blast dest: split_list_first)
  with h show "s = a @ c # b \<and> c \<notin> set a" by (simp add: split_once_at)
qed (auto simp: split_once_at)

lemma split_once_None: "split_once c s = (a, None) \<longleftrightarrow> a = s \<and> c \<notin> set s"
  by (auto simp: split_once_def)

lemma find_from_Some:
  "find_from c s n = Some i \<Longrightarrow> n \<le> i \<and> s = take i s @ c # drop (Suc i) s \<and> c \<notin> set (drop n (take i s))"
proof -
  assume h: "find_from c s n = Some i"
  then have "c \<in> set (drop n s)" by (auto simp: find_from_def split: if_splits)
  then obtain a b where d: "drop n s = a @ c # b" and c: "c \<notin> set a"
    by (blast dest: split_list_first)
  from d c have "takeWhile (\<lambda>x. x \<noteq> c) (drop n s) = a" by (auto simp: takeWhile_append)
  with h have i: "i = n + length a" by (auto simp: find_from_def split: if_splits)
  have s: "s = take n s @ a @ c # b" using d by (metis append_take_drop_id)
  have n: "n \<le> length s" using d by (cases "n \<le> length s") auto
  have ti: "take i s = take n s @ a" and di: "drop (Suc i) s = b"
    using n by (subst s, simp add: i)+
  have "drop n (take n s @ a) = a" using n by simp
  with s n c show ?thesis unfolding ti di by (simp add: i)
qed

lemma find_from_None: "find_from c s n = None \<longleftrightarrow> c \<notin> set (drop n s)"
  by (simp add: find_from_def)

lemma dslash_simps [simp]:
  "dslash (a # s) \<longleftrightarrow> (a = CHR ''/'' \<and> s \<noteq> [] \<and> hd s = CHR ''/'') \<or> dslash s"
  by (cases s) (auto simp: sublist_Cons_right)

lemma dslash_appendD: "\<not> dslash (a @ b) \<Longrightarrow> \<not> dslash a \<and> \<not> dslash b"
  by (auto simp: sublist_append)

lemma dslash_prefix: "prefix a b \<Longrightarrow> dslash a \<Longrightarrow> dslash b"
  by (auto simp: prefix_def sublist_append)

end
