(* ===== verification/Varint.thy ===== *)
theory Varint
  imports Prelude
begin

section \<open>LEB128 varints\<close>

text \<open>
  \<open>utils/varint.py\<close>: the multicodec varint that carries the \<open>key_type\<close> and \<open>content_hash_format\<close>
  codes. A Python \<open>int\<close> argument is an \<open>int\<close>; the loops are recursive functions over the same
  variables; both \<open>ValueError\<close>s of the decoder are the value \<open>Inl ValueError\<close>.
\<close>

text \<open>The \<open>while n >= 0x80\<close> loop of the encoder and the append after it.\<close>

function enc_loop :: "int \<Rightarrow> bytes" where
  "enc_loop n =
     (if 0x80 \<le> n then word_of_int ((n AND 0x7F) OR 0x80) # enc_loop (drop_bit 7 n)
      else [word_of_int n])"
  by pat_completeness auto
termination
  by (relation "measure nat") (auto simp: drop_bit_eq_div)

declare enc_loop.simps [simp del]

definition encode_leb128 :: "int \<Rightarrow> bytes result" where
  "encode_leb128 n =
     (if n < 0 then Inl ValueError
      else if n < 0x80 then Inr [word_of_int n]
      else Inr (enc_loop n))"

text \<open>
  The decoder's loop, over \<open>value\<close>, \<open>shift\<close> and \<open>consumed\<close>; it leaves with \<open>ValueError\<close> at the end of
  the input and after \<open>max_bytes\<close> bytes.
\<close>

function dec_loop :: "bytes \<Rightarrow> nat \<Rightarrow> nat \<Rightarrow> int \<Rightarrow> nat \<Rightarrow> nat \<Rightarrow> (int \<times> nat) result" where
  "dec_loop data offset max_bytes val shift consumed =
     (if consumed < max_bytes then
        if length data \<le> offset + consumed then Inl ValueError
        else let b = uint (data ! (offset + consumed));
                 val' = val OR push_bit shift (b AND 0x7F)
             in if b AND 0x80 = 0 then Inr (val', consumed + 1)
                else dec_loop data offset max_bytes val' (shift + 7) (consumed + 1)
      else Inl ValueError)"
  by pat_completeness auto
termination
  by (relation "measure (\<lambda>(_, _, max_bytes, _, _, consumed). max_bytes - consumed)") auto

declare dec_loop.simps [simp del]

definition decode_leb128 :: "bytes \<Rightarrow> nat \<Rightarrow> nat \<Rightarrow> (int \<times> nat) result" where
  "decode_leb128 data offset max_bytes =
     (if length data \<le> offset then Inl ValueError
      else dec_loop data offset max_bytes 0 0 0)"

text \<open>The keyword defaults \<open>offset=0\<close>, \<open>max_bytes=9\<close>.\<close>

abbreviation decode_leb128_default :: "bytes \<Rightarrow> (int \<times> nat) result" where
  "decode_leb128_default data \<equiv> decode_leb128 data 0 9"

subsection \<open>Bits of one 7-bit group\<close>

lemma and_7F: "(n::int) AND 0x7F = n mod 128"
  using take_bit_eq_mask [of 7 n] by (simp add: mask_eq_exp_minus_1 take_bit_eq_mod)

lemma or_push_bit: "0 \<le> v \<Longrightarrow> v < 2 ^ s \<Longrightarrow> (v::int) OR push_bit s x = v + x * 2 ^ s"
proof -
  assume v: "0 \<le> v" "v < 2 ^ s"
  have "v AND push_bit s x = 0"
  proof (rule bit_eqI)
    fix n
    have "\<not> bit v n" if "s \<le> n"
    proof -
      have "take_bit s v = v" using v by (simp add: take_bit_eq_mod)
      with that show ?thesis by (metis bit_take_bit_iff not_le)
    qed
    then show "bit (v AND push_bit s x) n = bit 0 n"
      by (auto simp: bit_and_iff bit_push_bit_iff)
  qed
  then have "v + push_bit s x = v OR push_bit s x" by (rule disjunctive_add_eq_or)
  then show ?thesis by (simp add: push_bit_eq_mult)
qed

lemma or_80: "0 \<le> m \<Longrightarrow> m < 128 \<Longrightarrow> (m::int) OR 0x80 = m + 128"
  using or_push_bit [of m 7 1] by (simp add: push_bit_eq_mult)

lemma group_byte: "uint (word_of_int ((n AND 0x7F) OR 0x80) :: byte) = n mod 128 + 128"
proof -
  have "(n AND 0x7F) OR 0x80 = n mod 128 + 128"
    by (simp add: and_7F or_80)
  then show ?thesis by (simp only: uint_word_of_int) (simp add: mod_pos_pos_trivial)
qed

lemma and_80: "(b::int) AND 0x80 = 0 \<longleftrightarrow> b mod 256 < 128"
proof -
  have "b AND 2 ^ 7 = 0 \<longleftrightarrow> \<not> bit b 7" by (rule and_exp_eq_0_iff_not_bit)
  then have "b AND 0x80 = 0 \<longleftrightarrow> even (b div 128)" by (simp add: bit_iff_odd)
  also have "\<dots> \<longleftrightarrow> b mod (128 * 2) < 128"
    by (simp only: zmod_zmult2_eq) (auto simp: even_iff_mod_2_eq_zero not_mod_2_eq_0_eq_1)
  finally show ?thesis by simp
qed

subsection \<open>The decoder reads what the encoder wrote\<close>

lemma enc_loop_unfold:
  "enc_loop n =
     (if 0x80 \<le> n then word_of_int ((n AND 0x7F) OR 0x80) # enc_loop (n div 128)
      else [word_of_int n])"
  by (subst enc_loop.simps) (simp add: drop_bit_eq_div)

lemma enc_loop_nonempty [simp]: "enc_loop n \<noteq> []" "0 < length (enc_loop n)"
  by (simp_all add: enc_loop_unfold [of n])

lemma enc_loop_induct [consumes 1, case_names low high]:
  assumes "(0::int) \<le> n" and "\<And>n. 0 \<le> n \<Longrightarrow> n < 128 \<Longrightarrow> P n"
    and "\<And>n. 128 \<le> n \<Longrightarrow> P (n div 128) \<Longrightarrow> P n"
  shows "P n"
  using assms(1)
proof (induction n rule: enc_loop.induct)
  case (1 n)
  show ?case
  proof (cases "128 \<le> n")
    case True
    have "P (n div 128)"
      using 1 True by (simp add: drop_bit_eq_div)
    with True show ?thesis by (rule assms(3))
  next
    case False
    with 1 show ?thesis by (simp add: assms(2))
  qed
qed

lemma encode_leb128_eq: "0 \<le> n \<Longrightarrow> encode_leb128 n = Inr (enc_loop n)"
  by (simp add: encode_leb128_def enc_loop_unfold [of n])

text \<open>A group carries 7 bits, so \<open>m\<close> groups are enough for the numbers below \<open>2 ^ (7 m)\<close>.\<close>

lemma enc_loop_length: "0 \<le> n \<Longrightarrow> n < 2 ^ (7 * m) \<Longrightarrow> 0 < m \<Longrightarrow> length (enc_loop n) \<le> m"
proof (induction n arbitrary: m rule: enc_loop_induct)
  case (low n)
  then show ?case by (simp add: enc_loop_unfold [of n])
next
  case (high n)
  from high.prems obtain m' where m: "m = Suc m'"
    by (cases m) auto
  have m': "0 < m'"
    using high.prems high.hyps by (cases m') (auto simp: m)
  from high.prems have "n < 128 * 2 ^ (7 * m')" by (simp add: m power_add)
  then have "n div 128 < 2 ^ (7 * m')" by linarith
  with high m' have "length (enc_loop (n div 128)) \<le> m'" by simp
  with high.hyps show ?case by (simp add: m enc_loop_unfold [of n])
qed

text \<open>
  One round of the decoder's loop: it stands at the first byte of an encoding, with the bits read
  so far in \<open>v\<close>, and leaves at its end.
\<close>

lemma dec_loop_enc_loop:
  "0 \<le> n \<Longrightarrow> 0 \<le> v \<Longrightarrow> v < 2 ^ sh \<Longrightarrow> length pre = off + c \<Longrightarrow> c + length (enc_loop n) \<le> mx \<Longrightarrow>
     dec_loop (pre @ enc_loop n @ rest) off mx v sh c
     = Inr (v + n * 2 ^ sh, c + length (enc_loop n))"
proof (induction n arbitrary: v sh pre c rule: enc_loop_induct)
  case (low n)
  then have "uint (word_of_int n :: byte) = n" by (simp add: uint_word_of_int)
  with low show ?case
    by (simp add: enc_loop_unfold [of n] dec_loop.simps [of _ off mx v sh c] Let_def nth_append
        and_80 and_7F or_push_bit)
next
  case (high n)
  define b :: byte where "b = word_of_int ((n AND 0x7F) OR 0x80)"
  define v' where "v' = v + (n mod 128) * 2 ^ sh"
  have b: "uint b = n mod 128 + 128" by (simp add: b_def group_byte)
  have enc: "enc_loop n = b # enc_loop (n div 128)"
    using high.hyps by (simp add: enc_loop_unfold [of n] b_def)
  have v': "v OR push_bit sh (uint b AND 0x7F) = v'"
    using high.prems by (simp add: b and_7F or_push_bit v'_def)
  have nb: "uint b AND 0x80 \<noteq> 0" by (simp add: and_80 b)
  have "(n mod 128) * 2 ^ sh \<le> 127 * 2 ^ sh" by (rule mult_right_mono) simp_all
  with high.prems have "v + (n mod 128) * 2 ^ sh < 2 ^ sh + 127 * 2 ^ sh"
    by (intro add_less_le_mono)
  with high.prems have v'_less: "0 \<le> v'" "v' < 2 ^ (sh + 7)"
    unfolding v'_def power_add by simp_all
  have "dec_loop (pre @ enc_loop n @ rest) off mx v sh c
      = dec_loop ((pre @ [b]) @ enc_loop (n div 128) @ rest) off mx v' (sh + 7) (c + 1)"
    using high.prems
    by (simp add: enc dec_loop.simps [of _ off mx v sh c] Let_def nth_append v' nb
        del: push_bit_and)
  also have "\<dots> = Inr (v' + (n div 128) * 2 ^ (sh + 7), c + 1 + length (enc_loop (n div 128)))"
    using high.prems v'_less by (intro high.IH) (simp_all add: enc)
  also have "v' + (n div 128) * 2 ^ (sh + 7) = v + n * 2 ^ sh"
  proof -
    have "v' + (n div 128) * 2 ^ (sh + 7) = v + ((n mod 128) * 2 ^ sh + (128 * (n div 128)) * 2 ^ sh)"
      by (simp add: v'_def power_add)
    also have "\<dots> = v + (n mod 128 + 128 * (n div 128)) * 2 ^ sh"
      by (simp only: distrib_right)
    finally show ?thesis by simp
  qed
  finally show ?case by (simp add: enc)
qed

lemma decode_encode_at:
  assumes "0 \<le> n" and "length (enc_loop n) \<le> mx"
  shows "decode_leb128 (pre @ enc_loop n @ rest) (length pre) mx = Inr (n, length (enc_loop n))"
  using dec_loop_enc_loop [of n 0 0 pre "length pre" 0 mx rest] assms
  by (auto simp: decode_leb128_def)

text \<open>What the decoder consumes is inside the input and within the cap.\<close>

lemma dec_loop_bounds:
  "dec_loop data off mx v sh c = Inr (n, k) \<Longrightarrow> c < k \<and> k \<le> mx \<and> off + k \<le> length data"
proof (induction data off mx v sh c rule: dec_loop.induct)
  case (1 data off mx v sh c)
  from "1.prems" have c: "c < mx" "off + c < length data"
    by (subst (asm) dec_loop.simps, simp split: if_splits)+
  let ?b = "uint (data ! (off + c))"
  show ?case
  proof (cases "?b AND 0x80 = 0")
    case True
    with "1.prems" c show ?thesis by (subst (asm) dec_loop.simps) (simp add: Let_def)
  next
    case False
    with "1.prems" c have "dec_loop data off mx (v OR push_bit sh (?b AND 0x7F)) (sh + 7) (c + 1) = Inr (n, k)"
      by (subst (asm) dec_loop.simps) (simp add: Let_def)
    with "1.IH" c False show ?thesis by fastforce
  qed
qed

text \<open>An input whose bytes all carry the continuation bit is truncated or too long: no value.\<close>

lemma dec_loop_continuation:
  "(\<And>b. b \<in> set data \<Longrightarrow> uint b AND 0x80 \<noteq> 0) \<Longrightarrow> dec_loop data off mx v sh c = Inl ValueError"
proof (induction data off mx v sh c rule: dec_loop.induct)
  case (1 data off mx v sh c)
  show ?case
  proof (cases "c < mx \<and> off + c < length data")
    case True
    then have nb: "uint (data ! (off + c)) AND 0x80 \<noteq> 0" by (simp add: "1.prems")
    with "1.IH" "1.prems" True
    have "dec_loop data off mx (v OR push_bit sh (uint (data ! (off + c)) AND 0x7F)) (sh + 7) (c + 1)
        = Inl ValueError"
      by (simp add: not_le del: push_bit_and)
    with True nb show ?thesis by (subst dec_loop.simps) (simp add: Let_def del: push_bit_and)
  next
    case False
    then show ?thesis by (subst dec_loop.simps) auto
  qed
qed

lemma enc_loop_continuation:
  "0 \<le> n \<Longrightarrow> b \<in> set (butlast (enc_loop n)) \<Longrightarrow> uint b AND 0x80 \<noteq> 0"
proof (induction n rule: enc_loop_induct)
  case (low n)
  then show ?case by (simp add: enc_loop_unfold [of n])
next
  case (high n)
  have "uint (word_of_int ((n AND 0x7F) OR 0x80) :: byte) AND 0x80 \<noteq> 0"
    by (subst group_byte) (simp add: and_80)
  with high show ?case by (auto simp: enc_loop_unfold [of n])
qed

lemma strict_prefix_butlast: "strict_prefix p xs \<Longrightarrow> set p \<subseteq> set (butlast xs)"
  by (auto elim!: strict_prefixE' simp: butlast_append)

lemma decode_strict_prefix:
  assumes "0 \<le> n" and "strict_prefix p (enc_loop n)"
  shows "decode_leb128 p 0 mx = Inl ValueError"
  using enc_loop_continuation [OF assms(1)] strict_prefix_butlast [OF assms(2)]
  by (auto simp: decode_leb128_def intro!: dec_loop_continuation)

subsection \<open>Properties\<close>

text \<open>
  C35. Round trip: every code the protocol can carry (below \<open>2 ^ 63\<close>) is encoded without error, and the
  decoder with its default cap of 9 bytes, started at the first byte of the encoding inside any
  larger buffer, returns that code and the number of bytes the encoder wrote.
\<close>

theorem varint_roundtrip:
  assumes "0 \<le> n" and "n < 2 ^ 63"
  shows "\<exists>bs. encode_leb128 n = Inr bs \<and>
    decode_leb128 (pre @ bs @ rest) (length pre) 9 = Inr (n, length bs)"
proof -
  have "length (enc_loop n) \<le> 9" using enc_loop_length [of n 9] assms by simp
  then show ?thesis using assms by (simp add: encode_leb128_eq decode_encode_at)
qed

theorem varint_roundtrip_witness:
  "(\<exists>bs. encode_leb128 300 = Inr bs \<and> decode_leb128 ([7] @ bs @ [9]) (length [7 :: byte]) 9
      = Inr (300, length bs))
   \<and> encode_leb128 300 = Inr [0xAC, 2]"
  using varint_roundtrip [of 300 "[7]" "[9]"]
  by (simp add: encode_leb128_def enc_loop.simps)

text \<open>
  Refusals: the encoder raises exactly on a negative number; the decoder never reads outside
  its buffer nor past its cap (a result consumed between 1 and \<open>max_bytes\<close> bytes, all inside the
  buffer), and a strict prefix of an encoding, whose last byte still has the continuation bit,
  raises \<open>ValueError\<close> instead of returning a value.
\<close>

theorem varint_refusals:
  "(encode_leb128 n = Inl ValueError \<longleftrightarrow> n < 0)
   \<and> (decode_leb128 data off mx = Inr (v, k) \<longrightarrow> 0 < k \<and> k \<le> mx \<and> off + k \<le> length data)
   \<and> (encode_leb128 n = Inr bs \<and> strict_prefix p bs \<longrightarrow> decode_leb128 p 0 mx = Inl ValueError)"
proof -
  have "encode_leb128 n = Inr bs \<Longrightarrow> 0 \<le> n \<and> bs = enc_loop n"
    by (cases "n < 0") (auto simp: encode_leb128_eq, simp add: encode_leb128_def)
  then show ?thesis
    using dec_loop_bounds [of data off mx 0 0 0 v k] decode_strict_prefix [of n p mx]
    by (auto simp: encode_leb128_def decode_leb128_def split: if_splits)
qed

theorem varint_refusals_witness:
  "decode_leb128 [0xAC, 2] 0 9 = Inr (300, 2) \<and> 0 < (2::nat) \<and> (2::nat) \<le> 9
   \<and> decode_leb128 [0xAC] 0 9 = Inl ValueError"
proof -
  have d: "decode_leb128 [0xAC, 2] 0 9 = Inr (300, 2)"
    by (simp add: decode_leb128_def dec_loop.simps)
  have e: "encode_leb128 300 = Inr [0xAC, 2] \<and> strict_prefix [0xAC] [0xAC, 2 :: byte]"
    by (simp add: encode_leb128_def enc_loop.simps)
  show ?thesis
    using varint_refusals [of 300 "[0xAC, 2]" 0 9 300 2 "[0xAC, 2]" "[0xAC]"] d e by blast
qed

end
