(* ===== verification/Paths.thy ===== *)
theory Paths
  imports Prelude
begin

section \<open>Peer identifiers and tree paths\<close>

text \<open>
  \<open>utils/identity.py\<close> and \<open>utils/path.py\<close>: what a peer id looks like, how a path is cleaned, how the
  handler part is extracted, and the three validators (absolute path, control characters, single
  segment). Error messages become constructors that carry what the message names.
\<close>

subsection \<open>Peer identifiers\<close>

definition BASE58_ALPHABET :: string where
  "BASE58_ALPHABET = ''123456789ABCDEFGHJKLMNPQRSTUVWXYZabcdefghijkmnopqrstuvwxyz''"

definition PEER_ID_LENGTH :: nat where
  "PEER_ID_LENGTH = 46"

definition is_peer_id :: "string \<Rightarrow> bool" where
  "is_peer_id segment =
     (if length segment < PEER_ID_LENGTH then False
      else list_all (\<lambda>ch. ch \<in> set BASE58_ALPHABET) segment)"

subsection \<open>Cleaning a path\<close>

text \<open>\<open>path.replace("//", "/")\<close>: one pass, left to right, over non-overlapping occurrences.\<close>

fun replace_dslash :: "string \<Rightarrow> string" where
  "replace_dslash (a # b # s) =
     (if a = CHR ''/'' \<and> b = CHR ''/'' then CHR ''/'' # replace_dslash s
      else a # replace_dslash (b # s))"
| "replace_dslash s = s"

lemma replace_dslash_length: "length (replace_dslash s) \<le> length s"
  by (induction s rule: replace_dslash.induct) auto

lemma replace_dslash_shorter: "dslash s \<Longrightarrow> length (replace_dslash s) < length s"
proof (induction s rule: replace_dslash.induct)
  case (1 a b s)
  then show ?case using replace_dslash_length [of s] by auto
qed simp_all

text \<open>\<open>while "//" in path\<close>: each pass shortens the path.\<close>

function collapse_slashes :: "string \<Rightarrow> string" where
  "collapse_slashes path =
     (if dslash path then collapse_slashes (replace_dslash path) else path)"
  by pat_completeness auto
termination
  by (relation "measure length") (simp_all add: replace_dslash_shorter)

declare collapse_slashes.simps [simp del]

definition rstrip_slash :: "string \<Rightarrow> string" where
  "rstrip_slash path = rev (dropWhile (\<lambda>c. c = CHR ''/'') (rev path))"

definition clean_path :: "string \<Rightarrow> string result" where
  "clean_path path =
     (if path = [] then Inr path
      else if starts_with path ''./'' \<or> starts_with path ''../'' then Inl ValueError
      else
        let p = collapse_slashes path in
        if 1 < length p \<and> ends_with p ''/''
        then (let q = rstrip_slash p in if q = [] then Inr ''/'' else Inr q)
        else Inr p)"

subsection \<open>The handler part of a path\<close>

definition ENTITY_SCHEME :: string where
  "ENTITY_SCHEME = ''entity://''"

definition after_first_slash :: "string \<Rightarrow> string" where
  "after_first_slash s = (case snd (split_once (CHR ''/'') s) of Some rest \<Rightarrow> rest | None \<Rightarrow> [])"

definition extract_handler_path :: "string \<Rightarrow> string" where
  "extract_handler_path uri_or_path =
     (if starts_with uri_or_path ENTITY_SCHEME
      then after_first_slash (drop (length ENTITY_SCHEME) uri_or_path)
      else if starts_with uri_or_path ''/'' then after_first_slash (drop 1 uri_or_path)
      else uri_or_path)"

subsection \<open>Validators\<close>

datatype path_error = NotAbsolute | EmptySegment | MissingPeerSegment | InvalidPeerSegment string

definition validate_absolute_path :: "string \<Rightarrow> path_error option" where
  "validate_absolute_path path =
     (if \<not> starts_with path ''/'' then Some NotAbsolute
      else if dslash path then Some EmptySegment
      else
        let segments = split_all (CHR ''/'') (drop 1 path) in
        if segments = [] \<or> hd segments = [] then Some MissingPeerSegment
        else if \<not> is_peer_id (hd segments) then Some (InvalidPeerSegment (take 20 (hd segments)))
        else None)"

text \<open>The first control character, with its offset.\<close>

definition is_control :: "char \<Rightarrow> bool" where
  "is_control ch = (let c = of_char ch :: nat in c < 0x20 \<or> c = 0x7F)"

fun first_control :: "nat \<Rightarrow> string \<Rightarrow> (char \<times> nat) option" where
  "first_control i [] = None"
| "first_control i (ch # s) = (if is_control ch then Some (ch, i) else first_control (Suc i) s)"

definition validate_path_chars :: "string \<Rightarrow> (char \<times> nat) option" where
  "validate_path_chars path = first_control 0 path"

text \<open>A segment is \<open>None\<close> where the caller had no value.\<close>

definition is_safe_path_segment :: "string option \<Rightarrow> bool" where
  "is_safe_path_segment segment =
     (case segment of
        None \<Rightarrow> False
      | Some s \<Rightarrow>
          if s = [] then False
          else if CHR ''/'' \<in> set s then False
          else if s \<in> set [''.'', ''..''] then False
          else validate_path_chars s = None)"

definition sanitize_path_segment :: "string option \<Rightarrow> string \<Rightarrow> string" where
  "sanitize_path_segment segment sentinel =
     (if is_safe_path_segment segment then the segment else sentinel)"

definition invariant_signature_path :: "string \<Rightarrow> bytes \<Rightarrow> string" where
  "invariant_signature_path signer_peer_id target_hash =
     signer_peer_id @ ''/system/signature/'' @ hex target_hash"

subsection \<open>Facts\<close>

lemma alphabet_no_separator:
  "CHR ''/'' \<notin> set BASE58_ALPHABET" "CHR ''*'' \<notin> set BASE58_ALPHABET"
  "CHR ''-'' \<notin> set BASE58_ALPHABET" "CHR ''.'' \<notin> set BASE58_ALPHABET"
  "CHR '':'' \<notin> set BASE58_ALPHABET"
  by (simp_all add: BASE58_ALPHABET_def)

lemma is_peer_id_chars: "is_peer_id s \<Longrightarrow> set s \<subseteq> set BASE58_ALPHABET"
  by (auto simp: is_peer_id_def list_all_iff split: if_splits)

lemma is_peer_id_no_slash: "is_peer_id s \<Longrightarrow> CHR ''/'' \<notin> set s"
  using is_peer_id_chars alphabet_no_separator by blast

lemma is_peer_id_not_Nil: "is_peer_id s \<Longrightarrow> s \<noteq> []"
  by (auto simp: is_peer_id_def PEER_ID_LENGTH_def)

lemma collapse_no_dslash: "\<not> dslash (collapse_slashes p)"
  by (induction p rule: collapse_slashes.induct) (subst collapse_slashes.simps, simp)

lemma collapse_id: "\<not> dslash p \<Longrightarrow> collapse_slashes p = p"
  by (subst collapse_slashes.simps) simp

text \<open>The non-empty segments of a path: what cleaning must not change.\<close>

definition segments :: "string \<Rightarrow> string list" where
  "segments p = filter (\<lambda>s. s \<noteq> []) (split_all (CHR ''/'') p)"

lemma segments_simps [path_simps]:
  "segments [] = []"
  "segments (CHR ''/'' # s) = segments s"
  by (simp_all add: segments_def)

lemma split_all_cong_tail:
  "split_all c s = split_all c t \<or> (hd (split_all c s) = hd (split_all c t)
     \<and> filter (\<lambda>x. x \<noteq> []) (tl (split_all c s)) = filter (\<lambda>x. x \<noteq> []) (tl (split_all c t)))
   \<Longrightarrow> filter (\<lambda>x. x \<noteq> []) (split_all c s) = filter (\<lambda>x. x \<noteq> []) (split_all c t)"
  by (cases "split_all c s"; cases "split_all c t") auto

text \<open>One pass keeps the first segment and the non-empty ones after it.\<close>

lemma replace_dslash_split:
  "hd (split_all (CHR ''/'') (replace_dslash s)) = hd (split_all (CHR ''/'') s)
   \<and> filter (\<lambda>x. x \<noteq> []) (tl (split_all (CHR ''/'') (replace_dslash s)))
     = filter (\<lambda>x. x \<noteq> []) (tl (split_all (CHR ''/'') s))"
proof (induction s rule: replace_dslash.induct)
  case (1 a b s)
  then show ?case
    using split_all_cong_tail [of "CHR ''/''" "replace_dslash s" s]
      split_all_cong_tail [of "CHR ''/''" "replace_dslash (b # s)" "b # s"]
    by (auto split: if_splits)
qed simp_all

lemma segments_replace_dslash: "segments (replace_dslash s) = segments s"
  unfolding segments_def using replace_dslash_split [of s] by (intro split_all_cong_tail) simp

lemma segments_collapse: "segments (collapse_slashes p) = segments p"
proof (induction p rule: collapse_slashes.induct)
  case (1 p)
  then show ?case
    by (subst collapse_slashes.simps) (simp add: segments_replace_dslash)
qed

lemma takeWhile_replicate:
  "takeWhile (\<lambda>c. c = x) xs = replicate (length (takeWhile (\<lambda>c. c = x) xs)) x"
  by (induction xs) auto

lemma rstrip_slash_split: "\<exists>n. p = rstrip_slash p @ replicate n (CHR ''/'')"
proof -
  obtain n where "takeWhile (\<lambda>c. c = CHR ''/'') (rev p) = replicate n (CHR ''/'')"
    using takeWhile_replicate by metis
  then have "rev p = replicate n (CHR ''/'') @ dropWhile (\<lambda>c. c = CHR ''/'') (rev p)"
    by (metis takeWhile_dropWhile_id)
  then have "rev (rev p) = rev (replicate n (CHR ''/'') @ dropWhile (\<lambda>c. c = CHR ''/'') (rev p))"
    by (rule arg_cong)
  then have "p = rstrip_slash p @ replicate n (CHR ''/'')" by (simp add: rstrip_slash_def)
  then show ?thesis ..
qed

lemma rstrip_slash_end: "\<not> ends_with (rstrip_slash p) ''/''"
proof
  assume "ends_with (rstrip_slash p) ''/''"
  then obtain q where "rstrip_slash p = q @ ''/''" by (auto elim: suffixE)
  then have "dropWhile (\<lambda>c. c = CHR ''/'') (rev p) = CHR ''/'' # rev q"
    by (simp add: rstrip_slash_def rev_swap)
  moreover from this have "hd (dropWhile (\<lambda>c. c = CHR ''/'') (rev p)) \<noteq> CHR ''/''"
    by (metis (mono_tags) hd_dropWhile list.distinct(1))
  ultimately show False by simp
qed

lemma segments_snoc_slash: "segments (p @ [CHR ''/'']) = segments p"
proof -
  have "filter (\<lambda>s. s \<noteq> []) (tl (split_all (CHR ''/'') (p @ [CHR ''/''])))
      = filter (\<lambda>s. s \<noteq> []) (tl (split_all (CHR ''/'') p))
    \<and> hd (split_all (CHR ''/'') (p @ [CHR ''/''])) = hd (split_all (CHR ''/'') p)"
  proof (induction p)
    case (Cons a p)
    then show ?case
      using split_all_cong_tail [of "CHR ''/''" "p @ [CHR ''/'']" p] by auto
  qed simp
  then show ?thesis unfolding segments_def by (intro split_all_cong_tail) simp
qed

lemma segments_append_slashes: "segments (p @ replicate n (CHR ''/'')) = segments p"
proof (induction n arbitrary: p)
  case (Suc n)
  have "p @ replicate (Suc n) (CHR ''/'') = (p @ [CHR ''/'']) @ replicate n (CHR ''/'')" by simp
  then show ?case using Suc.IH [of "p @ [CHR ''/'']"] segments_snoc_slash by metis
qed simp

lemma segments_rstrip: "segments (rstrip_slash p) = segments p"
  using rstrip_slash_split [of p] segments_append_slashes by metis

lemma rstrip_slash_id: "\<not> ends_with p ''/'' \<Longrightarrow> rstrip_slash p = p"
  by (cases p rule: rev_cases) (auto simp: rstrip_slash_def)

lemma rstrip_slash_prefix: "prefix (rstrip_slash p) p"
  using rstrip_slash_split [of p] by (metis prefixI)

lemma replace_dslash_head:
  "s \<noteq> [] \<Longrightarrow> replace_dslash s \<noteq> [] \<and> hd (replace_dslash s) = hd s"
  by (cases s rule: replace_dslash.cases) auto

lemma collapse_head: "s \<noteq> [] \<Longrightarrow> collapse_slashes s \<noteq> [] \<and> hd (collapse_slashes s) = hd s"
proof (induction s rule: collapse_slashes.induct)
  case (1 p)
  then show ?case
    using replace_dslash_head [of p] by (subst (1 2) collapse_slashes.simps) auto
qed

text \<open>What the branches of \<open>clean_path\<close> return, as one equation.\<close>

lemma clean_path_Inr:
  assumes "clean_path p = Inr q" and "p \<noteq> []"
  shows "q = (if rstrip_slash (collapse_slashes p) = [] then ''/'' else rstrip_slash (collapse_slashes p))"
proof -
  let ?c = "collapse_slashes p"
  have ne: "?c \<noteq> []" using collapse_head assms(2) by blast
  show ?thesis
  proof (cases "1 < length ?c \<and> ends_with ?c ''/''")
    case True
    with assms show ?thesis by (auto simp: clean_path_def Let_def split: if_splits)
  next
    case False
    with assms have q: "q = ?c" by (auto simp: clean_path_def Let_def split: if_splits)
    show ?thesis
    proof (cases "ends_with ?c ''/''")
      case True
      with False ne have "?c = ''/''" by (auto elim!: suffixE simp: not_less)
      with q show ?thesis by (simp add: rstrip_slash_def)
    next
      case False
      with q ne show ?thesis by (simp add: rstrip_slash_id)
    qed
  qed
qed

lemma replace_dslash_Cons: "a \<noteq> CHR ''/'' \<Longrightarrow> replace_dslash (a # s) = a # replace_dslash s"
  by (cases s) auto

lemma collapse_Cons: "a \<noteq> CHR ''/'' \<Longrightarrow> collapse_slashes (a # s) = a # collapse_slashes s"
proof (induction s rule: collapse_slashes.induct)
  case (1 s)
  then show ?case
    by (subst (1 2) collapse_slashes.simps) (simp add: replace_dslash_Cons)
qed

lemma collapse_starts_slash: "starts_with (collapse_slashes s) ''/'' \<longleftrightarrow> starts_with s ''/''"
proof (cases s)
  case Nil
  then show ?thesis by (simp add: collapse_id)
next
  case (Cons a t)
  then have "collapse_slashes s \<noteq> []" "hd (collapse_slashes s) = a"
    using collapse_head [of s] by auto
  then show ?thesis by (cases "collapse_slashes s") (auto simp: Cons)
qed

lemma clean_keeps_dot:
  "starts_with (rstrip_slash (collapse_slashes p)) (CHR ''.'' # s) \<Longrightarrow> s \<noteq> [] \<Longrightarrow>
     \<exists>p'. p = CHR ''.'' # p' \<and> starts_with (collapse_slashes p') s"
proof -
  assume h: "starts_with (rstrip_slash (collapse_slashes p)) (CHR ''.'' # s)" and "s \<noteq> []"
  then have c: "starts_with (collapse_slashes p) (CHR ''.'' # s)"
    using rstrip_slash_prefix by (metis prefix_order.trans)
  then obtain a p' where p: "p = a # p'" by (cases p) (auto simp: collapse_id)
  with c have "a = CHR ''.''"
    using collapse_head [of p] by (cases "collapse_slashes p") auto
  with c show ?thesis by (simp add: p collapse_Cons)
qed

lemma clean_path_not_relative:
  assumes "clean_path p = Inr q" and "p \<noteq> []"
  shows "\<not> starts_with (rstrip_slash (collapse_slashes p)) ''./''"
    and "\<not> starts_with (rstrip_slash (collapse_slashes p)) ''../''"
proof -
  have np: "\<not> starts_with p ''./''" "\<not> starts_with p ''../''"
    using assms by (auto simp: clean_path_def split: if_splits)
  show "\<not> starts_with (rstrip_slash (collapse_slashes p)) ''./''"
  proof
    assume "starts_with (rstrip_slash (collapse_slashes p)) ''./''"
    then obtain p' where "p = CHR ''.'' # p'" "starts_with (collapse_slashes p') ''/''"
      using clean_keeps_dot by blast
    with np show False by (simp add: collapse_starts_slash)
  qed
  show "\<not> starts_with (rstrip_slash (collapse_slashes p)) ''../''"
  proof
    assume "starts_with (rstrip_slash (collapse_slashes p)) ''../''"
    then obtain p' where p: "p = CHR ''.'' # p'" and p': "starts_with (collapse_slashes p') ''./''"
      using clean_keeps_dot by blast
    from p' obtain p'' where "p' = CHR ''.'' # p''"
      using collapse_head [of p'] by (cases p'; cases "collapse_slashes p'") (auto simp: collapse_id)
    with p p' np show False by (simp add: collapse_Cons collapse_starts_slash)
  qed
qed

lemma clean_path_cleaned:
  assumes "\<not> dslash q" and "ends_with q ''/'' \<longrightarrow> q = ''/''"
    and "\<not> starts_with q ''./''" and "\<not> starts_with q ''../''"
  shows "clean_path q = Inr q"
  using assms by (auto simp: clean_path_def collapse_id Let_def)

lemma split_all_append_list:
  "split_all c (s @ c # t) = split_all c s @ split_all c t"
  by (induction s) (auto simp: hd_append)

lemma first_control_None: "first_control i s = None \<longleftrightarrow> (\<forall>ch \<in> set s. \<not> is_control ch)"
  by (induction s arbitrary: i) auto

lemma dropWhile_sep: "dropWhile (\<lambda>x. x \<noteq> c) s = [] \<or> starts_with (dropWhile (\<lambda>x. x \<noteq> c) s) [c]"
  by (induction s) auto

lemma not_is_safe_None [simp]: "\<not> is_safe_path_segment None"
  by (simp add: is_safe_path_segment_def)

lemma is_safe_path_segment_iff:
  "is_safe_path_segment (Some s) \<longleftrightarrow>
     s \<noteq> [] \<and> CHR ''/'' \<notin> set s \<and> s \<noteq> ''.'' \<and> s \<noteq> ''..'' \<and> (\<forall>ch \<in> set s. \<not> is_control ch)"
  by (auto simp: is_safe_path_segment_def validate_path_chars_def first_control_None)

lemma validate_absolute_path_None:
  "validate_absolute_path p = None \<longleftrightarrow>
     (\<exists>pid rest. p = CHR ''/'' # pid @ rest \<and> is_peer_id pid \<and> (rest = [] \<or> starts_with rest ''/'')
        \<and> \<not> dslash p)"
proof
  assume h: "validate_absolute_path p = None"
  then obtain q where p: "p = CHR ''/'' # q"
    by (cases p) (auto simp: validate_absolute_path_def split: if_splits)
  let ?pid = "takeWhile (\<lambda>x. x \<noteq> CHR ''/'') q" and ?rest = "dropWhile (\<lambda>x. x \<noteq> CHR ''/'') q"
  from h have "is_peer_id ?pid" and "\<not> dslash p"
    by (auto simp: validate_absolute_path_def Let_def p split_all_hd split: if_splits)
  moreover have "?rest = [] \<or> starts_with ?rest ''/''"
    by (rule dropWhile_sep)
  moreover have "p = CHR ''/'' # ?pid @ ?rest" by (simp add: p)
  ultimately show "\<exists>pid rest. p = CHR ''/'' # pid @ rest \<and> is_peer_id pid
      \<and> (rest = [] \<or> starts_with rest ''/'') \<and> \<not> dslash p" by blast
next
  assume "\<exists>pid rest. p = CHR ''/'' # pid @ rest \<and> is_peer_id pid \<and> (rest = [] \<or> starts_with rest ''/'')
        \<and> \<not> dslash p"
  then obtain pid rest where p: "p = CHR ''/'' # pid @ rest" and pid: "is_peer_id pid"
    and rest: "rest = [] \<or> starts_with rest ''/''" and nd: "\<not> dslash p" by blast
  have "takeWhile (\<lambda>x. x \<noteq> CHR ''/'') (pid @ rest) = pid"
    using is_peer_id_no_slash [OF pid] rest by (cases rest) (auto simp: takeWhile_append)
  then have "hd (split_all (CHR ''/'') (drop 1 p)) = pid" by (simp add: p split_all_hd)
  with pid nd is_peer_id_not_Nil [OF pid] show "validate_absolute_path p = None"
    unfolding validate_absolute_path_def Let_def by (simp add: p)
qed

lemma extract_handler_path_absolute:
  assumes "is_peer_id pid"
  shows "extract_handler_path (CHR ''/'' # pid @ CHR ''/'' # h) = h"
    and "extract_handler_path (ENTITY_SCHEME @ pid @ CHR ''/'' # h) = h"
  using is_peer_id_no_slash [OF assms] split_once_at [of "CHR ''/''" pid h]
  by (simp_all add: extract_handler_path_def after_first_slash_def ENTITY_SCHEME_def)

subsection \<open>Properties\<close>

text \<open>
  Cleaning a path normalises it and nothing else: when \<open>clean_path\<close> returns, the result has no
  empty segment and no trailing slash (but for the root \<open>"/"\<close>), names the same non-empty segments
  in the same order, is absolute exactly when the input was, and cleaning it again returns it
  unchanged; it raises exactly on the reserved prefixes \<open>./\<close> and \<open>../\<close>.
\<close>

theorem clean_path_normalises:
  "(clean_path p = Inl ValueError \<longleftrightarrow> starts_with p ''./'' \<or> starts_with p ''../'')
   \<and> (clean_path p = Inr q \<longrightarrow>
        \<not> dslash q \<and> (ends_with q ''/'' \<longrightarrow> q = ''/'') \<and> segments q = segments p
        \<and> (starts_with q ''/'' \<longleftrightarrow> starts_with p ''/'') \<and> clean_path q = Inr q)"
proof (cases "p = []")
  case True
  then show ?thesis by (auto simp: clean_path_def)
next
  case False
  let ?r = "rstrip_slash (collapse_slashes p)"
  have err: "clean_path p = Inl ValueError \<longleftrightarrow> starts_with p ''./'' \<or> starts_with p ''../''"
    by (auto simp: clean_path_def Let_def)
  moreover have "\<not> dslash q \<and> (ends_with q ''/'' \<longrightarrow> q = ''/'') \<and> segments q = segments p
      \<and> (starts_with q ''/'' \<longleftrightarrow> starts_with p ''/'') \<and> clean_path q = Inr q"
    if h: "clean_path p = Inr q"
  proof -
    have q: "q = (if ?r = [] then ''/'' else ?r)" using clean_path_Inr h False by blast
    have nd: "\<not> dslash q"
      using collapse_no_dslash dslash_prefix rstrip_slash_prefix by (auto simp: q)
    have e: "ends_with q ''/'' \<longrightarrow> q = ''/''" using rstrip_slash_end by (auto simp: q)
    have sg: "segments q = segments p"
      using segments_rstrip [of "collapse_slashes p"] segments_collapse [of p]
      by (auto simp: q path_simps)
    have st: "starts_with q ''/'' \<longleftrightarrow> starts_with p ''/''"
    proof (cases "?r = []")
      case True
      then obtain n where "collapse_slashes p = replicate n (CHR ''/'')"
        using rstrip_slash_split [of "collapse_slashes p"] by auto
      moreover have "collapse_slashes p \<noteq> []" using collapse_head False by blast
      ultimately have "starts_with (collapse_slashes p) ''/''" by (cases n) auto
      with True show ?thesis by (simp add: q collapse_starts_slash)
    next
      case False
      then have "starts_with ?r ''/'' \<longleftrightarrow> starts_with (collapse_slashes p) ''/''"
        using rstrip_slash_prefix [of "collapse_slashes p"]
        by (cases ?r; cases "collapse_slashes p") auto
      with False show ?thesis by (simp add: q collapse_starts_slash)
    qed
    have "clean_path q = Inr q"
      using clean_path_not_relative [OF h False] nd e by (intro clean_path_cleaned) (auto simp: q)
    with nd e sg st show ?thesis by blast
  qed
  ultimately show ?thesis by blast
qed

theorem clean_path_normalises_witness:
  "clean_path ''/a//b/'' = Inr ''/a/b'' \<and> segments ''/a/b'' = segments ''/a//b/''
   \<and> clean_path ''/a/b'' = Inr ''/a/b''"
proof -
  have c: "clean_path ''/a//b/'' = Inr ''/a/b''"
    by (simp add: clean_path_def collapse_slashes.simps rstrip_slash_def suffix_def Let_def)
  then show ?thesis using clean_path_normalises [of "''/a//b/''" "''/a/b''"] by blast
qed

text \<open>
  The absolute-path validator accepts exactly the paths \<open>/{peer_id}\<close> and \<open>/{peer_id}/rest\<close> without
  an empty segment, and on those, as on the \<open>entity://\<close> form of the same address, the extracted
  handler path is \<open>rest\<close>.
\<close>

theorem validate_absolute_path_exact:
  "validate_absolute_path p = None \<longleftrightarrow>
     \<not> dslash p \<and> (\<exists>pid. is_peer_id pid \<and>
       (p = CHR ''/'' # pid \<or>
        (\<exists>h. p = CHR ''/'' # pid @ CHR ''/'' # h \<and> extract_handler_path p = h
            \<and> extract_handler_path (ENTITY_SCHEME @ pid @ CHR ''/'' # h) = h)))"
proof -
  have ex: "(\<exists>rest. p = CHR ''/'' # pid @ rest \<and> (rest = [] \<or> starts_with rest ''/''))
      \<longleftrightarrow> p = CHR ''/'' # pid \<or> (\<exists>h. p = CHR ''/'' # pid @ CHR ''/'' # h)" for pid
    by (auto elim!: prefixE)
  have "validate_absolute_path p = None \<longleftrightarrow> \<not> dslash p \<and> (\<exists>pid. is_peer_id pid \<and>
      (p = CHR ''/'' # pid \<or> (\<exists>h. p = CHR ''/'' # pid @ CHR ''/'' # h)))"
    unfolding validate_absolute_path_None ex [symmetric] by blast
  also have "\<dots> \<longleftrightarrow> \<not> dslash p \<and> (\<exists>pid. is_peer_id pid \<and> (p = CHR ''/'' # pid \<or>
      (\<exists>h. p = CHR ''/'' # pid @ CHR ''/'' # h \<and> extract_handler_path p = h
        \<and> extract_handler_path (ENTITY_SCHEME @ pid @ CHR ''/'' # h) = h)))"
    by (auto simp: extract_handler_path_absolute simp del: append.simps)
  finally show ?thesis .
qed

text \<open>
  A hostile value never steers a tree path: whatever the untrusted value is, the sanitised
  segment placed between a prefix and a suffix is exactly one segment of the resulting path, is
  neither \<open>.\<close> nor \<open>..\<close>, carries no control character, and is the value itself when the value was safe
  and the fixed sentinel otherwise.
\<close>

theorem sanitize_is_one_segment:
  assumes "is_safe_path_segment (Some sentinel)"
  shows "let r = sanitize_path_segment v sentinel in
    split_all (CHR ''/'') (pre @ CHR ''/'' # r @ CHR ''/'' # post)
      = split_all (CHR ''/'') pre @ [r] @ split_all (CHR ''/'') post
    \<and> r \<noteq> [] \<and> r \<noteq> ''.'' \<and> r \<noteq> ''..'' \<and> validate_path_chars r = None
    \<and> r = (if is_safe_path_segment v then the v else sentinel)"
proof -
  let ?r = "sanitize_path_segment v sentinel"
  have r: "is_safe_path_segment (Some ?r)"
    using assms by (cases v) (auto simp: sanitize_path_segment_def)
  then have "split_all (CHR ''/'') (?r @ CHR ''/'' # post) = ?r # split_all (CHR ''/'') post"
    by (simp add: split_all_append is_safe_path_segment_iff)
  then show ?thesis
    using r by (simp add: Let_def split_all_append_list is_safe_path_segment_iff validate_path_chars_def
        first_control_None sanitize_path_segment_def)
qed

theorem sanitize_is_one_segment_witness:
  "is_safe_path_segment (Some ''bad'') \<and> sanitize_path_segment (Some ''../x'') ''bad'' = ''bad''
   \<and> split_all (CHR ''/'') (''s/'' @ sanitize_path_segment (Some ''../x'') ''bad'' @ ''/m'')
      = [''s'', ''bad'', ''m'']"
proof -
  have b: "is_safe_path_segment (Some ''bad'')"
    by (simp add: is_safe_path_segment_iff is_control_def)
  show ?thesis
    using b sanitize_is_one_segment [OF b, of "Some ''../x''" "''s''" "''m''"]
    by (simp add: Let_def is_safe_path_segment_iff sanitize_path_segment_def)
qed

end
