(* ===== verification/Patterns.thy ===== *)
theory Patterns
  imports Paths
begin

section \<open>Canonical paths and the pattern language of capabilities\<close>

text \<open>
  The first half of \<open>capability/checking.py\<close>: resolving a path or pattern to absolute form, the
  sentinel \<open>NEVER_MATCH\<close>, the path matcher with its peer wildcard and subtree forms, the literal
  matcher of the id-scope dimensions, and the overlap test used for pattern targets.
  Arguments keep the order of the source (\<open>matches_pattern pattern uri\<close>).
\<close>

definition NEVER_MATCH :: string where
  "NEVER_MATCH = ''/never-match''"

definition normalize :: "string \<Rightarrow> string" where
  "normalize uri =
     (if starts_with uri ENTITY_SCHEME then CHR ''/'' # drop (length ENTITY_SCHEME) uri else uri)"

definition is_pattern :: "string \<Rightarrow> bool" where
  "is_pattern path = (CHR ''*'' \<in> set path)"

definition canonicalize :: "string \<Rightarrow> string \<Rightarrow> string" where
  "canonicalize path local_peer_id =
     (let p = normalize path in
      if starts_with p ''./'' \<or> starts_with p ''../'' \<or> starts_with p ''*/'' then NEVER_MATCH
      else if starts_with p ''/'' then p
      else if p = ''*'' then CHR ''/'' # local_peer_id @ ''/*''
      else CHR ''/'' # local_peer_id @ CHR ''/'' # p)"

function matches_pattern :: "string \<Rightarrow> string \<Rightarrow> bool" where
  "matches_pattern pattern uri =
     (if pattern = NEVER_MATCH \<or> uri = NEVER_MATCH then False
      else if pattern = ''*'' then True
      else if starts_with pattern ''/*/'' then
        (if \<not> starts_with uri ''/'' then False
         else case find_from (CHR ''/'') uri 1 of
                None \<Rightarrow> False
              | Some slash \<Rightarrow> matches_pattern (drop 3 pattern) (drop (slash + 1) uri))
      else if ends_with pattern ''/*'' then starts_with uri (butlast pattern)
      else uri = pattern)"
  by pat_completeness auto
termination
  by (relation "measure (length \<circ> fst)") (auto elim!: prefixE)

declare matches_pattern.simps [simp del]

definition strip_wildcard :: "string \<Rightarrow> string" where
  "strip_wildcard pattern =
     (if ends_with pattern ''/*'' then take (length pattern - 2) pattern
      else if pattern = ''*'' then []
      else pattern)"

definition patterns_overlap :: "string \<Rightarrow> string \<Rightarrow> bool" where
  "patterns_overlap a b =
     (let prefix_a = strip_wildcard a; prefix_b = strip_wildcard b
      in starts_with prefix_a prefix_b \<or> starts_with prefix_b prefix_a)"

definition is_covered_by :: "string \<Rightarrow> string list \<Rightarrow> string \<Rightarrow> bool" where
  "is_covered_by path_or_pattern pattern_set local_peer_id =
     list_ex (\<lambda>p. matches_pattern (canonicalize p local_peer_id) path_or_pattern) pattern_set"

text \<open>The frame for the unmatchable test: \<open>"1" * 46\<close>.\<close>

definition ANY_FRAME :: string where
  "ANY_FRAME = replicate 46 (CHR ''1'')"

definition is_unmatchable_pattern :: "string \<Rightarrow> bool" where
  "is_unmatchable_pattern pattern = (canonicalize pattern ANY_FRAME = NEVER_MATCH)"

definition id_scope_pattern_matches :: "string \<Rightarrow> string \<Rightarrow> bool" where
  "id_scope_pattern_matches pattern val =
     (if pattern = ''*'' then True
      else if ends_with pattern ''/*'' then starts_with val (butlast pattern)
      else val = pattern)"

definition extract_peer :: "string \<Rightarrow> string \<Rightarrow> string" where
  "extract_peer uri_or_path local_peer_id =
     (let canonical = canonicalize uri_or_path local_peer_id in
      if \<not> starts_with canonical ''/'' then local_peer_id
      else let segment = fst (split_once (CHR ''/'') (drop 1 canonical))
           in if segment = [] then local_peer_id else segment)"

subsection \<open>Canonical forms\<close>

lemma never_match_single_segment: "NEVER_MATCH \<noteq> CHR ''/'' # a @ CHR ''/'' # b"
proof
  assume h: "NEVER_MATCH = CHR ''/'' # a @ CHR ''/'' # b"
  have "tl NEVER_MATCH = a @ CHR ''/'' # b" by (subst h) simp
  then have "CHR ''/'' \<in> set (tl NEVER_MATCH)" by (simp only: set_append) simp
  then show False by (simp add: NEVER_MATCH_def)
qed

lemma canonicalize_absolute: "starts_with (canonicalize p l) ''/''"
  by (auto simp: canonicalize_def Let_def NEVER_MATCH_def)

lemma canonicalize_never_match:
  "canonicalize p l = NEVER_MATCH \<longleftrightarrow>
     (let q = normalize p in starts_with q ''./'' \<or> starts_with q ''../'' \<or> starts_with q ''*/''
        \<or> q = NEVER_MATCH)"
proof -
  have "CHR ''/'' # l @ ''/*'' \<noteq> NEVER_MATCH" "\<And>q. CHR ''/'' # l @ CHR ''/'' # q \<noteq> NEVER_MATCH"
    using never_match_single_segment by metis+
  moreover have "\<not> starts_with q ''/'' \<Longrightarrow> q \<noteq> NEVER_MATCH" for q by (auto simp: NEVER_MATCH_def)
  ultimately show ?thesis by (auto simp: canonicalize_def Let_def)
qed

lemma canonicalize_abs_id: "canonicalize (CHR ''/'' # t) l = CHR ''/'' # t"
proof -
  have "normalize (CHR ''/'' # t) = CHR ''/'' # t" by (simp add: normalize_def ENTITY_SCHEME_def)
  then show ?thesis by (simp add: canonicalize_def)
qed

lemma canonicalize_idem: "canonicalize (canonicalize p l) l' = canonicalize p l"
  using canonicalize_absolute [of p l] canonicalize_abs_id by (auto elim!: prefixE)

lemma is_unmatchable_pattern_iff:
  "is_unmatchable_pattern p \<longleftrightarrow> canonicalize p l = NEVER_MATCH"
  by (simp add: is_unmatchable_pattern_def canonicalize_never_match)

text \<open>\<open>NEVER_MATCH\<close> is no path: the validator refuses it, as it was designed to be refused.\<close>

lemma never_match_invalid: "validate_absolute_path NEVER_MATCH = Some (InvalidPeerSegment ''never-match'')"
  by (simp add: NEVER_MATCH_def validate_absolute_path_def is_peer_id_def PEER_ID_LENGTH_def)

subsection \<open>The matcher, case by case\<close>

text \<open>
  \<open>matches_pattern\<close> through its four forms. The peer form splits the value after its first segment,
  which \<open>peer_rest\<close> computes.
\<close>

definition peer_rest :: "string \<Rightarrow> string option" where
  "peer_rest uri =
     (if starts_with uri ''/'' then snd (split_once (CHR ''/'') (drop 1 uri)) else None)"

lemma peer_rest_Some: "peer_rest u = Some r \<longleftrightarrow> (\<exists>x. u = CHR ''/'' # x @ CHR ''/'' # r \<and> CHR ''/'' \<notin> set x)"
proof
  assume h: "peer_rest u = Some r"
  then obtain v where u: "u = CHR ''/'' # v"
    by (cases u) (auto simp: peer_rest_def split: if_splits)
  with h obtain x where "split_once (CHR ''/'') v = (x, Some r)"
    by (cases "split_once (CHR ''/'') v") (auto simp: peer_rest_def)
  then show "\<exists>x. u = CHR ''/'' # x @ CHR ''/'' # r \<and> CHR ''/'' \<notin> set x"
    by (auto simp: u split_once_Some)
next
  assume "\<exists>x. u = CHR ''/'' # x @ CHR ''/'' # r \<and> CHR ''/'' \<notin> set x"
  then show "peer_rest u = Some r" by (auto simp: peer_rest_def split_once_at)
qed

lemma peer_rest_find:
  assumes "starts_with u ''/''"
  shows "peer_rest u = map_option (\<lambda>slash. drop (slash + 1) u) (find_from (CHR ''/'') u 1)"
proof -
  obtain v where u: "u = CHR ''/'' # v" using assms by (auto elim: prefixE)
  show ?thesis
  proof (cases "CHR ''/'' \<in> set v")
    case True
    then obtain x r where v: "v = x @ CHR ''/'' # r" and x: "CHR ''/'' \<notin> set x"
      by (blast dest: split_list_first)
    then have "takeWhile (\<lambda>y. y \<noteq> CHR ''/'') v = x" by (auto simp: takeWhile_append)
    then have "find_from (CHR ''/'') u 1 = Some (1 + length x)" by (simp add: find_from_def u v)
    moreover have "peer_rest u = Some r" using x by (auto simp: peer_rest_Some u v)
    ultimately show ?thesis by (simp add: u v)
  next
    case False
    then show ?thesis by (simp add: peer_rest_def find_from_def u split_once_def)
  qed
qed

lemma matches_never [simp]:
  "\<not> matches_pattern NEVER_MATCH u" "\<not> matches_pattern p NEVER_MATCH"
  by (subst matches_pattern.simps, simp)+

lemma matches_star: "matches_pattern ''*'' u \<longleftrightarrow> u \<noteq> NEVER_MATCH"
  by (subst matches_pattern.simps) (simp add: NEVER_MATCH_def)

lemma matches_peer:
  "matches_pattern (CHR ''/'' # CHR ''*'' # CHR ''/'' # r) u \<longleftrightarrow>
     u \<noteq> NEVER_MATCH \<and> (\<exists>rest. peer_rest u = Some rest \<and> matches_pattern r rest)"
proof (cases "starts_with u ''/''")
  case True
  then show ?thesis
    by (subst matches_pattern.simps) (simp add: NEVER_MATCH_def peer_rest_find split: option.split)
next
  case False
  then show ?thesis
    by (subst matches_pattern.simps) (simp add: NEVER_MATCH_def peer_rest_def)
qed

lemma matches_subtree:
  assumes "\<not> starts_with (p @ ''/*'') ''/*/''"
  shows "matches_pattern (p @ ''/*'') u \<longleftrightarrow> u \<noteq> NEVER_MATCH \<and> starts_with u (p @ ''/'')"
proof -
  have "p @ ''/*'' \<noteq> NEVER_MATCH"
  proof
    assume "p @ ''/*'' = NEVER_MATCH"
    then have "last (p @ ''/*'') = last NEVER_MATCH" by (rule arg_cong)
    then show False by (simp add: NEVER_MATCH_def)
  qed
  moreover have "p @ ''/*'' \<noteq> ''*''" by (cases p) auto
  moreover have "butlast (p @ ''/*'') = p @ ''/''" by (simp add: butlast_append)
  moreover have "ends_with (p @ ''/*'') ''/*''" by (rule suffixI) (rule refl)
  ultimately show ?thesis using assms by (subst matches_pattern.simps) simp
qed

lemma matches_exact:
  assumes "p \<noteq> ''*''" and "\<not> starts_with p ''/*/''" and "\<not> ends_with p ''/*''"
  shows "matches_pattern p u \<longleftrightarrow> u \<noteq> NEVER_MATCH \<and> u = p"
  using assms by (subst matches_pattern.simps) auto

text \<open>Every pattern has exactly one of the four forms.\<close>

lemma pattern_cases [case_names star peer subtree exact]:
  obtains "p = ''*''"
  | r where "p = ''/*/'' @ r"
  | q where "p = q @ ''/*''" and "\<not> starts_with p ''/*/''"
  | "p \<noteq> ''*''" and "\<not> starts_with p ''/*/''" and "\<not> ends_with p ''/*''"
proof -
  consider "p = ''*''" | "starts_with p ''/*/''" | "p \<noteq> ''*''" "\<not> starts_with p ''/*/''" "ends_with p ''/*''"
    | "p \<noteq> ''*''" "\<not> starts_with p ''/*/''" "\<not> ends_with p ''/*''" by blast
  then show ?thesis using that by cases (auto elim: prefixE suffixE)
qed

subsection \<open>Matching is transitive on well-formed values\<close>

lemma peer_rest_no_dslash: "peer_rest u = Some r \<Longrightarrow> \<not> dslash u \<Longrightarrow> \<not> dslash r \<and> \<not> starts_with r ''/'' \<and> r \<noteq> NEVER_MATCH"
proof -
  assume "peer_rest u = Some r" and nd: "\<not> dslash u"
  then obtain x where u: "u = CHR ''/'' # x @ CHR ''/'' # r" by (auto simp: peer_rest_Some)
  have "\<not> dslash (CHR ''/'' # r)" using nd unfolding u by (auto dest: dslash_appendD)
  then show ?thesis by (auto elim!: prefixE simp: NEVER_MATCH_def)
qed

lemma matches_star_only: "matches_pattern p ''*'' \<Longrightarrow> p = ''*''"
proof (cases p rule: pattern_cases)
  case (peer r)
  moreover assume "matches_pattern p ''*''"
  ultimately show ?thesis by (simp add: matches_peer peer_rest_def)
next
  case (subtree q)
  assume "matches_pattern p ''*''"
  with subtree have "starts_with ''*'' (q @ ''/'')" by (simp add: matches_subtree)
  then show ?thesis by (cases q) auto
qed (auto simp: matches_exact)

text \<open>A pattern that a peer pattern matches has a peer segment, and its rest is a pattern.\<close>

lemma matches_pattern_rest:
  assumes m: "matches_pattern q u" and q: "peer_rest q = Some q'" and nd: "\<not> dslash u"
  shows "\<exists>u'. peer_rest u = Some u' \<and> matches_pattern q' u'"
proof (cases q rule: pattern_cases)
  case star
  with q show ?thesis by (simp add: peer_rest_def)
next
  case (peer r)
  with m obtain u' where u': "peer_rest u = Some u'" "matches_pattern r u'" by (auto simp: matches_peer)
  have "peer_rest q = Some r" unfolding peer_rest_Some peer by (rule exI [of _ "''*''"]) simp
  with q u' show ?thesis by auto
next
  case (subtree p)
  from q obtain x where x: "q = CHR ''/'' # x @ CHR ''/'' # q'" "CHR ''/'' \<notin> set x"
    by (auto simp: peer_rest_Some)
  from m subtree have u: "starts_with u (p @ ''/'')" by (auto simp: matches_subtree)
  show ?thesis
  proof (cases "q' = ''*''")
    case True
    with x subtree(1) have "p @ ''/'' = CHR ''/'' # x @ ''/''" by auto
    with u obtain u' where "u = CHR ''/'' # x @ CHR ''/'' # u'" by (auto elim!: prefixE)
    then have "peer_rest u = Some u'" using x(2) by (auto simp: peer_rest_Some)
    with True nd show ?thesis using peer_rest_no_dslash by (auto simp: matches_star)
  next
    case False
    have "ends_with (CHR ''/'' # x @ CHR ''/'' # q') ''/*''" using x(1) subtree(1) by (metis suffixI)
    then obtain p' where q': "q' = p' @ ''/*''"
      using False x(2) by (auto simp: suffix_def append_eq_append_conv2 Cons_eq_append_conv append_eq_Cons_conv)
    with x(1) subtree(1) have "p @ ''/'' = CHR ''/'' # x @ CHR ''/'' # p' @ ''/''" by auto
    with u obtain u' where u'': "u = CHR ''/'' # x @ CHR ''/'' # p' @ CHR ''/'' # u'"
      by (auto elim!: prefixE)
    then have pr: "peer_rest u = Some (p' @ CHR ''/'' # u')" using x(2) by (auto simp: peer_rest_Some)
    from peer_rest_no_dslash [OF pr nd] have "\<not> starts_with q' ''/*/''" "p' @ CHR ''/'' # u' \<noteq> NEVER_MATCH"
      by (cases p'; auto simp: q')+
    then have "matches_pattern q' (p' @ CHR ''/'' # u')" by (simp add: q' matches_subtree)
    with pr show ?thesis by blast
  qed
next
  case exact
  with m have u: "u = q" by (simp add: matches_exact)
  with q nd have n: "\<not> starts_with q' ''/''" "q' \<noteq> NEVER_MATCH" using peer_rest_no_dslash by auto
  have "\<not> ends_with q' ''/*''" "q' \<noteq> ''*''"
    using exact q by (auto simp: peer_rest_Some suffix_def)
  with n have "matches_pattern q' q'" by (subst matches_exact) (auto elim: prefixE)
  with q u show ?thesis by blast
qed

lemma matches_pattern_trans:
  "matches_pattern p q \<Longrightarrow> matches_pattern q u \<Longrightarrow> \<not> dslash u \<Longrightarrow> matches_pattern p u"
proof (induction p arbitrary: q u rule: measure_induct_rule [of length])
  case (less p)
  then have un: "u \<noteq> NEVER_MATCH" by auto
  show ?case
  proof (cases p rule: pattern_cases)
    case star
    with un show ?thesis by (simp add: matches_star)
  next
    case (peer r)
    with less.prems obtain q' where q': "peer_rest q = Some q'" "matches_pattern r q'"
      by (auto simp: matches_peer)
    with less.prems obtain u' where u': "peer_rest u = Some u'" "matches_pattern q' u'"
      using matches_pattern_rest by blast
    have "matches_pattern r u'"
      using less.IH [of r q' u'] q' u' peer_rest_no_dslash less.prems(3) by (auto simp: peer)
    with u' un show ?thesis by (auto simp: peer matches_peer)
  next
    case (subtree s)
    with less.prems have q: "starts_with q (s @ ''/'')" by (simp add: matches_subtree)
    show ?thesis using less.prems(2)
    proof (cases q rule: pattern_cases)
      case star
      with q show ?thesis by (cases s) auto
    next
      case (peer r)
      have "s = []"
      proof (rule ccontr)
        assume "s \<noteq> []"
        with q peer have "2 \<le> length s" by (cases s; cases "tl s") auto
        then have l: "length ''/*/'' \<le> length (s @ ''/'')" by simp
        have "prefix ''/*/'' q" by (simp add: peer)
        from prefix_length_prefix [OF this q l] have "prefix ''/*/'' (s @ ''/'')" .
        then have "prefix ''/*/'' ((s @ ''/'') @ ''*'')" by (rule prefix_prefix)
        with subtree show False by simp
      qed
      have "matches_pattern (CHR ''/'' # CHR ''*'' # CHR ''/'' # r) u"
        using less.prems(2) by (simp add: peer)
      then have "peer_rest u \<noteq> None" by (auto simp: matches_peer)
      then have "starts_with u ''/''" by (simp add: peer_rest_def split: if_splits)
      moreover have "matches_pattern p u \<longleftrightarrow> u \<noteq> NEVER_MATCH \<and> starts_with u (s @ ''/'')"
        using subtree by (simp add: matches_subtree)
      ultimately show ?thesis using un \<open>s = []\<close> by simp
    next
      case (subtree t)
      with less.prems(2) have u: "starts_with u (t @ ''/'')" by (simp add: matches_subtree)
      have "starts_with (t @ ''/'') (s @ ''/'')" using q unfolding subtree
        by (auto simp: prefix_snoc [of _ "t @ ''/''", simplified])
      with u have "starts_with u (s @ ''/'')" by (metis prefix_order.trans)
      then show ?thesis using \<open>p = s @ ''/*''\<close> \<open>\<not> starts_with p ''/*/''\<close> un by (simp add: matches_subtree)
    next
      case exact
      with less.prems show ?thesis by (simp add: matches_exact)
    qed
  next
    case exact
    with less.prems(1) have "q = p" by (simp add: matches_exact)
    with less.prems(2) show ?thesis by simp
  qed
qed

subsection \<open>Overlap of two patterns\<close>

text \<open>
  What a pattern without peer wildcard matches starts with what \<open>strip_wildcard\<close> leaves of it, so
  two such patterns that share a value overlap. (A peer wildcard is not stripped, so the test says
  nothing about such a pattern: see \<open>overlap_misses_peer_wildcard\<close> in \<open>Checking\<close>.)
\<close>

lemma strip_wildcard_subtree: "strip_wildcard (s @ ''/*'') = s"
proof -
  have "ends_with (s @ ''/*'') ''/*''" by (rule suffixI) (rule refl)
  then show ?thesis by (simp add: strip_wildcard_def)
qed

lemma matches_strip_wildcard:
  assumes "\<not> starts_with p ''/*/''" and "matches_pattern p u"
  shows "starts_with u (strip_wildcard p)"
proof (cases p rule: pattern_cases)
  case star
  then show ?thesis by (simp add: strip_wildcard_def)
next
  case (peer r)
  with assms show ?thesis by simp
next
  case (subtree s)
  with assms have "starts_with u (s @ ''/'')" by (simp add: matches_subtree)
  then show ?thesis unfolding subtree strip_wildcard_subtree by (rule append_prefixD)
next
  case exact
  with assms have "u = p" by (simp add: matches_exact)
  with exact show ?thesis by (simp add: strip_wildcard_def)
qed

lemma patterns_overlap_complete:
  assumes "\<not> starts_with a ''/*/''" and "\<not> starts_with b ''/*/''"
    and "matches_pattern a u" and "matches_pattern b u"
  shows "patterns_overlap a b"
  using prefix_same_cases [OF matches_strip_wildcard [OF assms(1,3)] matches_strip_wildcard [OF assms(2,4)]]
  by (auto simp: patterns_overlap_def Let_def)

subsection \<open>The id-scope language\<close>

lemma id_scope_subtree: "id_scope_pattern_matches (s @ ''/*'') v \<longleftrightarrow> starts_with v (s @ ''/'')"
proof -
  have "ends_with (s @ ''/*'') ''/*''" by (rule suffixI) (rule refl)
  moreover have "s @ ''/*'' \<noteq> ''*''" by (cases s) auto
  ultimately show ?thesis by (simp add: id_scope_pattern_matches_def butlast_append)
qed

lemma id_scope_trans:
  assumes pq: "id_scope_pattern_matches p q" and qv: "id_scope_pattern_matches q v"
  shows "id_scope_pattern_matches p v"
proof (cases "ends_with p ''/*''")
  case True
  then obtain s where p: "p = s @ ''/*''" by (auto elim: suffixE)
  with pq have q: "starts_with q (s @ ''/'')" by (simp add: id_scope_subtree)
  show ?thesis
  proof (cases "ends_with q ''/*''")
    case True
    then obtain t where t: "q = t @ ''/*''" by (auto elim: suffixE)
    with qv have "starts_with v (t @ ''/'')" by (simp add: id_scope_subtree)
    moreover have "starts_with (t @ ''/'') (s @ ''/'')" using q unfolding t
      by (auto simp: prefix_snoc [of _ "t @ ''/''", simplified])
    ultimately show ?thesis unfolding p id_scope_subtree by (metis prefix_order.trans)
  next
    case False
    moreover have "q \<noteq> ''*''" using q by (cases s) auto
    ultimately show ?thesis using pq qv by (simp add: id_scope_pattern_matches_def)
  qed
next
  case False
  with pq qv show ?thesis by (auto simp: id_scope_pattern_matches_def split: if_splits)
qed

end
