(* ===== verification/Tokens.thy ===== *)
theory Tokens
  imports Patterns
begin

section \<open>Capability tokens\<close>

text \<open>
  \<open>capability/token.py\<close>, \<open>capability/temporal.py\<close> and the minting half of \<open>capability/grant.py\<close>.
  The \<open>data\<close> dictionary of a capability entity is a record with one field per key the code reads:
  an \<open>option\<close> where the key may be absent, a \<open>val\<close> where the code tests the value's Python type.
\<close>

subsection \<open>Decoded values\<close>

text \<open>What CBOR decodes to, as far as the capability code looks at it.\<close>

datatype val =
    VNull | VBool bool | VInt int | VStr string | VBytes bytes | VList "val list"
  | VDict "(string \<times> val) list"

fun truthy :: "val \<Rightarrow> bool" where
  "truthy VNull = False"
| "truthy (VBool b) = b"
| "truthy (VInt i) = (i \<noteq> 0)"
| "truthy (VStr s) = (s \<noteq> [])"
| "truthy (VBytes b) = (b \<noteq> [])"
| "truthy (VList xs) = (xs \<noteq> [])"
| "truthy (VDict d) = (d \<noteq> [])"

text \<open>\<open>d.get(key)\<close> of a dictionary, which has each key once.\<close>

definition dict_get :: "(string \<times> val) list \<Rightarrow> string \<Rightarrow> val" where
  "dict_get d key = (case map_of d key of None \<Rightarrow> VNull | Some v \<Rightarrow> v)"

text \<open>A \<open>bool\<close> is an \<open>int\<close> in Python: the number a comparison or a subtraction sees.\<close>

fun as_num :: "val \<Rightarrow> int option" where
  "as_num (VInt i) = Some i"
| "as_num (VBool b) = Some (if b then 1 else 0)"
| "as_num _ = None"

text \<open>\<open>==\<close> on decoded values: numbers by value, dictionaries whatever the order of their keys.\<close>

fun py_eq :: "val \<Rightarrow> val \<Rightarrow> bool" and py_eq_list :: "val list \<Rightarrow> val list \<Rightarrow> bool"
  and py_sub :: "(string \<times> val) list \<Rightarrow> (string \<times> val) list \<Rightarrow> bool"
  and py_in :: "string \<Rightarrow> val \<Rightarrow> (string \<times> val) list \<Rightarrow> bool" where
  "py_eq (VList xs) (VList ys) = py_eq_list xs ys"
| "py_eq (VDict d) (VDict e) = (length d = length e \<and> py_sub d e)"
| "py_eq a b = (case (as_num a, as_num b) of (Some i, Some j) \<Rightarrow> i = j | _ \<Rightarrow> a = b)"
| "py_eq_list [] [] = True"
| "py_eq_list (x # xs) (y # ys) = (py_eq x y \<and> py_eq_list xs ys)"
| "py_eq_list _ _ = False"
| "py_sub [] e = True"
| "py_sub ((k, v) # d) e = (py_in k v e \<and> py_sub d e)"
| "py_in k v [] = False"
| "py_in k v ((k', w) # e) = (if k = k' then py_eq v w else py_in k v e)"

subsection \<open>Scopes and grants\<close>

record scope =
  sc_include :: "string list"
  sc_exclude :: "string list option"

text \<open>\<open>if scope.exclude: for pattern in scope.exclude\<close>: absent and empty are the same.\<close>

definition excludes :: "scope \<Rightarrow> string list" where
  "excludes sc = (case sc_exclude sc of None \<Rightarrow> [] | Some es \<Rightarrow> es)"

record grant =
  g_handlers :: "scope option"
  g_resources :: "scope option"
  g_operations :: "scope option"
  g_peers :: "scope option"
  g_constraints :: val
  g_allowances :: val

text \<open>\<open>get_scope(d, key)\<close>: a missing or malformed dimension is the scope that includes nothing.\<close>

definition get_scope :: "scope option \<Rightarrow> scope" where
  "get_scope field = (case field of Some sc \<Rightarrow> sc | None \<Rightarrow> \<lparr>sc_include = [], sc_exclude = None\<rparr>)"

text \<open>\<open>Grant.create\<close> without excludes, as every caller in \<open>grant.py\<close> uses it; \<open>peers=None\<close> omits them.\<close>

definition scope_of :: "string list \<Rightarrow> scope" where
  "scope_of patterns = \<lparr>sc_include = patterns, sc_exclude = None\<rparr>"

definition create_grant ::
  "string list \<Rightarrow> string list \<Rightarrow> string list \<Rightarrow> string list \<Rightarrow> val \<Rightarrow> val \<Rightarrow> grant" where
  "create_grant handlers resources operations peers constraints allowances =
     \<lparr>g_handlers = Some (scope_of handlers), g_resources = Some (scope_of resources),
      g_operations = Some (scope_of operations),
      g_peers = (if peers \<noteq> [] then Some (scope_of peers) else None),
      g_constraints = constraints, g_allowances = allowances\<rparr>"

subsection \<open>The token\<close>

datatype granter = NoGranter | HashGranter bytes | MultiGranter "bytes list" int

record caveats =
  no_delegation :: "bool option"
  max_delegation_depth :: "int option"
  max_delegation_ttl :: "int option"

record cap_data =
  cd_grants :: "grant list"
  cd_granter :: granter
  cd_grantee :: "bytes option"
  cd_parent :: "bytes option"
  cd_created_at :: "val option"
  cd_expires_at :: "val option"
  cd_not_before :: "val option"
  cd_caveats :: "caveats option"

text \<open>\<open>data.get(field)\<close> is \<open>None\<close> for an absent key and for a null one.\<close>

definition field :: "val option \<Rightarrow> val" where
  "field v = (case v of None \<Rightarrow> VNull | Some x \<Rightarrow> x)"

definition MULTI_GRANTER_N_CEILING :: nat where
  "MULTI_GRANTER_N_CEILING = 32"

definition is_multi_granter :: "granter \<Rightarrow> bool" where
  "is_multi_granter g = (case g of MultiGranter _ _ \<Rightarrow> True | _ \<Rightarrow> False)"

definition get_multi_granter :: "granter \<Rightarrow> (bytes list \<times> int) option" where
  "get_multi_granter g = (case g of MultiGranter signers k \<Rightarrow> Some (signers, k) | _ \<Rightarrow> None)"

datatype multi_error =
    NotMulti | TooFewSigners | CeilingExceeded | ThresholdTooLow | ThresholdExceedsN | DuplicateSigners

text \<open>The duplicate scan with its \<open>seen\<close> set.\<close>

fun has_duplicate :: "bytes list \<Rightarrow> bytes list \<Rightarrow> bool" where
  "has_duplicate seen [] = False"
| "has_duplicate seen (s # ss) = (if s \<in> set seen then True else has_duplicate (s # seen) ss)"

definition validate_multi_granter :: "granter \<Rightarrow> bool \<Rightarrow> multi_error option" where
  "validate_multi_granter g enforce_n_ceiling =
     (case get_multi_granter g of
        None \<Rightarrow> Some NotMulti
      | Some (signers, threshold) \<Rightarrow>
          let n = length signers in
          if n < 2 then Some TooFewSigners
          else if enforce_n_ceiling \<and> MULTI_GRANTER_N_CEILING < n then Some CeilingExceeded
          else if threshold < 2 then Some ThresholdTooLow
          else if int n < threshold then Some ThresholdExceedsN
          else if has_duplicate [] signers then Some DuplicateSigners
          else None)"

definition multi_sig_root_path :: "bytes \<Rightarrow> string" where
  "multi_sig_root_path cap_hash = ''system/capability/grants/multi-sig-root/'' @ hex cap_hash"

definition grantee_is_zero :: "bytes option \<Rightarrow> bool" where
  "grantee_is_zero grantee =
     (case grantee of None \<Rightarrow> True | Some bs \<Rightarrow> bs = [] \<or> list_all (\<lambda>b. b = 0) bs)"

definition validate_structure :: "cap_data \<Rightarrow> unit result" where
  "validate_structure cd = (if grantee_is_zero (cd_grantee cd) then Inl ValueError else Inr ())"

subsection \<open>Temporal validity\<close>

definition UINT64_MAX :: int where
  "UINT64_MAX = 2 ^ 64 - 1"

definition is_representable_timestamp :: "val \<Rightarrow> bool" where
  "is_representable_timestamp v = (case v of VInt i \<Rightarrow> 0 \<le> i \<and> i \<le> UINT64_MAX | _ \<Rightarrow> False)"

datatype temporal_field = ExpiresAt | NotBefore | CreatedAt

definition TEMPORAL_FIELDS :: "temporal_field list" where
  "TEMPORAL_FIELDS = [ExpiresAt, NotBefore, CreatedAt]"

fun temporal_get :: "cap_data \<Rightarrow> temporal_field \<Rightarrow> val" where
  "temporal_get cd ExpiresAt = field (cd_expires_at cd)"
| "temporal_get cd NotBefore = field (cd_not_before cd)"
| "temporal_get cd CreatedAt = field (cd_created_at cd)"

definition unrepresentable_temporal_field :: "cap_data \<Rightarrow> temporal_field option" where
  "unrepresentable_temporal_field cd =
     find (\<lambda>f. temporal_get cd f \<noteq> VNull \<and> \<not> is_representable_timestamp (temporal_get cd f))
       TEMPORAL_FIELDS"

datatype temporal_reason = Malformed temporal_field | Expired | NotYetValid

text \<open>
  The two bound checks run on fields that the first check let through: absent or an integer.
  \<open>None\<close> is the verdict \<open>(True, None)\<close>.
\<close>

definition temporal_validity :: "cap_data \<Rightarrow> int \<Rightarrow> temporal_reason option" where
  "temporal_validity cd now =
     (case unrepresentable_temporal_field cd of
        Some f \<Rightarrow> Some (Malformed f)
      | None \<Rightarrow>
          (case field (cd_expires_at cd) of
             VInt e \<Rightarrow> if e < now then Some Expired
                       else (case field (cd_not_before cd) of
                               VInt b \<Rightarrow> if now < b then Some NotYetValid else None
                             | _ \<Rightarrow> None)
           | _ \<Rightarrow> (case field (cd_not_before cd) of
                     VInt b \<Rightarrow> if now < b then Some NotYetValid else None
                   | _ \<Rightarrow> None)))"

subsection \<open>Minting\<close>

text \<open>
  \<open>expires_in_ms\<close> to \<open>expires_at\<close>: absent when not asked for or not representable, clamped to 0 (already
  expired) on underflow.
\<close>

definition mint_expiry :: "int \<Rightarrow> int option \<Rightarrow> val option" where
  "mint_expiry now_ms expires_in_ms =
     (case expires_in_ms of
        None \<Rightarrow> None
      | Some ttl \<Rightarrow>
          let expiry = now_ms + ttl in
          if expiry < 0 then Some (VInt 0)
          else if expiry \<le> UINT64_MAX then Some (VInt expiry)
          else None)"

text \<open>
  \<open>create_capability_token\<close> up to the data it signs; the identity hashes and the clock reading are
  its inputs, the signature is made by the crypto library.
\<close>

definition mint_cap_data ::
  "bytes \<Rightarrow> bytes \<Rightarrow> grant list \<Rightarrow> int option \<Rightarrow> int \<Rightarrow> cap_data result" where
  "mint_cap_data granter_hash grantee_hash grants expires_in_ms now_ms =
     (if grantee_is_zero (Some grantee_hash) then Inl ValueError
      else Inr \<lparr>cd_grants = grants, cd_granter = HashGranter granter_hash,
                cd_grantee = Some grantee_hash, cd_parent = None,
                cd_created_at = Some (VInt now_ms),
                cd_expires_at = mint_expiry now_ms expires_in_ms,
                cd_not_before = None, cd_caveats = None\<rparr>)"

definition create_full_access_grant :: "grant list" where
  "create_full_access_grant =
     [create_grant [''system/query''] [''*'', ''/*/*''] [''find'', ''count''] [''*'']
        (VDict [(''type_scope'', VDict [(''include'', VList [VStr ''*''])])])
        (VDict [(''scope'', VStr ''content_store'')]),
      create_grant [''*''] [''*'', ''/*/*''] [''*''] [''*''] VNull VNull]"

definition create_default_handler_self_grant :: "grant list" where
  "create_default_handler_self_grant = [create_grant [''*''] [''/*/*''] [''*''] [] VNull VNull]"

definition create_owner_grant :: "string \<Rightarrow> grant list" where
  "create_owner_grant peer_id =
     [create_grant [''*''] [''*'', CHR ''/'' # peer_id @ ''/*''] [''*''] [] VNull VNull]"

definition create_read_only_grant :: "string list \<Rightarrow> string list option \<Rightarrow> grant list" where
  "create_read_only_grant resource_patterns handler_patterns =
     [create_grant (case handler_patterns of None \<Rightarrow> [''system/tree''] | Some hs \<Rightarrow> hs)
        resource_patterns [''get''] [] VNull VNull]"

definition create_connect_grants :: "grant list" where
  "create_connect_grants =
     [create_grant [''system/tree''] [''system/type/*'', ''system/handler/*''] [''get''] [] VNull VNull,
      create_grant [''system/capability''] [] [''request''] [] VNull VNull]"

subsection \<open>Facts\<close>

lemma get_scope_simps [simp]:
  "get_scope (Some sc) = sc"
  "get_scope None = \<lparr>sc_include = [], sc_exclude = None\<rparr>"
  by (simp_all add: get_scope_def)

lemma excludes_simps [simp]:
  "excludes \<lparr>sc_include = is, sc_exclude = None\<rparr> = []"
  "excludes \<lparr>sc_include = is, sc_exclude = Some es\<rparr> = es"
  "excludes (scope_of is) = []"
  by (simp_all add: excludes_def scope_of_def)

lemma field_simps [simp]: "field None = VNull" "field (Some v) = v"
  by (simp_all add: field_def)

lemma unrepresentable_None:
  "unrepresentable_temporal_field cd = None \<longleftrightarrow>
     (\<forall>f. temporal_get cd f = VNull \<or> is_representable_timestamp (temporal_get cd f))"
proof -
  have "(\<forall>f. P f) \<longleftrightarrow> P ExpiresAt \<and> P NotBefore \<and> P CreatedAt" for P :: "temporal_field \<Rightarrow> bool"
    by (metis temporal_field.exhaust)
  then show ?thesis
    by (auto simp: unrepresentable_temporal_field_def find_None_iff TEMPORAL_FIELDS_def)
qed

lemma is_representable_timestamp_iff:
  "is_representable_timestamp v \<longleftrightarrow> (\<exists>i. v = VInt i \<and> 0 \<le> i \<and> i \<le> UINT64_MAX)"
  by (auto simp: is_representable_timestamp_def split: val.splits)

text \<open>When every field is representable the two bound checks decide.\<close>

lemma temporal_validity_bounds:
  assumes "unrepresentable_temporal_field cd = None"
  shows "temporal_validity cd now =
    (if \<exists>e. field (cd_expires_at cd) = VInt e \<and> e < now then Some Expired
     else if \<exists>b. field (cd_not_before cd) = VInt b \<and> now < b then Some NotYetValid else None)"
  using assms by (auto simp: temporal_validity_def split: val.splits)

lemma has_duplicate_iff: "has_duplicate seen ss \<longleftrightarrow> set ss \<inter> set seen \<noteq> {} \<or> \<not> distinct ss"
  by (induction ss arbitrary: seen) auto

lemma list_all_zero: "list_all (\<lambda>b. b = 0) bs \<longleftrightarrow> bs = replicate (length bs) 0"
  by (induction bs) auto

subsection \<open>Properties\<close>

text \<open>
  The temporal verdict, in full: a token is valid at \<open>now\<close> exactly when each of its three
  timestamps is absent or an integer in the unsigned 64-bit range, its expiry is not before \<open>now\<close> and
  its start is not after \<open>now\<close>; a timestamp outside the range (a boolean, a string, a negative or
  oversized integer) makes the token malformed whatever the clock says, and the reason it gives names
  such a field.
\<close>

theorem temporal_validity_exact:
  "(temporal_validity cd now = None \<longleftrightarrow>
      (\<forall>f. temporal_get cd f = VNull \<or> (\<exists>i. temporal_get cd f = VInt i \<and> 0 \<le> i \<and> i < 2 ^ 64))
      \<and> \<not> (\<exists>e. field (cd_expires_at cd) = VInt e \<and> e < now)
      \<and> \<not> (\<exists>b. field (cd_not_before cd) = VInt b \<and> now < b))
   \<and> ((\<exists>f. temporal_validity cd now = Some (Malformed f)) \<longleftrightarrow>
      (\<exists>f. temporal_get cd f \<noteq> VNull \<and> \<not> (\<exists>i. temporal_get cd f = VInt i \<and> 0 \<le> i \<and> i < 2 ^ 64)))"
proof -
  have rep: "is_representable_timestamp v \<longleftrightarrow> (\<exists>i. v = VInt i \<and> 0 \<le> i \<and> i < 2 ^ 64)" for v
    by (auto simp: is_representable_timestamp_iff UINT64_MAX_def)
  show ?thesis
  proof (cases "unrepresentable_temporal_field cd")
    case None
    then have "\<forall>f. temporal_get cd f = VNull \<or> (\<exists>i. temporal_get cd f = VInt i \<and> 0 \<le> i \<and> i < 2 ^ 64)"
      using unrepresentable_None [of cd] rep by blast
    then show ?thesis unfolding temporal_validity_bounds [OF None] by (intro conjI iffI; (simp only: split: if_splits)?; blast)
  next
    case (Some f)
    then have "\<not> (\<forall>f. temporal_get cd f = VNull \<or> is_representable_timestamp (temporal_get cd f))"
      using unrepresentable_None [of cd] by simp
    with Some show ?thesis by (auto simp: temporal_validity_def rep)
  qed
qed

text \<open>
  Minting and checking agree on the clock: a token minted at a representable time \<open>now_ms\<close> is
  addressed to a non-zero grantee, is never malformed, and is valid at a time \<open>t\<close> exactly up to the
  requested expiry; a requested expiry past the unsigned 64-bit range means no expiry, one before time
  0 means expiry at 0.
\<close>

theorem minted_token_valid_until_expiry:
  assumes "mint_cap_data granter_hash grantee_hash grants expires_in_ms now_ms = Inr cd"
    and "0 \<le> now_ms" and "now_ms < 2 ^ 64"
  shows "grantee_hash \<noteq> replicate (length grantee_hash) 0
    \<and> temporal_validity cd t =
        (case expires_in_ms of
           None \<Rightarrow> None
         | Some ttl \<Rightarrow> if now_ms + ttl < 2 ^ 64 \<and> max 0 (now_ms + ttl) < t then Some Expired else None)"
proof -
  have nz: "\<not> grantee_is_zero (Some grantee_hash)"
    and cd: "cd = \<lparr>cd_grants = grants, cd_granter = HashGranter granter_hash,
                cd_grantee = Some grantee_hash, cd_parent = None, cd_created_at = Some (VInt now_ms),
                cd_expires_at = mint_expiry now_ms expires_in_ms, cd_not_before = None, cd_caveats = None\<rparr>"
    using assms(1) by (auto simp: mint_cap_data_def split: if_splits)
  have "temporal_get cd f = VNull \<or> is_representable_timestamp (temporal_get cd f)" for f
    using assms(2,3)
    by (cases f) (auto simp: cd is_representable_timestamp_def mint_expiry_def UINT64_MAX_def Let_def
        split: option.splits)
  then have "temporal_validity cd t =
      (if \<exists>e. field (mint_expiry now_ms expires_in_ms) = VInt e \<and> e < t then Some Expired else None)"
    using temporal_validity_bounds [of cd t] unrepresentable_None [of cd] by (simp add: cd)
  also have "\<dots> = (case expires_in_ms of
           None \<Rightarrow> None
         | Some ttl \<Rightarrow> if now_ms + ttl < 2 ^ 64 \<and> max 0 (now_ms + ttl) < t then Some Expired else None)"
    by (auto simp: mint_expiry_def UINT64_MAX_def Let_def split: option.splits)
  finally show ?thesis using nz list_all_zero [of grantee_hash] by (auto simp: grantee_is_zero_def)
qed

theorem minted_token_valid_until_expiry_witness:
  "\<exists>cd. mint_cap_data [1] [2] [] (Some 1000) 50 = Inr cd \<and> temporal_validity cd 1050 = None
      \<and> temporal_validity cd 1051 = Some Expired"
proof -
  obtain cd where cd: "mint_cap_data [1] [2] [] (Some 1000) 50 = Inr cd"
    by (simp add: mint_cap_data_def grantee_is_zero_def)
  with minted_token_valid_until_expiry [OF cd, of 1050] minted_token_valid_until_expiry [OF cd, of 1051]
  show ?thesis by simp
qed

text \<open>
  The structural check of a multi-signature root accepts exactly the thresholds the design allows:
  between 2 and 32 distinct signers (no ceiling when the caller waives it), of which at least 2 and at
  most all must sign.
\<close>

theorem validate_multi_granter_exact:
  "validate_multi_granter g ceiling = None \<longleftrightarrow>
     (\<exists>signers k. g = MultiGranter signers k \<and> 2 \<le> k \<and> k \<le> int (length signers)
        \<and> \<not> (ceiling \<and> 32 < length signers) \<and> distinct signers)"
  by (cases g) (auto simp: validate_multi_granter_def get_multi_granter_def MULTI_GRANTER_N_CEILING_def
      has_duplicate_iff Let_def)

end
