(* ===== verification/Hashes.thy ===== *)
theory Hashes
  imports Varint
begin

section \<open>Content hashes and their formats\<close>

text \<open>
  \<open>utils/ecf.py\<close>: the hash formats, the readers of a hash, the negotiation of a connection's format
  and the walk that finds CBOR tags. The CBOR encoder and \<open>hashlib\<close> are libraries: they are the
  parameters \<open>ecf\<close> and \<open>H\<close>. Hash formats are written as numbers; their wire form is the first byte of
  the hash.
\<close>

record hashlib =
  sha256 :: "bytes \<Rightarrow> bytes"
  sha384 :: "bytes \<Rightarrow> bytes"
  sha512 :: "bytes \<Rightarrow> bytes"

text \<open>What \<open>hashlib\<close> documents of its digests: their sizes.\<close>

definition digest_sizes :: "hashlib \<Rightarrow> bool" where
  "digest_sizes H \<longleftrightarrow>
     (\<forall>b. length (sha256 H b) = 32 \<and> length (sha384 H b) = 48 \<and> length (sha512 H b) = 64)"

definition ALG_ECFV1_SHA256 :: int where "ALG_ECFV1_SHA256 = 0"

definition ALG_ECFV1_SHA384 :: int where "ALG_ECFV1_SHA384 = 1"

definition ALG_ECFV1_SHA512 :: int where "ALG_ECFV1_SHA512 = 2"

lemmas alg_defs = ALG_ECFV1_SHA256_def ALG_ECFV1_SHA384_def ALG_ECFV1_SHA512_def

definition DIGEST_SIZES :: "int \<Rightarrow> nat option" where
  "DIGEST_SIZES = [ALG_ECFV1_SHA256 \<mapsto> 32, ALG_ECFV1_SHA384 \<mapsto> 48, ALG_ECFV1_SHA512 \<mapsto> 64]"

definition ALGORITHM_NAMES :: "int \<Rightarrow> string option" where
  "ALGORITHM_NAMES = [ALG_ECFV1_SHA256 \<mapsto> ''ecfv1-sha256'', ALG_ECFV1_SHA384 \<mapsto> ''ecfv1-sha384'',
     ALG_ECFV1_SHA512 \<mapsto> ''ecfv1-sha512'']"

definition SUPPORTED_CONTENT_HASH_FORMATS :: "int list" where
  "SUPPORTED_CONTENT_HASH_FORMATS = [ALG_ECFV1_SHA256, ALG_ECFV1_SHA384]"

subsection \<open>Reading the format code\<close>

definition content_hash_format :: "bytes \<Rightarrow> int result" where
  "content_hash_format h = (case h of [] \<Rightarrow> Inl ValueError | b # _ \<Rightarrow> Inr (uint b))"

definition validate_content_hash_format_code :: "int \<Rightarrow> int result" where
  "validate_content_hash_format_code code =
     (if code = 0xFF then Inl UnsupportedHashFormat
      else if code \<notin> set SUPPORTED_CONTENT_HASH_FORMATS then Inl UnsupportedHashFormat
      else Inr code)"

definition decode_content_hash_format :: "bytes \<Rightarrow> (int \<times> nat) result" where
  "decode_content_hash_format h =
     bind_r (decode_leb128_default h) (\<lambda>(code, n).
       if code = 0xFF then Inl UnsupportedHashFormat
       else if code \<notin> set SUPPORTED_CONTENT_HASH_FORMATS then Inl UnsupportedHashFormat
       else Inr (code, n))"

definition validate_supported_content_hash_format :: "bytes \<Rightarrow> int result" where
  "validate_supported_content_hash_format h =
     bind_r (decode_content_hash_format h) (\<lambda>(code, _). Inr code)"

definition validate_hash :: "bytes \<Rightarrow> unit result" where
  "validate_hash h =
     (case h of
        [] \<Rightarrow> Inl ValueError
      | b # digest \<Rightarrow>
          let algorithm = uint b in
          if algorithm \<notin> set SUPPORTED_CONTENT_HASH_FORMATS then Inl UnsupportedHashFormat
          else (case DIGEST_SIZES algorithm of
                  None \<Rightarrow> Inl KeyError
                | Some expected_size \<Rightarrow>
                    if length digest \<noteq> expected_size then Inl ValueError else Inr ()))"

definition get_hash_algorithm :: "bytes \<Rightarrow> int result" where
  "get_hash_algorithm h = (if length h < 1 then Inl ValueError else Inr (uint (hd h)))"

definition get_hash_digest :: "bytes \<Rightarrow> bytes result" where
  "get_hash_digest h = (if length h < 1 then Inl ValueError else Inr (tl h))"

text \<open>\<open>None\<close> is an absent value.\<close>

definition is_zero_hash :: "bytes option \<Rightarrow> bool" where
  "is_zero_hash h = (case h of None \<Rightarrow> True | Some b \<Rightarrow> length b = 0 \<or> \<not> list_ex (\<lambda>x. x \<noteq> 0) b)"

definition is_hash_ref :: "bytes \<Rightarrow> bool" where
  "is_hash_ref v =
     (if length v < 1 then False
      else case DIGEST_SIZES (uint (hd v)) of
             None \<Rightarrow> False
           | Some expected_size \<Rightarrow> length v = 1 + expected_size)"

definition wire_to_hash :: "bytes \<Rightarrow> bytes result" where
  "wire_to_hash wire = bind_r (validate_hash wire) (\<lambda>_. Inr wire)"

definition hash_to_string :: "bytes \<Rightarrow> string result" where
  "hash_to_string h =
     (case h of
        [] \<Rightarrow> Inl ValueError
      | b # digest \<Rightarrow>
          if uint b = ALG_ECFV1_SHA256 then Inr (''ecf-sha256:'' @ hex digest)
          else if uint b = ALG_ECFV1_SHA384 then Inr (''ecf-sha384:'' @ hex digest)
          else if uint b = ALG_ECFV1_SHA512 then Inr (''ecf-sha512:'' @ hex digest)
          else Inl ValueError)"

definition hash_to_short :: "bytes \<Rightarrow> nat \<Rightarrow> string" where
  "hash_to_short h n = (if length h < 2 then ''...'' else take n (hex (tl h)) @ ''...'')"

subsection \<open>Computing a hash\<close>

definition compute_ecf_hash :: "hashlib \<Rightarrow> ('o \<Rightarrow> bytes) \<Rightarrow> 'o \<Rightarrow> int \<Rightarrow> bytes result" where
  "compute_ecf_hash H ecf obj algorithm =
     (let ecf_bytes = ecf obj in
      bind_r
        (if algorithm = ALG_ECFV1_SHA256 then Inr (sha256 H ecf_bytes)
         else if algorithm = ALG_ECFV1_SHA384 then Inr (sha384 H ecf_bytes)
         else if algorithm = ALG_ECFV1_SHA512 then Inr (sha512 H ecf_bytes)
         else Inl ValueError)
        (\<lambda>digest. Inr (word_of_int algorithm # digest)))"

subsection \<open>Negotiation of the connection's format\<close>

text \<open>
  \<open>ALGORITHM_CODES\<close> inverts the names of the supported formats only, so a format this implementation
  cannot author has a name and no code. A name outside the table is \<open>unknown-{code}\<close>; the callers
  pass supported codes, and the suffix is the parameter \<open>dec\<close> (decimal digits).
\<close>

definition ALGORITHM_CODES :: "string \<Rightarrow> int option" where
  "ALGORITHM_CODES = map_of (map (\<lambda>code. (the (ALGORITHM_NAMES code), code)) SUPPORTED_CONTENT_HASH_FORMATS)"

definition hash_format_name :: "(int \<Rightarrow> string) \<Rightarrow> int \<Rightarrow> string" where
  "hash_format_name dec code =
     (case ALGORITHM_NAMES code of Some name \<Rightarrow> name | None \<Rightarrow> ''unknown-'' @ dec code)"

definition hash_format_code :: "string \<Rightarrow> int option" where
  "hash_format_code name = ALGORITHM_CODES name"

definition default_advertised_hash_formats :: "(int \<Rightarrow> string) \<Rightarrow> int \<Rightarrow> string list" where
  "default_advertised_hash_formats dec home =
     map (hash_format_name dec)
       ([home] @ (if home \<noteq> ALG_ECFV1_SHA256 then [ALG_ECFV1_SHA256] else []))"

fun negotiate_active_hash_format :: "string list \<Rightarrow> string list \<Rightarrow> int option" where
  "negotiate_active_hash_format [] responder_formats = None"
| "negotiate_active_hash_format (name # initiator_formats) responder_formats =
     (if name \<in> set responder_formats
      then (case hash_format_code name of
              Some code \<Rightarrow> Some code
            | None \<Rightarrow> negotiate_active_hash_format initiator_formats responder_formats)
      else negotiate_active_hash_format initiator_formats responder_formats)"

subsection \<open>The walk for CBOR tags\<close>

text \<open>
  Decoded CBOR as the walk sees it: tagged items, maps, sequences and everything else. The \<open>stack\<close>
  is a Python list whose last element is popped; here its top is the head, so \<open>extend\<close> pushes the
  reversed items.
\<close>

datatype cbor = CTag nat cbor | CMap "(cbor \<times> cbor) list" | CSeq "cbor list" | CAtom cbor_atom
  and cbor_atom = AInt int | AText string | ABytes bytes | AOther

fun tag_weight :: "cbor \<Rightarrow> nat" where
  "tag_weight (CTag t c) = Suc (tag_weight c)"
| "tag_weight (CMap kvs) = Suc (sum_list (map (\<lambda>(k, v). tag_weight k + tag_weight v) kvs))"
| "tag_weight (CSeq cs) = Suc (sum_list (map tag_weight cs))"
| "tag_weight (CAtom a) = 1"

lemma tag_weight_pairs:
  "sum_list (map tag_weight (map fst kvs)) + sum_list (map tag_weight (map snd kvs))
     = sum_list (map (\<lambda>(k, v). tag_weight k + tag_weight v) kvs)"
  by (induction kvs) auto

lemma sum_list_rev_map: "sum_list (map f (rev xs)) = sum_list (map f xs)" for f :: "'a \<Rightarrow> nat"
  by (simp add: rev_map [symmetric])

function tag_walk :: "cbor list \<Rightarrow> bool" where
  "tag_walk [] = False"
| "tag_walk (CTag t c # stack) = True"
| "tag_walk (CMap kvs # stack) = tag_walk (rev (map snd kvs) @ rev (map fst kvs) @ stack)"
| "tag_walk (CSeq cs # stack) = tag_walk (rev cs @ stack)"
| "tag_walk (CAtom a # stack) = tag_walk stack"
  by pat_completeness auto
termination
  by (relation "measure (\<lambda>stack. sum_list (map tag_weight stack))")
    (auto simp: sum_list_rev_map tag_weight_pairs [symmetric] simp del: map_map)

definition contains_cbor_tag :: "cbor \<Rightarrow> bool" where
  "contains_cbor_tag obj = tag_walk [obj]"

text \<open>The specification of the walk: a tag at some depth, keys included.\<close>

fun has_tag :: "cbor \<Rightarrow> bool" where
  "has_tag (CTag t c) = True"
| "has_tag (CMap kvs) = list_ex (\<lambda>(k, v). has_tag k \<or> has_tag v) kvs"
| "has_tag (CSeq cs) = list_ex has_tag cs"
| "has_tag (CAtom a) = False"

subsection \<open>Facts\<close>

lemma list_ex_pairs:
  "list_ex (\<lambda>(k, v). P k \<or> P v) kvs \<longleftrightarrow> list_ex P (map fst kvs) \<or> list_ex P (map snd kvs)"
  by (induction kvs) auto

lemma tag_walk_spec: "tag_walk stack \<longleftrightarrow> list_ex has_tag stack"
proof (induction stack rule: tag_walk.induct)
  case (3 kvs stack)
  have "list_ex has_tag (rev (map snd kvs) @ rev (map fst kvs) @ stack)
      \<longleftrightarrow> list_ex has_tag (map snd kvs) \<or> list_ex has_tag (map fst kvs) \<or> list_ex has_tag stack"
    by (simp only: list_ex_append list_ex_rev)
  with 3 show ?case by (simp add: list_ex_pairs) blast
qed simp_all

lemma digest_size_table:
  "DIGEST_SIZES c = Some n \<longleftrightarrow> (c = 0 \<and> n = 32) \<or> (c = 1 \<and> n = 48) \<or> (c = 2 \<and> n = 64)"
  by (auto simp: DIGEST_SIZES_def alg_defs)

lemma supported_formats: "c \<in> set SUPPORTED_CONTENT_HASH_FORMATS \<longleftrightarrow> c = 0 \<or> c = 1"
  by (auto simp: SUPPORTED_CONTENT_HASH_FORMATS_def alg_defs)

lemma validate_hash_ok:
  "validate_hash h = Inr () \<longleftrightarrow>
     (\<exists>b d. h = b # d \<and> ((b = 0 \<and> length d = 32) \<or> (b = 1 \<and> length d = 48)))"
proof (cases h)
  case (Cons b d)
  have "uint b = 0 \<longleftrightarrow> b = 0" "uint b = 1 \<longleftrightarrow> b = 1"
    by (auto simp: word_eq_iff_unsigned [where 'a = int])
  with Cons show ?thesis
    by (auto simp: validate_hash_def supported_formats DIGEST_SIZES_def alg_defs Let_def)
qed (simp add: validate_hash_def)

lemma decode_single_byte:
  assumes "uint b < 0x80"
  shows "decode_leb128_default (b # d) = Inr (uint b, 1)"
proof -
  have "uint b AND 0x80 = 0" and "uint b AND 0x7F = uint b"
    using assms and_7F [of "uint b"]
    by (simp_all add: and_80 mod_pos_pos_trivial)
  then show ?thesis by (simp add: decode_leb128_def dec_loop.simps)
qed

lemma hash_format_code_name:
  "hash_format_code name = Some c \<longleftrightarrow>
     (c = 0 \<and> name = ''ecfv1-sha256'') \<or> (c = 1 \<and> name = ''ecfv1-sha384'')"
  by (auto simp: hash_format_code_def ALGORITHM_CODES_def SUPPORTED_CONTENT_HASH_FORMATS_def
      ALGORITHM_NAMES_def alg_defs split: if_splits)

lemma hash_ref_iff:
  "is_hash_ref h \<longleftrightarrow>
     (\<exists>b d. h = b # d \<and> (uint b = 0 \<and> length d = 32 \<or> uint b = 1 \<and> length d = 48 \<or> uint b = 2 \<and> length d = 64))"
  by (cases h) (auto simp: is_hash_ref_def DIGEST_SIZES_def alg_defs)

lemma decode_format_single:
  assumes "uint b < 0x80" and "uint b = 0 \<or> uint b = 1"
  shows "decode_content_hash_format (b # d) = Inr (uint b, 1)"
  using assms by (auto simp: decode_content_hash_format_def decode_single_byte supported_formats)

lemma decode_format_head:
  assumes "decode_content_hash_format (b # d) = Inr (c, 1)"
  shows "c = uint b \<and> (c = 0 \<or> c = 1)"
proof -
  from assms have c: "c = 0 \<or> c = 1" and d: "decode_leb128_default (b # d) = Inr (c, 1)"
    by (auto simp: decode_content_hash_format_def exn_simps supported_formats split: if_splits)
  have "dec_loop (b # d) 0 9 v 7 1 \<noteq> Inr (c, 1)" for v
    using dec_loop_bounds [of "b # d" 0 9 v 7 1 c 1] by auto
  with d have "uint b AND 0x80 = 0 \<and> c = uint b AND 0x7F"
    unfolding decode_leb128_def
    by (subst (asm) dec_loop.simps) (auto simp: Let_def split: if_splits)
  then show ?thesis using c uint_byte_less [of b] by (simp add: and_80 and_7F)
qed

lemma negotiate_None:
  "negotiate_active_hash_format is rs = None \<longleftrightarrow> (\<forall>name \<in> set is \<inter> set rs. hash_format_code name = None)"
  by (induction "is") (auto split: option.splits)

lemma negotiate_first:
  "\<forall>n \<in> set pre \<inter> set rs. hash_format_code n = None \<Longrightarrow> name \<in> set rs \<Longrightarrow> hash_format_code name = Some c \<Longrightarrow>
     negotiate_active_hash_format (pre @ name # post) rs = Some c"
  by (induction pre) auto

lemma negotiate_SomeD:
  "negotiate_active_hash_format is rs = Some c \<Longrightarrow>
     \<exists>pre name post. is = pre @ name # post \<and> name \<in> set rs \<and> hash_format_code name = Some c
        \<and> (\<forall>n \<in> set pre \<inter> set rs. hash_format_code n = None)"
proof (induction "is")
  case (Cons a "is")
  show ?case
  proof (cases "a \<in> set rs \<and> hash_format_code a = Some c")
    case True
    then show ?thesis 
      by (rule_tac x = "[]" in exI, rule_tac x = a in exI, rule_tac x = "is" in exI) simp
  next
    case False
    with Cons.prems have n: "negotiate_active_hash_format is rs = Some c"
      and a: "a \<in> set rs \<longrightarrow> hash_format_code a = None"
      by (auto split: if_splits option.splits)
    from Cons.IH [OF n] obtain pre name post where "is = pre @ name # post" "name \<in> set rs"
      "hash_format_code name = Some c" "\<forall>n \<in> set pre \<inter> set rs. hash_format_code n = None" by blast
    with a show ?thesis 
      by (rule_tac x = "a # pre" in exI, rule_tac x = name in exI, rule_tac x = post in exI) auto
  qed
qed simp

lemma negotiate_Some:
  "negotiate_active_hash_format is rs = Some c \<longleftrightarrow>
     (\<exists>pre name post. is = pre @ name # post \<and> name \<in> set rs \<and> hash_format_code name = Some c
        \<and> (\<forall>n \<in> set pre \<inter> set rs. hash_format_code n = None))"
  using negotiate_SomeD negotiate_first by blast

subsection \<open>Properties\<close>

text \<open>
  A hash this implementation authors is read back by every reader: under a supported format,
  \<open>compute_ecf_hash\<close> returns a hash that the validator and the wire reader accept, that is recognised
  as an embedded reference, whose format every format reader reads as the one it was made with, and
  whose digest is the library's digest of the canonical encoding.
\<close>

theorem authored_hash_accepted:
  assumes "digest_sizes H" and "validate_content_hash_format_code a = Inr a"
  shows "\<exists>h. compute_ecf_hash H ecf obj a = Inr h \<and> validate_hash h = Inr () \<and> wire_to_hash h = Inr h
    \<and> is_hash_ref h \<and> content_hash_format h = Inr a \<and> get_hash_algorithm h = Inr a
    \<and> decode_content_hash_format h = Inr (a, 1) \<and> validate_supported_content_hash_format h = Inr a
    \<and> get_hash_digest h = Inr (if a = 0 then sha256 H (ecf obj) else sha384 H (ecf obj))"
proof -
  let ?d = "if a = 0 then sha256 H (ecf obj) else sha384 H (ecf obj)"
  let ?h = "(word_of_int a :: byte) # ?d"
  from assms(2) have a: "a = 0 \<or> a = 1"
    by (auto simp: validate_content_hash_format_code_def supported_formats split: if_splits)
  then have u: "uint (word_of_int a :: byte) = a" by auto
  have c: "compute_ecf_hash H ecf obj a = Inr ?h" using a by (auto simp: compute_ecf_hash_def alg_defs)
  have d: "a = 0 \<and> length ?d = 32 \<or> a = 1 \<and> length ?d = 48"
    using a assms(1) by (auto simp: digest_sizes_def)
  then have v: "validate_hash ?h = Inr ()" by (auto simp: validate_hash_ok)
  have f: "decode_content_hash_format ?h = Inr (a, 1)"
    using decode_format_single [of "word_of_int a" ?d] a u by auto
  have "is_hash_ref ?h" using d u by (auto simp: hash_ref_iff)
  with c v f u show ?thesis
    by (intro exI [of _ ?h])
      (simp add: wire_to_hash_def content_hash_format_def get_hash_algorithm_def get_hash_digest_def
        validate_supported_content_hash_format_def)
qed

theorem authored_hash_accepted_witness:
  "\<exists>h. compute_ecf_hash \<lparr>sha256 = \<lambda>_. replicate 32 7, sha384 = \<lambda>_. replicate 48 7,
      sha512 = \<lambda>_. replicate 64 7\<rparr> (\<lambda>b. b) [1, 2] 1 = Inr h \<and> validate_hash h = Inr ()"
proof -
  let ?H = "\<lparr>sha256 = \<lambda>_. replicate 32 7, sha384 = \<lambda>_. replicate 48 7, sha512 = \<lambda>_. replicate 64 7\<rparr>"
  have "digest_sizes ?H" by (simp add: digest_sizes_def)
  moreover have "validate_content_hash_format_code 1 = Inr 1"
    by (simp add: validate_content_hash_format_code_def supported_formats)
  ultimately show ?thesis using authored_hash_accepted [of ?H 1 "\<lambda>b. b" "[1, 2]"] by blast
qed

text \<open>
  The validator is exactly the conjunction of the two other readers: a hash passes
  \<open>validate_hash\<close> when it has the shape of a hash reference and the format decoder reads a supported
  code from its first byte alone.
\<close>

theorem validate_hash_exact:
  "validate_hash h = Inr () \<longleftrightarrow> is_hash_ref h \<and> (\<exists>c. decode_content_hash_format h = Inr (c, 1))"
proof (cases h)
  case Nil
  then show ?thesis by (simp add: validate_hash_def is_hash_ref_def)
next
  case (Cons b d)
  have u: "b = 0 \<longleftrightarrow> uint b = 0" "b = 1 \<longleftrightarrow> uint b = 1"
    by (auto simp: word_eq_iff_unsigned [where 'a = int])
  have "(\<exists>c. decode_content_hash_format (b # d) = Inr (c, 1)) \<longleftrightarrow> uint b = 0 \<or> uint b = 1"
    using decode_format_head [of b d] decode_format_single [of b d] by fastforce
  then show ?thesis unfolding Cons validate_hash_ok hash_ref_iff using u by auto
qed

text \<open>
  Negotiation of the connection's format: the result is the code of the first name in the
  initiator's order that the responder also advertises and this implementation can author, there is
  none exactly when no such name is common, and two peers that advertise their default lists for
  supported home formats always converge: on their home format when they share it, on SHA-256
  otherwise.
\<close>

theorem negotiation_converges:
  "(negotiate_active_hash_format is rs = Some c \<longleftrightarrow>
      (\<exists>pre name post. is = pre @ name # post \<and> name \<in> set rs \<and> hash_format_code name = Some c
        \<and> (\<forall>n \<in> set pre \<inter> set rs. hash_format_code n = None)))
   \<and> (negotiate_active_hash_format is rs = None \<longleftrightarrow> (\<forall>n \<in> set is \<inter> set rs. hash_format_code n = None))
   \<and> (a \<in> set SUPPORTED_CONTENT_HASH_FORMATS \<and> b \<in> set SUPPORTED_CONTENT_HASH_FORMATS \<longrightarrow>
        negotiate_active_hash_format (default_advertised_hash_formats dec a)
          (default_advertised_hash_formats dec b) = Some (if a = b then a else ALG_ECFV1_SHA256))"
proof -
  have "a \<in> set SUPPORTED_CONTENT_HASH_FORMATS \<and> b \<in> set SUPPORTED_CONTENT_HASH_FORMATS \<Longrightarrow>
        negotiate_active_hash_format (default_advertised_hash_formats dec a)
          (default_advertised_hash_formats dec b) = Some (if a = b then a else ALG_ECFV1_SHA256)"
    by (auto simp: supported_formats default_advertised_hash_formats_def hash_format_name_def
        ALGORITHM_NAMES_def alg_defs hash_format_code_def ALGORITHM_CODES_def
        SUPPORTED_CONTENT_HASH_FORMATS_def)
  then show ?thesis using negotiate_Some negotiate_None by blast
qed

theorem negotiation_converges_witness:
  "negotiate_active_hash_format (default_advertised_hash_formats (\<lambda>_. []) 1)
     (default_advertised_hash_formats (\<lambda>_. []) 0) = Some ALG_ECFV1_SHA256"
  using negotiation_converges [of "[]" "[]" 0 1 0 "\<lambda>_. []"] by (simp add: supported_formats)

text \<open>
  The tag walk finds exactly the tags: the explicit-stack loop of \<open>contains_cbor_tag\<close> terminates
  on every decoded object and answers whether a tagged item occurs at any depth, in map keys as in
  map values and sequence items.
\<close>

theorem contains_cbor_tag_exact: "contains_cbor_tag obj = has_tag obj"
  by (simp add: contains_cbor_tag_def tag_walk_spec)

end
