(* ===== verification/Identity.thy ===== *)
theory Identity
  imports Tokens Hashes
begin

section \<open>Peer identities\<close>

text \<open>
  \<open>crypto/identity.py\<close> (the part that is not a call into the Ed25519 library) and
  \<open>capability/peer_canon.py\<close>: key types, canonical hash types, minting and decoding a peer id,
  canonicalising a peer id and the peer reference of a capability pattern.
  Base58 and SHA-256 are libraries: the parameters \<open>B\<close> and \<open>H\<close>.
\<close>

record base58lib =
  b58encode :: "bytes \<Rightarrow> string"
  b58decode :: "string \<Rightarrow> bytes option"

text \<open>
  What the \<open>base58\<close> package documents: decoding inverts encoding, encodings are over the alphabet, and
  no bytes encode to the empty string.
\<close>

definition base58_ok :: "base58lib \<Rightarrow> bool" where
  "base58_ok B \<longleftrightarrow> b58encode B [] = [] \<and>
     (\<forall>bs. b58decode B (b58encode B bs) = Some bs \<and> set (b58encode B bs) \<subseteq> set BASE58_ALPHABET)"

definition KEY_TYPE_ED25519 :: int where "KEY_TYPE_ED25519 = 0x01"

definition KEY_TYPE_ED448 :: int where "KEY_TYPE_ED448 = 0x02"

definition KEY_TYPE_TEST_SYNTHETIC :: int where "KEY_TYPE_TEST_SYNTHETIC = 0xFE"

definition HASH_TYPE_IDENTITY :: int where "HASH_TYPE_IDENTITY = 0x00"

definition HASH_TYPE_SHA256 :: int where "HASH_TYPE_SHA256 = 0x01"

lemmas key_type_defs = KEY_TYPE_ED25519_def KEY_TYPE_ED448_def KEY_TYPE_TEST_SYNTHETIC_def
  HASH_TYPE_IDENTITY_def HASH_TYPE_SHA256_def

definition IDENTITY_DIGEST_LEN :: "int \<Rightarrow> nat option" where
  "IDENTITY_DIGEST_LEN = [KEY_TYPE_ED25519 \<mapsto> 32, KEY_TYPE_ED448 \<mapsto> 57]"

definition CANONICAL_HASH_TYPE_FOR_KEY_TYPE :: "int \<Rightarrow> int option" where
  "CANONICAL_HASH_TYPE_FOR_KEY_TYPE =
     [KEY_TYPE_ED25519 \<mapsto> HASH_TYPE_IDENTITY, KEY_TYPE_ED448 \<mapsto> HASH_TYPE_SHA256,
      KEY_TYPE_TEST_SYNTHETIC \<mapsto> HASH_TYPE_SHA256]"

definition ENTITY_DATA_KEY_TYPE_TO_BYTE :: "string \<Rightarrow> int option" where
  "ENTITY_DATA_KEY_TYPE_TO_BYTE =
     [''ed25519'' \<mapsto> KEY_TYPE_ED25519, ''ed448'' \<mapsto> KEY_TYPE_ED448,
      ''experimental-test'' \<mapsto> KEY_TYPE_TEST_SYNTHETIC]"

definition is_canonical_pair :: "int \<Rightarrow> int \<Rightarrow> bool" where
  "is_canonical_pair key_type hash_type =
     (case CANONICAL_HASH_TYPE_FOR_KEY_TYPE key_type of
        None \<Rightarrow> False | Some canonical \<Rightarrow> canonical = hash_type)"

text \<open>\<open>UnsupportedKeyTypeError\<close> is a \<open>ValueError\<close>; a list or dictionary is no dictionary key: \<open>TypeError\<close>.\<close>

definition key_type_byte_from_entity_data :: "val \<Rightarrow> int result" where
  "key_type_byte_from_entity_data key_type =
     (case key_type of
        VStr s \<Rightarrow> (case ENTITY_DATA_KEY_TYPE_TO_BYTE s of Some byte \<Rightarrow> Inr byte | None \<Rightarrow> Inl ValueError)
      | VList _ \<Rightarrow> Inl TypeError
      | VDict _ \<Rightarrow> Inl TypeError
      | _ \<Rightarrow> Inl ValueError)"

definition validate_supported_key_type :: "int \<Rightarrow> unit result" where
  "validate_supported_key_type key_type =
     (if key_type \<notin> ran ENTITY_DATA_KEY_TYPE_TO_BYTE then Inl ValueError else Inr ())"

subsection \<open>Minting and decoding\<close>

definition canonical_hash_type :: "int \<Rightarrow> int result" where
  "canonical_hash_type key_type =
     (case CANONICAL_HASH_TYPE_FOR_KEY_TYPE key_type of
        None \<Rightarrow> Inl ValueError | Some canonical \<Rightarrow> Inr canonical)"

text \<open>\<open>bytes([key_type, hash_type])\<close> raises \<open>ValueError\<close> on a number that is no byte.\<close>

definition peer_id_from_bytes :: "hashlib \<Rightarrow> base58lib \<Rightarrow> bytes \<Rightarrow> int \<Rightarrow> int \<Rightarrow> string result" where
  "peer_id_from_bytes H B public_key_bytes key_type hash_type =
     bind_r
       (if hash_type = HASH_TYPE_IDENTITY then Inr public_key_bytes
        else if hash_type = HASH_TYPE_SHA256 then Inr (sha256 H public_key_bytes)
        else Inl ValueError)
       (\<lambda>digest. if key_type < 0 \<or> 255 < key_type then Inl ValueError
                 else Inr (b58encode B (word_of_int key_type # word_of_int hash_type # digest)))"

definition peer_id_from_public_key_bytes :: "hashlib \<Rightarrow> base58lib \<Rightarrow> bytes \<Rightarrow> int \<Rightarrow> string result" where
  "peer_id_from_public_key_bytes H B public_key_bytes key_type =
     bind_r (canonical_hash_type key_type) (\<lambda>ht. peer_id_from_bytes H B public_key_bytes key_type ht)"

text \<open>A failing Base58 decode raises \<open>ValueError\<close>.\<close>

definition decode_peer_id :: "base58lib \<Rightarrow> string \<Rightarrow> (int \<times> int \<times> bytes) result" where
  "decode_peer_id B peer_id =
     (case b58decode B peer_id of
        None \<Rightarrow> Inl ValueError
      | Some (a # b # digest) \<Rightarrow> Inr (uint a, uint b, digest)
      | Some _ \<Rightarrow> Inl ValueError)"

text \<open>The fields of a \<open>system/peer\<close> entity's data that are read; \<open>None\<close> for an absent key.\<close>

record peer_data =
  pd_public_key :: "val option"
  pd_key_type :: "val option"

definition peer_id_from_identity_entity :: "hashlib \<Rightarrow> base58lib \<Rightarrow> peer_data \<Rightarrow> string result" where
  "peer_id_from_identity_entity H B id_ent =
     (case field (pd_public_key id_ent) of
        VBytes pkey \<Rightarrow>
          (case key_type_byte_from_entity_data
                  (case pd_key_type id_ent of None \<Rightarrow> VStr ''ed25519'' | Some kt \<Rightarrow> kt) of
             Inr kt_byte \<Rightarrow> peer_id_from_public_key_bytes H B pkey kt_byte
           | Inl e \<Rightarrow> if e = ValueError then Inr [] else Inl e)
      | _ \<Rightarrow> Inr [])"

definition derive_peer_from_peer_id :: "base58lib \<Rightarrow> string \<Rightarrow> (bytes \<times> int) option" where
  "derive_peer_from_peer_id B peer_id =
     (case decode_peer_id B peer_id of
        Inl _ \<Rightarrow> None
      | Inr (key_type, hash_type, digest) \<Rightarrow>
          if hash_type \<noteq> HASH_TYPE_IDENTITY then None
          else (case IDENTITY_DIGEST_LEN key_type of
                  Some expected \<Rightarrow> if length digest \<noteq> expected then None else Some (digest, key_type)
                | None \<Rightarrow> Some (digest, key_type)))"

definition canonicalize_peer_id ::
  "hashlib \<Rightarrow> base58lib \<Rightarrow> string \<Rightarrow> bytes option \<Rightarrow> string option result" where
  "canonicalize_peer_id H B peer_id public_key =
     (case decode_peer_id B peer_id of
        Inl _ \<Rightarrow> Inr None
      | Inr (key_type, hash_type, _) \<Rightarrow>
          if is_canonical_pair key_type hash_type then Inr (Some peer_id)
          else (case (case public_key of
                        Some pk \<Rightarrow> Some pk
                      | None \<Rightarrow> map_option fst (derive_peer_from_peer_id B peer_id)) of
                  None \<Rightarrow> Inr None
                | Some pk \<Rightarrow> map_sum id Some (peer_id_from_public_key_bytes H B pk key_type)))"

subsection \<open>The peer reference of a pattern\<close>

datatype canon_state = CANONICAL | PENDING

text \<open>
  The regular expression \<open>^/([^/]+)(/.*)?$\<close>: the dot stops at a newline and the dollar also matches
  before a final one.
\<close>

definition NEWLINE :: char where "NEWLINE = CHR 0x0A"

definition peer_segment_match :: "string \<Rightarrow> (string \<times> string) option" where
  "peer_segment_match pattern =
     (if \<not> starts_with pattern ''/'' then None
      else let seg = takeWhile (\<lambda>c. c \<noteq> CHR ''/'') (tl pattern);
               rest = dropWhile (\<lambda>c. c \<noteq> CHR ''/'') (tl pattern)
           in if seg = [] then None
              else if NEWLINE \<notin> set rest then Some (seg, rest)
              else if last rest = NEWLINE \<and> NEWLINE \<notin> set (butlast rest) then Some (seg, butlast rest)
              else None)"

definition canonicalize_cap_pattern_peer_refs ::
  "hashlib \<Rightarrow> base58lib \<Rightarrow> string \<Rightarrow> (string \<Rightarrow> bytes option) \<Rightarrow> (string \<times> canon_state) result" where
  "canonicalize_cap_pattern_peer_refs H B pattern known_pubkeys =
     (case peer_segment_match pattern of
        None \<Rightarrow> Inr (pattern, CANONICAL)
      | Some (candidate, rest) \<Rightarrow>
          (case decode_peer_id B candidate of
             Inl _ \<Rightarrow> Inr (pattern, CANONICAL)
           | Inr (key_type, hash_type, _) \<Rightarrow>
               if is_canonical_pair key_type hash_type then Inr (pattern, CANONICAL)
               else bind_r (canonicalize_peer_id H B candidate (known_pubkeys candidate))
                      (\<lambda>canonical. case canonical of
                          None \<Rightarrow> Inr (pattern, PENDING)
                        | Some c \<Rightarrow> Inr (CHR ''/'' # c @ rest, CANONICAL))))"

text \<open>The loop over a list of patterns, with the joint state it accumulates.\<close>

fun canonicalize_patterns_from ::
  "hashlib \<Rightarrow> base58lib \<Rightarrow> (string \<Rightarrow> bytes option) \<Rightarrow> canon_state \<Rightarrow> string list
     \<Rightarrow> (string list \<times> canon_state) result" where
  "canonicalize_patterns_from H B known_pubkeys state [] = Inr ([], state)"
| "canonicalize_patterns_from H B known_pubkeys state (p # ps) =
     bind_r (canonicalize_cap_pattern_peer_refs H B p known_pubkeys) (\<lambda>(rewritten, s).
       bind_r (canonicalize_patterns_from H B known_pubkeys (if s = PENDING then PENDING else state) ps)
         (\<lambda>(out, st). Inr (rewritten # out, st)))"

definition canonicalize_pattern_list ::
  "hashlib \<Rightarrow> base58lib \<Rightarrow> string list \<Rightarrow> (string \<Rightarrow> bytes option) \<Rightarrow> (string list \<times> canon_state) result" where
  "canonicalize_pattern_list H B patterns known_pubkeys =
     canonicalize_patterns_from H B known_pubkeys CANONICAL patterns"

subsection \<open>Facts\<close>

lemma canonical_table:
  "CANONICAL_HASH_TYPE_FOR_KEY_TYPE k = Some h \<longleftrightarrow> (k = 1 \<and> h = 0) \<or> (k = 2 \<and> h = 1) \<or> (k = 254 \<and> h = 1)"
  by (auto simp: CANONICAL_HASH_TYPE_FOR_KEY_TYPE_def key_type_defs)

lemma is_canonical_pair_iff:
  "is_canonical_pair k h \<longleftrightarrow> CANONICAL_HASH_TYPE_FOR_KEY_TYPE k = Some h"
  by (auto simp: is_canonical_pair_def split: option.splits)

text \<open>A minted identifier decodes to its key type, the canonical hash type and the digest.\<close>

lemma canonical_hash_type_eq:
  "canonical_hash_type k =
     (case CANONICAL_HASH_TYPE_FOR_KEY_TYPE k of None \<Rightarrow> Inl ValueError | Some h \<Rightarrow> Inr h)"
  by (simp add: canonical_hash_type_def)

lemma mint_cases:
  "peer_id_from_public_key_bytes H B pk k = Inr p \<longleftrightarrow>
     (\<exists>h. CANONICAL_HASH_TYPE_FOR_KEY_TYPE k = Some h \<and>
        p = b58encode B (word_of_int k # word_of_int h # (if h = 0 then pk else sha256 H pk)))"
proof (cases "CANONICAL_HASH_TYPE_FOR_KEY_TYPE k")
  case None
  then show ?thesis by (simp add: peer_id_from_public_key_bytes_def canonical_hash_type_def)
next
  case (Some h)
  then have "k = 1 \<and> h = 0 \<or> k = 2 \<and> h = 1 \<or> k = 254 \<and> h = 1" by (simp add: canonical_table)
  then have "peer_id_from_bytes H B pk k h
      = Inr (b58encode B (word_of_int k # word_of_int h # (if h = 0 then pk else sha256 H pk)))"
    by (auto simp: peer_id_from_bytes_def key_type_defs)
  with Some show ?thesis
    by (auto simp: peer_id_from_public_key_bytes_def canonical_hash_type_def)
qed

lemma mint_decodes:
  assumes "base58_ok B" and "peer_id_from_public_key_bytes H B pk k = Inr p"
  shows "\<exists>h. CANONICAL_HASH_TYPE_FOR_KEY_TYPE k = Some h
     \<and> decode_peer_id B p = Inr (k, h, if h = 0 then pk else sha256 H pk)"
proof -
  from assms(2) obtain h where h: "CANONICAL_HASH_TYPE_FOR_KEY_TYPE k = Some h"
    and p: "p = b58encode B (word_of_int k # word_of_int h # (if h = 0 then pk else sha256 H pk))"
    by (auto simp: mint_cases)
  have "uint (word_of_int k :: byte) = k" "uint (word_of_int h :: byte) = h"
    using h by (auto simp: canonical_table)
  with p assms(1) have "decode_peer_id B p = Inr (k, h, if h = 0 then pk else sha256 H pk)"
    by (simp add: decode_peer_id_def base58_ok_def)
  with h show ?thesis by blast
qed

lemma mint_segment:
  assumes "base58_ok B" and "peer_id_from_public_key_bytes H B pk k = Inr p"
  shows "CHR ''/'' \<notin> set p \<and> p \<noteq> []"
proof -
  have "set p \<subseteq> set BASE58_ALPHABET" using assms by (auto simp: mint_cases base58_ok_def)
  moreover from assms(2) obtain x y z where e: "p = b58encode B (x # y # z)" by (auto simp: mint_cases)
  with assms(1) have "b58decode B p = Some (x # y # z)" "b58decode B [] = Some []"
    by (simp_all add: base58_ok_def) (metis)
  then have "p \<noteq> []" by auto
  ultimately show ?thesis using alphabet_no_separator by blast
qed

lemma canonicalize_canonical:
  assumes "decode_peer_id B p = Inr (k, h, d)" and "is_canonical_pair k h"
  shows "canonicalize_peer_id H B p pk = Inr (Some p)"
  using assms by (simp add: canonicalize_peer_id_def)

text \<open>A canonicalised identifier is canonical, of the key type it was given.\<close>

lemma canonicalize_peer_id_Some:
  assumes "base58_ok B" and "canonicalize_peer_id H B p pk = Inr (Some q)"
  shows "\<exists>k h d h' d'. decode_peer_id B p = Inr (k, h, d) \<and> decode_peer_id B q = Inr (k, h', d')
    \<and> is_canonical_pair k h'
    \<and> (q = p \<or> (\<exists>pk'. peer_id_from_public_key_bytes H B pk' k = Inr q))"
proof (cases "decode_peer_id B p")
  case (Inr t)
  then obtain k h d where t: "decode_peer_id B p = Inr (k, h, d)" by (cases t) auto
  show ?thesis
  proof (cases "is_canonical_pair k h")
    case True
    with t assms(2) show ?thesis by (auto simp: canonicalize_peer_id_def)
  next
    case False
    let ?pk = "case pk of Some pk \<Rightarrow> Some pk | None \<Rightarrow> map_option fst (derive_peer_from_peer_id B p)"
    from False t assms(2) obtain pk' where "?pk = Some pk'"
      and "map_sum id Some (peer_id_from_public_key_bytes H B pk' k) = Inr (Some q)"
      by (auto simp: canonicalize_peer_id_def split: option.splits)
    then have m: "peer_id_from_public_key_bytes H B pk' k = Inr q"
      by (cases "peer_id_from_public_key_bytes H B pk' k") auto
    from mint_decodes [OF assms(1) m] m t show ?thesis by (auto simp: is_canonical_pair_iff)
  qed
qed (use assms(2) in \<open>simp add: canonicalize_peer_id_def\<close>)

lemma peer_segment_match_rebuild:
  assumes "CHR ''/'' \<notin> set c" and "c \<noteq> []" and "peer_segment_match pattern = Some (s, rest)"
  shows "peer_segment_match (CHR ''/'' # c @ rest) = Some (c, rest)"
proof -
  let ?r = "dropWhile (\<lambda>c. c \<noteq> CHR ''/'') (tl pattern)"
  have sep: "?r = [] \<or> (\<exists>t. ?r = CHR ''/'' # t)"
    using dropWhile_sep [of "CHR ''/''" "tl pattern"] by (auto elim: prefixE)
  have n: "NEWLINE \<noteq> CHR ''/''" by (simp add: NEWLINE_def)
  from assms(3) have r: "rest = ?r \<and> NEWLINE \<notin> set ?r
      \<or> last ?r = NEWLINE \<and> NEWLINE \<notin> set (butlast ?r) \<and> rest = butlast ?r \<and> NEWLINE \<in> set ?r"
    by (auto simp: peer_segment_match_def Let_def split: if_splits)
  have "NEWLINE \<notin> set rest" using r by auto
  have "rest = [] \<or> (\<exists>t. rest = CHR ''/'' # t)"
    using r
  proof
    assume "rest = ?r \<and> NEWLINE \<notin> set ?r"
    with sep show ?thesis by blast
  next
    assume b: "last ?r = NEWLINE \<and> NEWLINE \<notin> set (butlast ?r) \<and> rest = butlast ?r \<and> NEWLINE \<in> set ?r"
    with sep obtain t where "?r = CHR ''/'' # t" by fastforce
    then have "butlast ?r = (if t = [] then [] else CHR ''/'' # butlast t)" by (simp only: butlast.simps)
    with b show ?thesis by (cases "t = []") simp_all
  qed
  then have "takeWhile (\<lambda>c. c \<noteq> CHR ''/'') rest = [] \<and> dropWhile (\<lambda>c. c \<noteq> CHR ''/'') rest = rest" by auto
  moreover have "\<forall>x \<in> set c. x \<noteq> CHR ''/''" using assms(1) by auto
  ultimately have "takeWhile (\<lambda>c. c \<noteq> CHR ''/'') (c @ rest) = c" "dropWhile (\<lambda>c. c \<noteq> CHR ''/'') (c @ rest) = rest"
    by (simp_all add: takeWhile_append2 dropWhile_append2)
  with \<open>NEWLINE \<notin> set rest\<close> assms(2) show ?thesis by (simp add: peer_segment_match_def)
qed

lemma cap_pattern_known:
  assumes "peer_segment_match p = Some (c, r)" and "decode_peer_id B c = Inr (k, h, d)"
  shows "canonicalize_cap_pattern_peer_refs H B p known =
    (if is_canonical_pair k h then Inr (p, CANONICAL)
     else bind_r (canonicalize_peer_id H B c (known c))
            (\<lambda>canonical. case canonical of None \<Rightarrow> Inr (p, PENDING)
               | Some c' \<Rightarrow> Inr (CHR ''/'' # c' @ r, CANONICAL)))"
  using assms by (simp add: canonicalize_cap_pattern_peer_refs_def)

subsection \<open>Properties\<close>

text \<open>
  Minting and decoding a peer id agree: the identifier minted for a public key decodes to its key
  type and to the canonical hash type for it, is one path segment, is left alone by canonicalisation,
  and for a 32-byte Ed25519 key gives the key back; every other hash form of the same key is
  canonicalised to it when the key is known.
\<close>

theorem minted_peer_id:
  assumes "base58_ok B" and "peer_id_from_public_key_bytes H B pk k = Inr p"
  shows "(\<exists>h d. decode_peer_id B p = Inr (k, h, d) \<and> is_canonical_pair k h)
    \<and> CHR ''/'' \<notin> set p \<and> p \<noteq> []
    \<and> canonicalize_peer_id H B p other = Inr (Some p)
    \<and> (k = KEY_TYPE_ED25519 \<and> length pk = 32 \<longrightarrow> derive_peer_from_peer_id B p = Some (pk, k))
    \<and> (peer_id_from_bytes H B pk k h' = Inr q \<longrightarrow> canonicalize_peer_id H B q (Some pk) = Inr (Some p))"
proof -
  obtain h where h: "CANONICAL_HASH_TYPE_FOR_KEY_TYPE k = Some h"
    and d: "decode_peer_id B p = Inr (k, h, if h = 0 then pk else sha256 H pk)"
    using mint_decodes [OF assms] by blast
  have c: "is_canonical_pair k h" using h by (simp add: is_canonical_pair_iff)
  have "derive_peer_from_peer_id B p = Some (pk, k)" if "k = KEY_TYPE_ED25519" "length pk = 32"
  proof -
    from that h have "k = 1" "h = 0" by (auto simp: key_type_defs canonical_table)
    with d that show ?thesis
      by (simp add: derive_peer_from_peer_id_def key_type_defs IDENTITY_DIGEST_LEN_def)
  qed
  moreover have "canonicalize_peer_id H B q (Some pk) = Inr (Some p)"
    if q: "peer_id_from_bytes H B pk k h' = Inr q"
  proof -
    from q have h': "h' = 0 \<or> h' = 1"
      and qe: "q = b58encode B (word_of_int k # word_of_int h' # (if h' = 0 then pk else sha256 H pk))"
      by (auto simp: peer_id_from_bytes_def key_type_defs split: if_splits)
    have "uint (word_of_int k :: byte) = k" "uint (word_of_int h' :: byte) = h'"
      using h h' by (auto simp: canonical_table)
    with qe assms(1) have dq: "decode_peer_id B q = Inr (k, h', if h' = 0 then pk else sha256 H pk)"
      by (simp add: decode_peer_id_def base58_ok_def)
    show ?thesis
    proof (cases "h' = h")
      case True
      with qe h assms(2) have "q = p" by (auto simp: mint_cases)
      with canonicalize_canonical [OF d c] show ?thesis by simp
    next
      case False
      then have "\<not> is_canonical_pair k h'" using h by (simp add: is_canonical_pair_iff)
      with dq assms(2) show ?thesis by (simp add: canonicalize_peer_id_def)
    qed
  qed
  ultimately show ?thesis
    using d c mint_segment [OF assms] canonicalize_canonical [OF d c] by blast
qed

text \<open>A Base58 stand-in, two letters of the alphabet for every byte, for the witnesses.\<close>

definition toy_digit :: "nat \<Rightarrow> char" where
  "toy_digit n = BASE58_ALPHABET ! n"

definition toy_encode :: "bytes \<Rightarrow> string" where
  "toy_encode bs = concat (map (\<lambda>b. [toy_digit (unat b div 16), toy_digit (unat b mod 16)]) bs)"

definition toy_value :: "char \<Rightarrow> nat" where
  "toy_value c = length (takeWhile (\<lambda>x. x \<noteq> c) BASE58_ALPHABET)"

fun toy_decode :: "string \<Rightarrow> bytes option" where
  "toy_decode [] = Some []"
| "toy_decode [c] = None"
| "toy_decode (c # d # s) =
     map_option (\<lambda>bs. word_of_nat (toy_value c * 16 + toy_value d) # bs) (toy_decode s)"

definition toy_base58 :: base58lib where
  "toy_base58 = \<lparr>b58encode = toy_encode, b58decode = toy_decode\<rparr>"

lemma toy_digit:
  "n < 16 \<Longrightarrow> toy_value (toy_digit n) = n \<and> toy_digit n \<in> set BASE58_ALPHABET"
proof -
  assume "n < 16"
  then have "n \<in> set [0..<16]" by simp
  moreover have "list_all (\<lambda>n. toy_value (toy_digit n) = n \<and> toy_digit n \<in> set BASE58_ALPHABET) [0..<16]"
    by (simp add: toy_value_def toy_digit_def BASE58_ALPHABET_def upt_conv_Cons)
  ultimately show ?thesis unfolding list_all_iff by blast
qed

lemma toy_base58_ok: "base58_ok toy_base58"
proof -
  have lt: "unat b div 16 < 16" "unat b mod 16 < 16" for b :: byte
    using unat_byte_less [of b] by simp_all
  have "toy_decode (toy_encode bs) = Some bs \<and> set (toy_encode bs) \<subseteq> set BASE58_ALPHABET" for bs
  proof (induction bs)
    case (Cons b bs)
    have "word_of_nat (unat b div 16 * 16 + unat b mod 16) = b" by simp
    with Cons lt [of b] show ?case using toy_digit by (simp add: toy_encode_def)
  qed (simp add: toy_encode_def)
  then show ?thesis by (simp add: base58_ok_def toy_base58_def toy_encode_def [of "[]"])
qed

theorem minted_peer_id_witness:
  "\<exists>p. peer_id_from_public_key_bytes \<lparr>sha256 = \<lambda>_. replicate 32 7, sha384 = id, sha512 = id\<rparr> toy_base58
         (replicate 32 5) 1 = Inr p \<and> derive_peer_from_peer_id toy_base58 p = Some (replicate 32 5, 1)"
proof -
  let ?H = "\<lparr>sha256 = \<lambda>_. replicate 32 7, sha384 = id, sha512 = id\<rparr>"
  obtain p where p: "peer_id_from_public_key_bytes ?H toy_base58 (replicate 32 5) 1 = Inr p"
    by (simp add: mint_cases canonical_table)
  from minted_peer_id [OF toy_base58_ok p] p show ?thesis by (auto simp: key_type_defs)
qed

text \<open>
  Canonicalising the peer reference of a pattern settles it: when the rewriting reports
  \<open>CANONICAL\<close>, running it again, with whatever keys are then known, changes nothing; when it reports
  \<open>PENDING\<close> the pattern is returned as it was, and any peer reference it still carries is one whose
  hash form is not the canonical one.
\<close>

theorem cap_pattern_canonicalization_settles:
  assumes "base58_ok B" and "canonicalize_cap_pattern_peer_refs H B p known = Inr (q, st)"
  shows "(st = CANONICAL \<longrightarrow> canonicalize_cap_pattern_peer_refs H B q known' = Inr (q, CANONICAL))
    \<and> (st = PENDING \<longrightarrow> q = p \<and> (\<exists>c r k h d. peer_segment_match p = Some (c, r)
         \<and> decode_peer_id B c = Inr (k, h, d) \<and> \<not> is_canonical_pair k h))"
proof (cases "peer_segment_match p")
  case None
  with assms(2) show ?thesis by (auto simp: canonicalize_cap_pattern_peer_refs_def)
next
  case (Some cr)
  then obtain c r where m: "peer_segment_match p = Some (c, r)" by (cases cr) auto
  show ?thesis
  proof (cases "decode_peer_id B c")
    case (Inl e)
    with m assms(2) show ?thesis by (auto simp: canonicalize_cap_pattern_peer_refs_def)
  next
    case (Inr t)
    then obtain k h d where d: "decode_peer_id B c = Inr (k, h, d)" by (cases t) auto
    show ?thesis
    proof (cases "is_canonical_pair k h")
      case True
      with cap_pattern_known [OF m d] assms(2) show ?thesis by auto
    next
      case False
      with cap_pattern_known [OF m d, of H known] assms(2) obtain o' where
        o: "canonicalize_peer_id H B c (known c) = Inr o'"
        and res: "(q, st) = (case o' of None \<Rightarrow> (p, PENDING) | Some c' \<Rightarrow> (CHR ''/'' # c' @ r, CANONICAL))"
        by (cases "canonicalize_peer_id H B c (known c)") (auto split: option.splits)
      show ?thesis
      proof (cases o')
        case None
        with res m d False show ?thesis by auto
      next
        case (Some c')
        from canonicalize_peer_id_Some [OF assms(1) o [unfolded Some]] d False obtain h' d' pk'
          where d': "decode_peer_id B c' = Inr (k, h', d')" "is_canonical_pair k h'"
            and mint: "peer_id_from_public_key_bytes H B pk' k = Inr c'" by auto
        have "peer_segment_match (CHR ''/'' # c' @ r) = Some (c', r)"
          using peer_segment_match_rebuild [OF _ _ m] mint_segment [OF assms(1) mint] by blast
        from cap_pattern_known [OF this d'(1), of H known'] d'(2) res Some show ?thesis by simp
      qed
    qed
  qed
qed

theorem cap_pattern_canonicalization_settles_witness:
  "let H = \<lparr>sha256 = id, sha384 = id, sha512 = id\<rparr>;
       p = CHR ''/'' # toy_encode [1, 1, 9] @ ''/x''; q = CHR ''/'' # toy_encode [1, 0, 5] @ ''/x''
   in canonicalize_cap_pattern_peer_refs H toy_base58 p (\<lambda>_. Some [5]) = Inr (q, CANONICAL)
      \<and> canonicalize_cap_pattern_peer_refs H toy_base58 q (\<lambda>_. None) = Inr (q, CANONICAL)"
proof -
  let ?H = "\<lparr>sha256 = id, sha384 = id, sha512 = id\<rparr> :: hashlib"
  let ?p = "CHR ''/'' # toy_encode [1, 1, 9] @ ''/x''" and ?q = "CHR ''/'' # toy_encode [1, 0, 5] @ ''/x''"
  have m: "peer_segment_match ?p = Some (toy_encode [1, 1, 9], ''/x'')"
    by (simp add: peer_segment_match_def toy_encode_def toy_digit_def BASE58_ALPHABET_def NEWLINE_def Let_def)
  have "toy_decode (toy_encode [1, 1, 9]) = Some [1, 1, 9]"
    using toy_base58_ok by (simp add: base58_ok_def toy_base58_def)
  then have d: "decode_peer_id toy_base58 (toy_encode [1, 1, 9]) = Inr (1, 1, [9])"
    by (simp add: decode_peer_id_def toy_base58_def)
  have "peer_id_from_public_key_bytes ?H toy_base58 [5] 1 = Inr (toy_encode [1, 0, 5])"
    by (simp add: mint_cases canonical_table) (simp add: toy_base58_def)
  with d have "canonicalize_peer_id ?H toy_base58 (toy_encode [1, 1, 9]) (Some [5]) = Inr (Some (toy_encode [1, 0, 5]))"
    by (simp add: canonicalize_peer_id_def is_canonical_pair_iff canonical_table)
  with cap_pattern_known [OF m d, of ?H "\<lambda>_. Some [5]"]
  have "canonicalize_cap_pattern_peer_refs ?H toy_base58 ?p (\<lambda>_. Some [5]) = Inr (?q, CANONICAL)"
    by (simp add: is_canonical_pair_iff canonical_table)
  with cap_pattern_canonicalization_settles [OF toy_base58_ok this, of "\<lambda>_. None"] show ?thesis
    by (simp add: Let_def)
qed

text \<open>
  What a key type outside the table does: an identifier of an unallocated key type in identity
  form (which \<open>derive_peer_from_peer_id\<close> decodes, as documented) makes \<open>canonicalize_peer_id\<close> raise
  \<open>ValueError\<close> instead of returning \<open>None\<close>, and so does the rewriting of every capability pattern
  that starts with it.
\<close>

theorem unknown_key_type_raises:
  assumes "decode_peer_id B p = Inr (k, HASH_TYPE_IDENTITY, d)"
    and "CANONICAL_HASH_TYPE_FOR_KEY_TYPE k = None" and "peer_segment_match pat = Some (p, rest)"
  shows "derive_peer_from_peer_id B p = Some (d, k)
    \<and> canonicalize_peer_id H B p None = Inl ValueError
    \<and> canonicalize_cap_pattern_peer_refs H B pat (\<lambda>_. None) = Inl ValueError"
proof -
  have "IDENTITY_DIGEST_LEN k = None"
    using assms(2) by (auto simp: CANONICAL_HASH_TYPE_FOR_KEY_TYPE_def IDENTITY_DIGEST_LEN_def split: if_splits)
  with assms have d: "derive_peer_from_peer_id B p = Some (d, k)"
    by (simp add: derive_peer_from_peer_id_def)
  have "\<not> is_canonical_pair k HASH_TYPE_IDENTITY" using assms(2) by (simp add: is_canonical_pair_iff)
  with assms d have c: "canonicalize_peer_id H B p None = Inl ValueError"
    by (simp add: canonicalize_peer_id_def peer_id_from_public_key_bytes_def canonical_hash_type_def)
  with \<open>\<not> is_canonical_pair k HASH_TYPE_IDENTITY\<close> d show ?thesis
    using cap_pattern_known [OF assms(3,1), of H "\<lambda>_. None"] by simp
qed

theorem unknown_key_type_raises_witness:
  "canonicalize_cap_pattern_peer_refs \<lparr>sha256 = id, sha384 = id, sha512 = id\<rparr> toy_base58
     (CHR ''/'' # toy_encode [9, 0, 5] @ ''/x'') (\<lambda>_. None) = Inl ValueError"
proof -
  have m: "peer_segment_match (CHR ''/'' # toy_encode [9, 0, 5] @ ''/x'') = Some (toy_encode [9, 0, 5], ''/x'')"
    by (simp add: peer_segment_match_def toy_encode_def toy_digit_def BASE58_ALPHABET_def NEWLINE_def Let_def)
  have "toy_decode (toy_encode [9, 0, 5]) = Some [9, 0, 5]"
    using toy_base58_ok by (simp add: base58_ok_def toy_base58_def)
  then have d: "decode_peer_id toy_base58 (toy_encode [9, 0, 5]) = Inr (9, HASH_TYPE_IDENTITY, [5])"
    by (simp add: decode_peer_id_def toy_base58_def key_type_defs)
  have "CANONICAL_HASH_TYPE_FOR_KEY_TYPE 9 = None"
    by (simp add: CANONICAL_HASH_TYPE_FOR_KEY_TYPE_def key_type_defs)
  from unknown_key_type_raises [OF d this m] show ?thesis by blast
qed

end
