(* ===== verification/Checking.thy ===== *)
theory Checking
  imports Identity
begin

section \<open>Capability checks\<close>

text \<open>
  The second half of \<open>capability/checking.py\<close>: scopes, the dispatch-level checks (handler, then
  resource) and the handler-level path check. The clock reading \<open>now\<close> is an argument. An optional
  argument of the source that stands for a peer id is an \<open>option\<close>.
\<close>

subsection \<open>Scopes\<close>

datatype dimension = Handlers | Resources | Operations | Peers

datatype scope_type = PATH_SCOPE | ID_SCOPE

fun scope_type_for_dimension :: "dimension \<Rightarrow> scope_type" where
  "scope_type_for_dimension Handlers = PATH_SCOPE"
| "scope_type_for_dimension Resources = PATH_SCOPE"
| "scope_type_for_dimension Operations = ID_SCOPE"
| "scope_type_for_dimension Peers = ID_SCOPE"

definition granter_frame_peer_id ::
  "hashlib \<Rightarrow> base58lib \<Rightarrow> granter \<Rightarrow> string \<Rightarrow> (bytes \<Rightarrow> peer_data option) \<Rightarrow> string result" where
  "granter_frame_peer_id H B granter local_peer_id resolve_identity =
     (case granter of
        HashGranter h \<Rightarrow>
          (case resolve_identity h of
             None \<Rightarrow> Inr local_peer_id
           | Some id_ent \<Rightarrow>
               bind_r (peer_id_from_identity_entity H B id_ent)
                 (\<lambda>p. Inr (if p = [] then local_peer_id else p)))
      | _ \<Rightarrow> Inr local_peer_id)"

datatype side = Include | Exclude

text \<open>The first unmatchable pattern of the path-scope dimensions, in the order of the three loops.\<close>

definition unmatchable_scope_pattern :: "grant list \<Rightarrow> (dimension \<times> side \<times> string) option" where
  "unmatchable_scope_pattern grants =
     (let sides = (\<lambda>dim sc. case sc of
                      None \<Rightarrow> []
                    | Some s \<Rightarrow> map (\<lambda>p. (dim, Include, p)) (sc_include s)
                              @ map (\<lambda>p. (dim, Exclude, p)) (excludes s))
      in find (\<lambda>(_, _, p). is_unmatchable_pattern p)
           (concat (map (\<lambda>g. sides Handlers (g_handlers g) @ sides Resources (g_resources g)) grants)))"

definition matches_scope :: "scope \<Rightarrow> string \<Rightarrow> bool" where
  "matches_scope sc val =
     (if \<not> list_ex (\<lambda>p. matches_pattern p val) (sc_include sc) then False
      else \<not> list_ex (\<lambda>p. is_unmatchable_pattern p \<or> matches_pattern p val) (excludes sc))"

definition matches_id_scope :: "scope \<Rightarrow> string \<Rightarrow> bool" where
  "matches_id_scope sc val =
     (if \<not> list_ex (\<lambda>p. id_scope_pattern_matches p val) (sc_include sc) then False
      else \<not> list_ex (\<lambda>p. id_scope_pattern_matches p val) (excludes sc))"

definition grant_allows_peer :: "grant \<Rightarrow> string \<Rightarrow> string \<Rightarrow> bool" where
  "grant_allows_peer g target_peer local_peer_id =
     (let peers_scope = (case g_peers g of None \<Rightarrow> scope_of [local_peer_id] | Some sc \<Rightarrow> sc)
      in matches_id_scope peers_scope target_peer)"

subsection \<open>Dispatch: the handler\<close>

abbreviation or_local :: "string option \<Rightarrow> string \<Rightarrow> string" where
  "or_local p local_peer_id \<equiv> (case p of Some x \<Rightarrow> x | None \<Rightarrow> local_peer_id)"

definition check_handler_scope ::
  "cap_data \<Rightarrow> string \<Rightarrow> string \<Rightarrow> string \<Rightarrow> int \<Rightarrow> string option \<Rightarrow> bool \<Rightarrow> bool" where
  "check_handler_scope cd handler_pattern operation local_peer_id now target_peer relax_peers =
     (if temporal_validity cd now \<noteq> None then False
      else
        let peer = or_local target_peer local_peer_id in
        list_ex (\<lambda>g. matches_id_scope (get_scope (g_operations g)) operation
                   \<and> (relax_peers \<or> grant_allows_peer g peer local_peer_id)
                   \<and> matches_scope (get_scope (g_handlers g)) handler_pattern) (cd_grants cd))"

subsection \<open>Dispatch: the resources\<close>

definition effective_resource_targets :: "string list \<Rightarrow> string list \<Rightarrow> string \<Rightarrow> string list" where
  "effective_resource_targets resource_targets resource_exclude local_peer_id =
     (if resource_exclude = [] then resource_targets
      else
        let canonical_excludes = map (\<lambda>e. canonicalize e local_peer_id) resource_exclude in
        filter (\<lambda>target. \<not> list_ex (\<lambda>e. matches_pattern e (canonicalize target local_peer_id)) canonical_excludes)
          resource_targets)"

text \<open>The include loop, in the granter's frame.\<close>

definition resource_included :: "scope \<Rightarrow> string \<Rightarrow> string \<Rightarrow> bool" where
  "resource_included resources_scope grant_frame canonical_target =
     list_ex (\<lambda>resource. matches_pattern (canonicalize resource grant_frame) canonical_target)
       (sc_include resources_scope)"

text \<open>
  The exclude loop: an unmatchable exclude refuses, a pattern target is refused by an exclude that
  overlaps it and that the caller did not exclude as well, a concrete target by one that matches it.
\<close>

definition resource_excluded ::
  "scope \<Rightarrow> string \<Rightarrow> string \<Rightarrow> string list \<Rightarrow> string \<Rightarrow> bool" where
  "resource_excluded resources_scope grant_frame canonical_target resource_exclude local_peer_id =
     list_ex
       (\<lambda>excl.
          let canonical_excl = canonicalize excl grant_frame in
          if canonical_excl = NEVER_MATCH then True
          else if is_pattern canonical_target then
            (if \<not> patterns_overlap canonical_target canonical_excl then False
             else \<not> is_covered_by canonical_excl resource_exclude local_peer_id)
          else matches_pattern canonical_excl canonical_target)
       (excludes resources_scope)"

text \<open>One grant must cover the four axes of one target.\<close>

definition grant_covers_target ::
  "grant \<Rightarrow> string \<Rightarrow> string \<Rightarrow> string \<Rightarrow> string list \<Rightarrow> string \<Rightarrow> string \<Rightarrow> string option \<Rightarrow> bool \<Rightarrow> bool" where
  "grant_covers_target g handler_pattern operation canonical_target resource_exclude local_peer_id
       grant_frame target_peer relax_peers =
     (if \<not> matches_scope (get_scope (g_handlers g)) handler_pattern then False
      else if \<not> matches_id_scope (get_scope (g_operations g)) operation then False
      else if \<not> relax_peers \<and> \<not> grant_allows_peer g (or_local target_peer local_peer_id) local_peer_id then False
      else if \<not> resource_included (get_scope (g_resources g)) grant_frame canonical_target then False
      else \<not> resource_excluded (get_scope (g_resources g)) grant_frame canonical_target resource_exclude
               local_peer_id)"

definition check_resource_scope ::
  "cap_data \<Rightarrow> string \<Rightarrow> string \<Rightarrow> string list \<Rightarrow> string list \<Rightarrow> string \<Rightarrow> int \<Rightarrow> string option
     \<Rightarrow> string option \<Rightarrow> bool \<Rightarrow> bool" where
  "check_resource_scope cd handler_pattern operation resource_targets resource_exclude local_peer_id now
       granter_peer_id target_peer relax_peers =
     (let grant_frame = or_local granter_peer_id local_peer_id in
      if temporal_validity cd now \<noteq> None then False
      else list_all
        (\<lambda>target.
           let canonical_target = canonicalize target local_peer_id in
           if \<not> is_pattern canonical_target \<and> validate_absolute_path canonical_target \<noteq> None then False
           else list_ex (\<lambda>g. grant_covers_target g handler_pattern operation canonical_target
                             resource_exclude local_peer_id grant_frame target_peer relax_peers)
                  (cd_grants cd))
        (effective_resource_targets resource_targets resource_exclude local_peer_id))"

subsection \<open>The handler-level check\<close>

definition path_excluded :: "scope \<Rightarrow> string \<Rightarrow> string \<Rightarrow> bool" where
  "path_excluded resources_scope grant_frame canonical_path =
     list_ex
       (\<lambda>excl.
          let canonical_exclude = canonicalize excl grant_frame in
          if canonical_exclude = NEVER_MATCH then True
          else if is_pattern canonical_path then patterns_overlap canonical_path canonical_exclude
          else matches_pattern canonical_exclude canonical_path)
       (excludes resources_scope)"

definition check_path_permission ::
  "cap_data \<Rightarrow> string \<Rightarrow> string \<Rightarrow> string \<Rightarrow> string option \<Rightarrow> int \<Rightarrow> string option \<Rightarrow> bool" where
  "check_path_permission cd operation path local_peer_id handler_pattern now granter_peer_id =
     (let grant_frame = or_local granter_peer_id local_peer_id in
      if temporal_validity cd now \<noteq> None then False
      else case handler_pattern of
        None \<Rightarrow> False
      | Some hp \<Rightarrow>
          if hp = [] then False
          else
            let canonical_path = canonicalize path local_peer_id in
            list_ex (\<lambda>g. matches_id_scope (get_scope (g_operations g)) operation
                       \<and> matches_scope (get_scope (g_handlers g)) hp
                       \<and> resource_included (get_scope (g_resources g)) grant_frame canonical_path
                       \<and> \<not> path_excluded (get_scope (g_resources g)) grant_frame canonical_path)
              (cd_grants cd))"

definition find_matching_grant :: "cap_data \<Rightarrow> string \<Rightarrow> string \<Rightarrow> string \<Rightarrow> int \<Rightarrow> grant option" where
  "find_matching_grant cd operation handler_pattern local_peer_id now =
     (if temporal_validity cd now \<noteq> None then None
      else find (\<lambda>g. matches_id_scope (get_scope (g_operations g)) operation
                    \<and> matches_scope (get_scope (g_handlers g)) handler_pattern) (cd_grants cd))"

text \<open>\<open>data.get("grantee", "")\<close> compared with the author's hash: an absent grantee matches no hash.\<close>

definition check_capability_refs :: "cap_data \<Rightarrow> bytes \<Rightarrow> bool" where
  "check_capability_refs cd author_identity_hash = (cd_grantee cd = Some author_identity_hash)"

subsection \<open>Facts\<close>

lemma matches_concrete:
  "\<not> is_pattern p \<Longrightarrow> matches_pattern p u \<longleftrightarrow> u \<noteq> NEVER_MATCH \<and> u = p"
  by (rule matches_exact) (auto simp: is_pattern_def elim!: prefixE suffixE)

lemma valid_path_absolute: "validate_absolute_path u = None \<Longrightarrow> \<exists>t. u = CHR ''/'' # t"
  by (auto simp: validate_absolute_path_None)

lemma valid_path_canonical: "validate_absolute_path u = None \<Longrightarrow> canonicalize u l = u"
  using valid_path_absolute canonicalize_abs_id by blast

lemma valid_path_no_dslash: "validate_absolute_path u = None \<Longrightarrow> \<not> dslash u"
  by (auto simp: validate_absolute_path_None)

lemma valid_path_not_never: "validate_absolute_path u = None \<Longrightarrow> u \<noteq> NEVER_MATCH"
  using never_match_invalid by auto

lemma effective_iff:
  "t \<in> set (effective_resource_targets ts es l) \<longleftrightarrow> t \<in> set ts \<and> \<not> is_covered_by (canonicalize t l) es l"
  by (auto simp: effective_resource_targets_def is_covered_by_def list_ex_iff Let_def)

lemma resource_excluded_iff:
  "resource_excluded rs f t es l \<longleftrightarrow>
     (\<exists>e \<in> set (excludes rs). canonicalize e f = NEVER_MATCH
        \<or> (is_pattern t \<and> patterns_overlap t (canonicalize e f) \<and> \<not> is_covered_by (canonicalize e f) es l)
        \<or> (\<not> is_pattern t \<and> matches_pattern (canonicalize e f) t))"
  unfolding resource_excluded_def list_ex_iff Let_def by (intro bex_cong refl) auto

lemma path_excluded_iff:
  "path_excluded rs f t \<longleftrightarrow>
     (\<exists>e \<in> set (excludes rs). canonicalize e f = NEVER_MATCH
        \<or> (is_pattern t \<and> patterns_overlap t (canonicalize e f))
        \<or> (\<not> is_pattern t \<and> matches_pattern (canonicalize e f) t))"
  unfolding path_excluded_def list_ex_iff Let_def by (intro bex_cong refl) auto

text \<open>Without excludes of the caller the exclude loop of the two levels is the same.\<close>

lemma resource_excluded_no_caller: "resource_excluded rs f t [] l = path_excluded rs f t"
  by (simp add: resource_excluded_iff path_excluded_iff is_covered_by_def)

text \<open>The caller's excludes only matter to a pattern target.\<close>

lemma resource_excluded_concrete:
  "\<not> is_pattern t \<Longrightarrow> resource_excluded rs f t es l = path_excluded rs f t"
  by (simp add: resource_excluded_iff path_excluded_iff)

text \<open>An include that matches the pattern matches what the pattern matches.\<close>

lemma resource_included_concretize:
  assumes "resource_included rs f t" and "matches_pattern t u" and "\<not> dslash u"
  shows "resource_included rs f u"
  using assms matches_pattern_trans by (auto simp: resource_included_def list_ex_iff)

definition plain_excludes :: "scope \<Rightarrow> string \<Rightarrow> bool" where
  "plain_excludes rs f \<longleftrightarrow> list_all (\<lambda>e. \<not> starts_with (canonicalize e f) ''/*/'') (excludes rs)"

text \<open>
  The exclude loop is sound for what a pattern target stands for: if it does not refuse the pattern,
  a value of the pattern that the caller did not exclude is not excluded by the grant.
\<close>

lemma resource_excluded_concretize:
  assumes ne: "\<not> resource_excluded rs f t es l" and m: "matches_pattern t u"
    and u: "\<not> is_pattern u" "\<not> dslash u" and caller: "\<not> is_covered_by u es l"
    and pt: "\<not> starts_with t ''/*/''" and pe: "plain_excludes rs f"
  shows "\<not> path_excluded rs f u"
proof
  assume "path_excluded rs f u"
  with u(1) obtain e where e: "e \<in> set (excludes rs)"
    and hit: "canonicalize e f = NEVER_MATCH \<or> matches_pattern (canonicalize e f) u"
    by (auto simp: path_excluded_iff)
  from pe e have "\<not> starts_with (canonicalize e f) ''/*/''" by (simp add: plain_excludes_def list_all_iff)
  with hit m pt have overlap: "canonicalize e f = NEVER_MATCH \<or> patterns_overlap t (canonicalize e f)"
    using patterns_overlap_complete by blast
  show False
  proof (cases "is_pattern t")
    case True
    with ne e overlap have n: "canonicalize e f \<noteq> NEVER_MATCH" and "is_covered_by (canonicalize e f) es l"
      by (auto simp: resource_excluded_iff)
    then have "is_covered_by u es l"
      using hit n u(2) matches_pattern_trans by (auto simp: is_covered_by_def list_ex_iff)
    with caller show False ..
  next
    case False
    with m have "u = t" by (simp add: matches_concrete)
    with ne e hit False show False by (auto simp: resource_excluded_iff)
  qed
qed

lemma grant_covers_concretize:
  assumes "grant_covers_target g hp op t es l f tp relax" and "matches_pattern t u"
    and "\<not> is_pattern u" "\<not> dslash u" and "\<not> is_covered_by u es l"
    and "\<not> starts_with t ''/*/''" and "plain_excludes (get_scope (g_resources g)) f"
  shows "grant_covers_target g hp op u [] l f tp relax"
proof -
  from assms(1) have inc: "resource_included (get_scope (g_resources g)) f t"
    and exc: "\<not> resource_excluded (get_scope (g_resources g)) f t es l"
    by (auto simp: grant_covers_target_def split: if_splits)
  show ?thesis
    using assms(1) resource_included_concretize [OF inc assms(2,4)]
      resource_excluded_concretize [OF exc assms(2-7)]
    by (auto simp: grant_covers_target_def resource_excluded_no_caller split: if_splits)
qed

lemma check_resource_scope_iff:
  "check_resource_scope cd hp op ts es l now gp tp relax \<longleftrightarrow>
     temporal_validity cd now = None \<and>
     (\<forall>t \<in> set (effective_resource_targets ts es l).
        (is_pattern (canonicalize t l) \<or> validate_absolute_path (canonicalize t l) = None) \<and>
        (\<exists>g \<in> set (cd_grants cd).
           grant_covers_target g hp op (canonicalize t l) es l (or_local gp l) tp relax))"
  by (auto simp: check_resource_scope_def list_all_iff list_ex_iff Let_def)

lemma check_path_permission_iff:
  "check_path_permission cd op path l hp now gp \<longleftrightarrow>
     temporal_validity cd now = None \<and> (\<exists>h. hp = Some h \<and> h \<noteq> [] \<and>
       (\<exists>g \<in> set (cd_grants cd). matches_id_scope (get_scope (g_operations g)) op
          \<and> matches_scope (get_scope (g_handlers g)) h
          \<and> resource_included (get_scope (g_resources g)) (or_local gp l) (canonicalize path l)
          \<and> \<not> path_excluded (get_scope (g_resources g)) (or_local gp l) (canonicalize path l)))"
  by (cases hp) (auto simp: check_path_permission_def list_ex_iff Let_def)

lemma grant_covers_relaxed:
  "grant_covers_target g hp op t [] l f tp True \<longleftrightarrow>
     matches_id_scope (get_scope (g_operations g)) op \<and> matches_scope (get_scope (g_handlers g)) hp
     \<and> resource_included (get_scope (g_resources g)) f t \<and> \<not> path_excluded (get_scope (g_resources g)) f t"
  by (auto simp: grant_covers_target_def resource_excluded_no_caller)

lemma effective_no_excludes: "effective_resource_targets ts [] l = ts"
  by (simp add: effective_resource_targets_def)

text \<open>A peer id, a grant and a token for the witnesses.\<close>

definition demo_peer :: string where
  "demo_peer = replicate 46 (CHR ''A'')"

definition demo_grant :: "string list \<Rightarrow> string list \<Rightarrow> grant" where
  "demo_grant incs excs = \<lparr>g_handlers = Some (scope_of [''*'']),
     g_resources = Some \<lparr>sc_include = incs, sc_exclude = Some excs\<rparr>,
     g_operations = Some (scope_of [''get'']), g_peers = None, g_constraints = VNull, g_allowances = VNull\<rparr>"

definition demo_cap :: "grant list \<Rightarrow> cap_data" where
  "demo_cap gs = \<lparr>cd_grants = gs, cd_granter = HashGranter [1], cd_grantee = Some [2], cd_parent = None,
     cd_created_at = Some (VInt 0), cd_expires_at = None, cd_not_before = None, cd_caveats = None\<rparr>"

subsection \<open>Properties\<close>

text \<open>
  C1. A pattern target authorises no more than its paths: when the dispatch check allows a request
  whose target is a pattern without a leading peer wildcard, every concrete path the pattern stands
  for and the caller did not exclude is allowed on its own, by one grant that covers the handler, the
  operation, the peer and the path and that does not exclude it. So an exclude of the grant cannot be
  evaded by respelling the request as a pattern (for excludes without a leading peer wildcard).
\<close>

theorem pattern_target_sound:
  assumes "check_resource_scope cd hp op targets excl l now gp tp relax" and "t \<in> set targets"
    and "matches_pattern (canonicalize t l) u" and "validate_absolute_path u = None" and "\<not> is_pattern u"
    and "\<not> is_covered_by u excl l" and "\<not> starts_with (canonicalize t l) ''/*/''"
    and "\<And>g. g \<in> set (cd_grants cd) \<Longrightarrow> plain_excludes (get_scope (g_resources g)) (or_local gp l)"
  shows "check_resource_scope cd hp op [u] [] l now gp tp relax"
proof -
  have nd: "\<not> dslash u" by (rule valid_path_no_dslash [OF assms(4)])
  have "\<not> is_covered_by (canonicalize t l) excl l"
    using assms(3,6) nd matches_pattern_trans by (auto simp: is_covered_by_def list_ex_iff)
  with assms(2) have "t \<in> set (effective_resource_targets targets excl l)" by (simp add: effective_iff)
  with assms(1) obtain g where valid: "temporal_validity cd now = None" and g: "g \<in> set (cd_grants cd)"
    and cov: "grant_covers_target g hp op (canonicalize t l) excl l (or_local gp l) tp relax"
    unfolding check_resource_scope_iff by blast
  have "grant_covers_target g hp op u [] l (or_local gp l) tp relax"
    by (rule grant_covers_concretize [OF cov assms(3,5) nd assms(6,7) assms(8) [OF g]])
  with valid g assms(4) show ?thesis
    by (auto simp: check_resource_scope_iff effective_no_excludes valid_path_canonical)
qed

theorem pattern_target_sound_witness:
  "check_resource_scope (demo_cap [demo_grant [''*''] [''data/secret'']]) ''system/tree'' ''get''
     [CHR ''/'' # demo_peer @ ''/data/open''] [] demo_peer 5 None None False"
proof (rule pattern_target_sound [of _ _ _ "[''data/*'']" "[''data/secret'']" _ _ _ _ _ "''data/*''"])
  show "check_resource_scope (demo_cap [demo_grant [''*''] [''data/secret'']]) ''system/tree'' ''get''
     [''data/*''] [''data/secret''] demo_peer 5 None None False"
    by code_simp
  show "matches_pattern (canonicalize ''data/*'' demo_peer) (CHR ''/'' # demo_peer @ ''/data/open'')"
    by code_simp
  show "validate_absolute_path (CHR ''/'' # demo_peer @ ''/data/open'') = None" by code_simp
  show "\<not> is_pattern (CHR ''/'' # demo_peer @ ''/data/open'')" by code_simp
  show "\<not> is_covered_by (CHR ''/'' # demo_peer @ ''/data/open'') [''data/secret''] demo_peer" by code_simp
  show "\<not> starts_with (canonicalize ''data/*'' demo_peer) ''/*/''" by code_simp
  show "plain_excludes (get_scope (g_resources g)) (or_local None demo_peer)"
    if "g \<in> set (cd_grants (demo_cap [demo_grant [''*''] [''data/secret'']]))" for g
  proof -
    from that have "g = demo_grant [''*''] [''data/secret'']" by (simp add: demo_cap_def)
    then show ?thesis by (simp only: option.case) code_simp
  qed
qed simp_all

text \<open>
  C2. The same at the handler level, where a subscription passes its pattern: a path permission granted
  on a pattern without a leading peer wildcard is granted on every concrete path the pattern stands
  for, when no resource exclude of the grants has a leading peer wildcard either.
\<close>

theorem pattern_permission_sound:
  assumes "check_path_permission cd op pat l hp now gp"
    and "matches_pattern (canonicalize pat l) u" and "validate_absolute_path u = None" and "\<not> is_pattern u"
    and "\<not> starts_with (canonicalize pat l) ''/*/''"
    and "\<And>g. g \<in> set (cd_grants cd) \<Longrightarrow> plain_excludes (get_scope (g_resources g)) (or_local gp l)"
  shows "check_path_permission cd op u l hp now gp"
proof -
  let ?f = "or_local gp l"
  have nd: "\<not> dslash u" by (rule valid_path_no_dslash [OF assms(3)])
  from assms(1) obtain h g where valid: "temporal_validity cd now = None" and h: "hp = Some h" "h \<noteq> []"
    and g: "g \<in> set (cd_grants cd)" and ops: "matches_id_scope (get_scope (g_operations g)) op"
    and hs: "matches_scope (get_scope (g_handlers g)) h"
    and inc: "resource_included (get_scope (g_resources g)) ?f (canonicalize pat l)"
    and exc: "\<not> path_excluded (get_scope (g_resources g)) ?f (canonicalize pat l)"
    by (auto simp: check_path_permission_iff)
  have "resource_included (get_scope (g_resources g)) ?f u"
    by (rule resource_included_concretize [OF inc assms(2) nd])
  moreover have "\<not> path_excluded (get_scope (g_resources g)) ?f u"
    by (rule resource_excluded_concretize [of _ _ "canonicalize pat l" "[]" l])
      (use exc assms(2,4,5) nd assms(6) [OF g] in
        \<open>simp_all add: resource_excluded_no_caller is_covered_by_def\<close>)
  ultimately show ?thesis
    unfolding check_path_permission_iff valid_path_canonical [OF assms(3)]
    using valid h g ops hs by blast
qed

theorem pattern_permission_sound_witness:
  "check_path_permission (demo_cap [demo_grant [''*''] [''secret/*'']]) ''get''
     (CHR ''/'' # demo_peer @ ''/data/open'') demo_peer (Some ''system/tree'') 5 None"
proof (rule pattern_permission_sound [of _ _ "''data/*''"])
  show "check_path_permission (demo_cap [demo_grant [''*''] [''secret/*'']]) ''get'' ''data/*'' demo_peer
      (Some ''system/tree'') 5 None"
    by code_simp
  show "matches_pattern (canonicalize ''data/*'' demo_peer) (CHR ''/'' # demo_peer @ ''/data/open'')"
    by code_simp
  show "validate_absolute_path (CHR ''/'' # demo_peer @ ''/data/open'') = None" by code_simp
  show "\<not> is_pattern (CHR ''/'' # demo_peer @ ''/data/open'')" by code_simp
  show "\<not> starts_with (canonicalize ''data/*'' demo_peer) ''/*/''" by code_simp
  show "plain_excludes (get_scope (g_resources g)) (or_local None demo_peer)"
    if "g \<in> set (cd_grants (demo_cap [demo_grant [''*''] [''secret/*'']]))" for g
  proof -
    from that have "g = demo_grant [''*''] [''secret/*'']" by (simp add: demo_cap_def)
    then show ?thesis by (simp only: option.case) code_simp
  qed
qed

text \<open>
  The peer wildcard escapes the overlap test: \<open>strip_wildcard\<close> leaves the leading \<open>/*\<close> of a pattern
  in place, so \<open>patterns_overlap\<close> finds no overlap between the target \<open>/*/data/*\<close> and the grant's
  exclude \<open>/{peer}/data/secret\<close>, which the target matches. Both checks therefore allow the pattern
  although each refuses the excluded path it stands for.
\<close>

theorem overlap_misses_peer_wildcard:
  "let cap = demo_cap [demo_grant [''/*/*''] [''data/secret'']];
       secret = CHR ''/'' # demo_peer @ ''/data/secret''
   in matches_pattern (canonicalize ''/*/data/*'' demo_peer) secret
      \<and> validate_absolute_path secret = None
      \<and> check_resource_scope cap ''system/tree'' ''get'' [''/*/data/*''] [] demo_peer 5 None None False
      \<and> \<not> check_resource_scope cap ''system/tree'' ''get'' [secret] [] demo_peer 5 None None False
      \<and> check_path_permission cap ''get'' ''/*/data/*'' demo_peer (Some ''system/tree'') 5 None
      \<and> \<not> check_path_permission cap ''get'' secret demo_peer (Some ''system/tree'') 5 None"
  by code_simp



text \<open>
  What cannot be resolved authorises nothing: a target or path in one of the reserved forms
  (\<open>./\<close>, \<open>../\<close>, \<open>*/\<close>) is refused at both levels whatever the grants say, even by the caller's own
  excludes, and when every grant has an exclude in such a form neither level allows anything.
\<close>

theorem unresolvable_never_authorises:
  "(canonicalize t l = NEVER_MATCH \<longrightarrow>
      \<not> check_path_permission cd op t l hp now gp
      \<and> (t \<in> set targets \<longrightarrow> \<not> check_resource_scope cd h op targets excl l now gp tp relax))
   \<and> ((\<forall>g \<in> set (cd_grants cd). \<exists>e \<in> set (excludes (get_scope (g_resources g))). is_unmatchable_pattern e) \<longrightarrow>
      \<not> check_path_permission cd op t l hp now gp
      \<and> (effective_resource_targets targets excl l \<noteq> [] \<longrightarrow>
           \<not> check_resource_scope cd h op targets excl l now gp tp relax))"
proof -
  have np: "\<not> is_pattern NEVER_MATCH" by (simp add: is_pattern_def NEVER_MATCH_def)
  have "\<not> check_path_permission cd op t l hp now gp
      \<and> (t \<in> set targets \<longrightarrow> \<not> check_resource_scope cd h op targets excl l now gp tp relax)"
    if c: "canonicalize t l = NEVER_MATCH"
  proof -
    have eff: "t \<in> set (effective_resource_targets targets excl l)" if "t \<in> set targets"
      using that by (simp add: effective_iff is_covered_by_def c list_ex_iff)
    have "\<not> (is_pattern (canonicalize t l) \<or> validate_absolute_path (canonicalize t l) = None)"
      unfolding c never_match_invalid using np by (simp only: option.distinct simp_thms)
    then have "\<not> check_resource_scope cd h op targets excl l now gp tp relax" if "t \<in> set targets"
      using bspec [OF conjunct2 [OF iffD1 [OF check_resource_scope_iff]] eff [OF that]] by metis
    moreover have "\<not> check_path_permission cd op t l hp now gp"
      by (simp add: check_path_permission_iff resource_included_def list_ex_iff c)
    ultimately show ?thesis by blast
  qed
  moreover have "\<not> check_path_permission cd op t l hp now gp
      \<and> (effective_resource_targets targets excl l \<noteq> [] \<longrightarrow>
           \<not> check_resource_scope cd h op targets excl l now gp tp relax)"
    if *: "\<forall>g \<in> set (cd_grants cd). \<exists>e \<in> set (excludes (get_scope (g_resources g))). is_unmatchable_pattern e"
  proof -
    have pe: "path_excluded (get_scope (g_resources g)) f u"
      and re: "resource_excluded (get_scope (g_resources g)) f u es l'" if "g \<in> set (cd_grants cd)" for g f u es l'
    proof -
      from * that obtain e where "e \<in> set (excludes (get_scope (g_resources g)))" "canonicalize e f = NEVER_MATCH"
        unfolding is_unmatchable_pattern_iff [of _ f] by blast
      then show "path_excluded (get_scope (g_resources g)) f u"
        and "resource_excluded (get_scope (g_resources g)) f u es l'"
        by (auto simp: path_excluded_iff resource_excluded_iff)
    qed
    from re have "\<not> grant_covers_target g h op u es l f tp relax" if "g \<in> set (cd_grants cd)" for g u es f
      using that by (simp add: grant_covers_target_def)
    with pe show ?thesis
      by (cases "effective_resource_targets targets excl l")
        (auto simp: check_path_permission_iff check_resource_scope_iff)
  qed
  ultimately show ?thesis by blast
qed

theorem unresolvable_never_authorises_witness:
  "canonicalize ''../x'' demo_peer = NEVER_MATCH
   \<and> \<not> check_path_permission (demo_cap [demo_grant [''*''] []]) ''get'' ''../x'' demo_peer (Some ''h'') 5 None
   \<and> \<not> check_path_permission (demo_cap [demo_grant [''*''] [''./y'']]) ''get'' ''x'' demo_peer (Some ''h'') 5 None"
proof -
  have "canonicalize ''../x'' demo_peer = NEVER_MATCH" by code_simp
  moreover have "is_unmatchable_pattern ''./y''" by code_simp
  then have "\<forall>g \<in> set (cd_grants (demo_cap [demo_grant [''*''] [''./y'']])).
      \<exists>e \<in> set (excludes (get_scope (g_resources g))). is_unmatchable_pattern e"
    by (simp add: demo_cap_def demo_grant_def)
  ultimately show ?thesis
    using unresolvable_never_authorises [of "''../x''" demo_peer "demo_cap [demo_grant [''*''] []]" "''get''"
        "Some ''h''" 5 None "[]"]
      unresolvable_never_authorises [of "''x''" demo_peer "demo_cap [demo_grant [''*''] [''./y'']]" "''get''"
        "Some ''h''" 5 None "[]"] by blast
qed

text \<open>
  The refusal at the chain walk is complete: \<open>unmatchable_scope_pattern\<close> finds nothing exactly when
  no path-scope pattern of any grant, include or exclude, resolves to \<open>NEVER_MATCH\<close>, whichever peer's
  frame it is resolved in.
\<close>

theorem unmatchable_scope_pattern_exact:
  "unmatchable_scope_pattern gs = None \<longleftrightarrow>
     (\<forall>g \<in> set gs. \<forall>sc. Some sc = g_handlers g \<or> Some sc = g_resources g \<longrightarrow>
        (\<forall>p \<in> set (sc_include sc) \<union> set (excludes sc). \<forall>l. canonicalize p l \<noteq> NEVER_MATCH))"
proof -
  have "unmatchable_scope_pattern gs = None \<longleftrightarrow>
     (\<forall>g \<in> set gs. \<forall>sc. Some sc = g_handlers g \<or> Some sc = g_resources g \<longrightarrow>
        (\<forall>p \<in> set (sc_include sc) \<union> set (excludes sc). \<not> is_unmatchable_pattern p))"
    by (auto simp: unmatchable_scope_pattern_def find_None_iff Let_def split: option.splits) blast+
  then show ?thesis using is_unmatchable_pattern_iff by auto
qed

theorem unmatchable_scope_pattern_exact_witness:
  "unmatchable_scope_pattern [demo_grant [''a/*''] [''b'']] = None \<and> canonicalize ''b'' demo_peer \<noteq> NEVER_MATCH"
proof -
  have n: "unmatchable_scope_pattern [demo_grant [''a/*''] [''b'']] = None" by code_simp
  with unmatchable_scope_pattern_exact [of "[demo_grant [''a/*''] [''b'']]"] show ?thesis
    by (simp add: demo_grant_def)
qed

text \<open>
  The owner grant is authority over exactly the owner's namespace: with a temporally valid owner
  capability framed on its granter, a named handler may touch a valid path exactly when the path lies
  below \<open>/{peer_id}/\<close>, for every operation and from every peer's point of view.
\<close>

theorem owner_grant_exact:
  assumes "is_peer_id owner" and "cd_grants cd = create_owner_grant owner"
    and "temporal_validity cd now = None" and "validate_absolute_path u = None"
    and "h \<noteq> []" and "h \<noteq> NEVER_MATCH"
  shows "check_path_permission cd op u l (Some h) now (Some owner)
    \<longleftrightarrow> starts_with u (CHR ''/'' # owner @ ''/'')"
proof -
  let ?own = "(CHR ''/'' # owner) @ ''/*''"
  have ns: "\<not> starts_with ?own ''/*/''"
    using is_peer_id_chars [OF assms(1)] is_peer_id_not_Nil [OF assms(1)] alphabet_no_separator
    by (cases owner) auto
  have c: "canonicalize ''*'' owner = ?own" "canonicalize (CHR ''/'' # owner @ ''/*'') owner = ?own"
    using canonicalize_abs_id [of "owner @ ''/*''"]
    by (simp_all add: canonicalize_def normalize_def ENTITY_SCHEME_def)
  have "resource_included (scope_of [''*'', CHR ''/'' # owner @ ''/*'']) owner u
      \<longleftrightarrow> matches_pattern ?own u"
    using c by (simp add: resource_included_def scope_of_def)
  also have "\<dots> \<longleftrightarrow> starts_with u (CHR ''/'' # owner @ ''/'')"
    unfolding matches_subtree [OF ns] using valid_path_not_never [OF assms(4)] by simp
  finally show ?thesis
    using assms(3,5,6) valid_path_canonical [OF assms(4)]
    by (simp add: check_path_permission_iff assms(2) create_owner_grant_def create_grant_def path_excluded_iff
        matches_scope_def matches_id_scope_def id_scope_pattern_matches_def matches_star)
      (simp add: scope_of_def matches_star id_scope_pattern_matches_def)
qed

theorem owner_grant_exact_witness:
  "check_path_permission (demo_cap (create_owner_grant demo_peer)) ''put'' (CHR ''/'' # demo_peer @ ''/x'')
     ANY_FRAME (Some ''system/tree'') 5 (Some demo_peer)
   \<and> \<not> check_path_permission (demo_cap (create_owner_grant demo_peer)) ''put'' (CHR ''/'' # ANY_FRAME @ ''/x'')
     ANY_FRAME (Some ''system/tree'') 5 (Some demo_peer)"
proof -
  have "is_peer_id demo_peer" "validate_absolute_path (CHR ''/'' # demo_peer @ ''/x'') = None"
    "validate_absolute_path (CHR ''/'' # ANY_FRAME @ ''/x'') = None"
    "starts_with (CHR ''/'' # demo_peer @ ''/x'') (CHR ''/'' # demo_peer @ ''/'')"
    "\<not> starts_with (CHR ''/'' # ANY_FRAME @ ''/x'') (CHR ''/'' # demo_peer @ ''/'')"
    "''system/tree'' \<noteq> NEVER_MATCH" "temporal_validity (demo_cap (create_owner_grant demo_peer)) 5 = None"
    by code_simp+
  moreover have "cd_grants (demo_cap (create_owner_grant demo_peer)) = create_owner_grant demo_peer"
    by (simp add: demo_cap_def)
  ultimately show ?thesis
    using owner_grant_exact [of demo_peer "demo_cap (create_owner_grant demo_peer)" 5
        "CHR ''/'' # demo_peer @ ''/x''" "''system/tree''" "''put''" ANY_FRAME]
      owner_grant_exact [of demo_peer "demo_cap (create_owner_grant demo_peer)" 5
        "CHR ''/'' # ANY_FRAME @ ''/x''" "''system/tree''" "''put''" ANY_FRAME] by simp
qed

text \<open>
  The dispatch checks are coherent: what is authorised is what is served (checking the effective
  targets again, with the same excludes, gives the same verdict, and computing them again the same
  list), and a request with an effective target that passes the resource check also passes the handler
  check and finds a grant for its constraints.
\<close>

theorem dispatch_checks_coherent:
  "effective_resource_targets (effective_resource_targets targets excl l) excl l
     = effective_resource_targets targets excl l
   \<and> check_resource_scope cd hp op (effective_resource_targets targets excl l) excl l now gp tp relax
     = check_resource_scope cd hp op targets excl l now gp tp relax
   \<and> (check_resource_scope cd hp op targets excl l now gp tp relax
        \<and> effective_resource_targets targets excl l \<noteq> [] \<longrightarrow>
      check_handler_scope cd hp op l now tp relax \<and> find_matching_grant cd op hp l now \<noteq> None)"
proof -
  have idem: "effective_resource_targets (effective_resource_targets targets excl l) excl l
     = effective_resource_targets targets excl l"
    by (simp add: effective_resource_targets_def Let_def)
  have "check_handler_scope cd hp op l now tp relax \<and> find_matching_grant cd op hp l now \<noteq> None"
    if ok: "check_resource_scope cd hp op targets excl l now gp tp relax"
      and ne: "effective_resource_targets targets excl l \<noteq> []"
  proof -
    from ne obtain t where "t \<in> set (effective_resource_targets targets excl l)"
      by (cases "effective_resource_targets targets excl l") auto
    with ok obtain g where "temporal_validity cd now = None" "g \<in> set (cd_grants cd)"
      "grant_covers_target g hp op (canonicalize t l) excl l (or_local gp l) tp relax"
      unfolding check_resource_scope_iff by blast
    then show ?thesis
      by (auto simp: grant_covers_target_def check_handler_scope_def find_matching_grant_def Let_def
          list_ex_iff find_None_iff split: if_splits)
  qed
  with idem show ?thesis by (simp add: check_resource_scope_iff)
qed

theorem dispatch_checks_coherent_witness:
  "check_handler_scope (demo_cap [demo_grant [''*''] []]) ''system/tree'' ''get'' demo_peer 5 None False"
proof -
  have "check_resource_scope (demo_cap [demo_grant [''*''] []]) ''system/tree'' ''get'' [''data/x''] []
      demo_peer 5 None None False"
    by code_simp
  then show ?thesis
    using dispatch_checks_coherent [of "[''data/x'']" "[]" demo_peer "demo_cap [demo_grant [''*''] []]"
        "''system/tree''" "''get''" 5 None None False] by (simp add: effective_no_excludes)
qed

end
