(* ===== verification/Attenuation.thy ===== *)
theory Attenuation
  imports Checking
begin

section \<open>Attenuation of a delegated capability\<close>

text \<open>
  The second half of \<open>capability/delegation.py\<close>: when one pattern covers another, when a child grant is a
  subset of a parent grant on each dimension, the delegation caveats, and the single-step check
  \<open>validate_delegation\<close>. Result objects carry a reason instead of a message.
\<close>

subsection \<open>Pattern coverage\<close>

definition strip_scheme :: "string \<Rightarrow> string" where
  "strip_scheme p = (if starts_with p ENTITY_SCHEME then CHR ''/'' # drop (length ENTITY_SCHEME) p else p)"

lemma strip_scheme_length: "length (strip_scheme p) \<le> length p"
proof -
  have "length (strip_scheme p) < length p" if "starts_with p ENTITY_SCHEME"
    using that prefix_length_le [OF that] by (simp add: strip_scheme_def ENTITY_SCHEME_def)
  then show ?thesis by (cases "starts_with p ENTITY_SCHEME") (auto simp: strip_scheme_def)
qed

function pattern_covers :: "string \<Rightarrow> string \<Rightarrow> bool" where
  "pattern_covers parent_pattern child_pattern =
     (if parent_pattern = child_pattern then True
      else if parent_pattern \<in> set [''*'', ''/*/*''] then True
      else
        let p = strip_scheme parent_pattern; c = strip_scheme child_pattern in
        if ends_with p ''/*'' \<and>
             (starts_with c (butlast p) \<or> (ends_with c ''/*'' \<and> starts_with (butlast c) (butlast p)))
        then True
        else if starts_with p ''/*/'' \<and> starts_with c ''/'' then
          (case split_once (CHR ''/'') (drop 1 c) of
             (_, Some child_path) \<Rightarrow> pattern_covers (drop 3 p) child_path
           | (_, None) \<Rightarrow> False)
        else False)"
  by pat_completeness auto
termination
proof (relation "measure (\<lambda>(p, c). length p)", goal_cases)
  case (2 parent_pattern child_pattern p c pc x2 child_path)
  then have "3 \<le> length p" using prefix_length_le by fastforce
  then show ?case using strip_scheme_length [of parent_pattern] 2 by simp
qed simp

declare pattern_covers.simps [simp del]

definition scope_includes_subset :: "string list \<Rightarrow> string list \<Rightarrow> bool" where
  "scope_includes_subset child_includes parent_includes =
     list_all (\<lambda>child_pattern. list_ex (\<lambda>parent_pattern. pattern_covers parent_pattern child_pattern) parent_includes)
       child_includes"

text \<open>An empty \<open>local_peer_id\<close> means: do not canonicalise.\<close>

definition in_frame :: "string \<Rightarrow> string \<Rightarrow> string" where
  "in_frame p frame = (if frame \<noteq> [] then canonicalize p frame else p)"

definition scope_exclude_inherited :: "string \<Rightarrow> scope \<Rightarrow> string \<Rightarrow> bool" where
  "scope_exclude_inherited parent_exclude child_scope local_peer_id =
     list_ex (\<lambda>child_exclude. matches_pattern (in_frame child_exclude local_peer_id) parent_exclude)
       (excludes child_scope)"

definition id_scope_pattern_covers :: "string \<Rightarrow> string \<Rightarrow> bool" where
  "id_scope_pattern_covers outer inner =
     (if outer = ''*'' then True
      else if ends_with outer ''/*'' then starts_with inner (butlast outer)
      else inner = outer)"

definition id_scope_includes_subset :: "string list \<Rightarrow> string list \<Rightarrow> bool" where
  "id_scope_includes_subset child_includes parent_includes =
     list_all (\<lambda>cp. list_ex (\<lambda>pp. id_scope_pattern_covers pp cp) parent_includes) child_includes"

definition id_scope_exclude_inherited :: "string \<Rightarrow> scope \<Rightarrow> bool" where
  "id_scope_exclude_inherited parent_exclude child_scope =
     list_ex (\<lambda>child_exclude. id_scope_pattern_covers child_exclude parent_exclude) (excludes child_scope)"

definition peers_scope_or_default :: "grant \<Rightarrow> string \<Rightarrow> scope" where
  "peers_scope_or_default g local_peer_id =
     (case g_peers g of Some peers \<Rightarrow> peers | None \<Rightarrow> scope_of [local_peer_id])"

subsection \<open>Subset of a grant\<close>

text \<open>\<open>grant.get(key) or {}\<close>, and whether what is left is a dictionary.\<close>

definition or_empty_dict :: "val \<Rightarrow> (string \<times> val) list option" where
  "or_empty_dict v = (if \<not> truthy v then Some [] else case v of VDict d \<Rightarrow> Some d | _ \<Rightarrow> None)"

text \<open>Every key of \<open>a\<close> is in \<open>b\<close> with an equal value.\<close>

definition entries_kept :: "(string \<times> val) list \<Rightarrow> (string \<times> val) list \<Rightarrow> bool" where
  "entries_kept a b =
     list_all (\<lambda>(key, v). case map_of b key of None \<Rightarrow> False | Some w \<Rightarrow> py_eq v w) a"

definition constraints_kept :: "grant \<Rightarrow> grant \<Rightarrow> bool" where
  "constraints_kept child parent =
     (case (or_empty_dict (g_constraints parent), or_empty_dict (g_constraints child)) of
        (Some pc, Some cc) \<Rightarrow> entries_kept pc cc
      | _ \<Rightarrow> False)"

definition allowances_kept :: "grant \<Rightarrow> grant \<Rightarrow> bool" where
  "allowances_kept child parent =
     (case (or_empty_dict (g_allowances child), or_empty_dict (g_allowances parent)) of
        (Some ca, Some pa) \<Rightarrow> entries_kept ca pa
      | _ \<Rightarrow> False)"

definition grant_subset :: "grant \<Rightarrow> grant \<Rightarrow> string \<Rightarrow> string option \<Rightarrow> string option \<Rightarrow> bool" where
  "grant_subset child_grant parent_grant local_peer_id child_granter parent_granter =
     (let cf = or_local child_granter local_peer_id; pf = or_local parent_granter local_peer_id;
          child_handlers = get_scope (g_handlers child_grant);
          child_resources = get_scope (g_resources child_grant);
          child_operations = get_scope (g_operations child_grant);
          parent_handlers = get_scope (g_handlers parent_grant);
          parent_resources = get_scope (g_resources parent_grant);
          parent_operations = get_scope (g_operations parent_grant);
          child_peers = peers_scope_or_default child_grant local_peer_id;
          parent_peers = peers_scope_or_default parent_grant local_peer_id
      in if \<not> scope_includes_subset (sc_include child_handlers) (sc_include parent_handlers) then False
         else if \<not> id_scope_includes_subset (sc_include child_operations) (sc_include parent_operations) then False
         else if \<not> scope_includes_subset (map (\<lambda>r. in_frame r cf) (sc_include child_resources))
                     (map (\<lambda>r. in_frame r pf) (sc_include parent_resources)) then False
         else if \<not> list_all (\<lambda>e. scope_exclude_inherited e child_handlers local_peer_id)
                     (excludes parent_handlers) then False
         else if \<not> list_all (\<lambda>e. scope_exclude_inherited (in_frame e pf) child_resources cf)
                     (excludes parent_resources) then False
         else if \<not> list_all (\<lambda>e. id_scope_exclude_inherited e child_operations)
                     (excludes parent_operations) then False
         else if \<not> id_scope_includes_subset (sc_include child_peers) (sc_include parent_peers) then False
         else if \<not> list_all (\<lambda>e. id_scope_exclude_inherited e child_peers) (excludes parent_peers) then False
         else if \<not> constraints_kept child_grant parent_grant then False
         else allowances_kept child_grant parent_grant)"

definition grant_covered_by :: "grant \<Rightarrow> grant list \<Rightarrow> string \<Rightarrow> string option \<Rightarrow> string option \<Rightarrow> bool" where
  "grant_covered_by child_grant parent_grants local_peer_id child_granter parent_granter =
     (let cf = or_local child_granter local_peer_id; pf = or_local parent_granter local_peer_id in
      list_ex (\<lambda>parent_grant. grant_subset child_grant parent_grant local_peer_id (Some cf) (Some pf))
        parent_grants)"

subsection \<open>The whole token\<close>

text \<open>
  \<open>a > b\<close> on decoded values: numbers, strings, byte strings and lists compare with their own kind, any
  other pair raises \<open>TypeError\<close>.
\<close>

fun py_gt :: "val \<Rightarrow> val \<Rightarrow> bool result" and py_gt_list :: "val list \<Rightarrow> val list \<Rightarrow> bool result" where
  "py_gt (VStr s) (VStr t) = Inr (t < s)"
| "py_gt (VBytes s) (VBytes t) = Inr (t < s)"
| "py_gt (VList xs) (VList ys) = py_gt_list xs ys"
| "py_gt a b = (case (as_num a, as_num b) of (Some i, Some j) \<Rightarrow> Inr (j < i) | _ \<Rightarrow> Inl TypeError)"
| "py_gt_list [] ys = Inr False"
| "py_gt_list (x # xs) [] = Inr True"
| "py_gt_list (x # xs) (y # ys) = (if py_eq x y then py_gt_list xs ys else py_gt x y)"

datatype att_error = GrantNotCovered | ChildHasNoExpiry | ChildExpiresAfterParent

definition is_attenuated ::
  "cap_data \<Rightarrow> cap_data \<Rightarrow> string \<Rightarrow> string option \<Rightarrow> string option \<Rightarrow> att_error option result" where
  "is_attenuated child parent local_peer_id child_granter parent_granter =
     (let cf = or_local child_granter local_peer_id; pf = or_local parent_granter local_peer_id in
      if \<not> list_all (\<lambda>g. grant_covered_by g (cd_grants parent) local_peer_id (Some cf) (Some pf)) (cd_grants child)
      then Inr (Some GrantNotCovered)
      else
        let child_expires = field (cd_expires_at child); parent_expires = field (cd_expires_at parent) in
        if parent_expires \<noteq> VNull then
          (if child_expires = VNull then Inr (Some ChildHasNoExpiry)
           else bind_r (py_gt child_expires parent_expires)
                  (\<lambda>gt. if gt then Inr (Some ChildExpiresAfterParent) else Inr None))
        else Inr None)"

datatype caveat_error = NoDelegation | DepthExceedsLimit | InfiniteTTL | TTLExceedsLimit

text \<open>\<open>child_data.get("created_at", now)\<close>: the clock replaces an absent field, not a null one.\<close>

definition check_caveats :: "cap_data \<Rightarrow> cap_data \<Rightarrow> int \<Rightarrow> int \<Rightarrow> caveat_error option result" where
  "check_caveats parent child depth now =
     (case cd_caveats parent of
        None \<Rightarrow> Inr None
      | Some cav \<Rightarrow>
          if no_delegation cav = Some True then Inr (Some NoDelegation)
          else if (case max_delegation_depth cav of Some m \<Rightarrow> m \<le> depth | None \<Rightarrow> False)
          then Inr (Some DepthExceedsLimit)
          else
            (case max_delegation_ttl cav of
               None \<Rightarrow> Inr None
             | Some max_ttl \<Rightarrow>
                 let child_created = (case cd_created_at child of None \<Rightarrow> VInt now | Some v \<Rightarrow> v);
                     child_expires = field (cd_expires_at child)
                 in if child_expires = VNull then Inr (Some InfiniteTTL)
                    else (case (as_num child_expires, as_num child_created) of
                            (Some e, Some c) \<Rightarrow> if max_ttl < e - c then Inr (Some TTLExceedsLimit) else Inr None
                          | _ \<Rightarrow> Inl TypeError)))"

text \<open>\<open>_normalize_hash\<close> of a granter: bytes, or \<open>None\<close> (absent, or a multi-granter).\<close>

definition granter_hash :: "granter \<Rightarrow> bytes option" where
  "granter_hash g = (case g of HashGranter h \<Rightarrow> Some h | _ \<Rightarrow> None)"

datatype step_error = GranterNotGrantee | AttenuationFailed att_error | CaveatFailed caveat_error

definition validate_delegation :: "cap_data \<Rightarrow> cap_data \<Rightarrow> int \<Rightarrow> string \<Rightarrow> step_error option result" where
  "validate_delegation child parent now local_peer_id =
     (if granter_hash (cd_granter child) \<noteq> cd_grantee parent then Inr (Some GranterNotGrantee)
      else bind_r (is_attenuated child parent local_peer_id None None)
        (\<lambda>a. case a of
           Some e \<Rightarrow> Inr (Some (AttenuationFailed e))
         | None \<Rightarrow> bind_r (check_caveats parent child 0 now)
             (\<lambda>c. case c of Some e \<Rightarrow> Inr (Some (CaveatFailed e)) | None \<Rightarrow> Inr None)))"

subsection \<open>What makes a pattern language safe to delegate in\<close>

text \<open>
  The interface between a matcher and a coverage test: what a covered pattern matches, the covering
  one matches. The two inheritance arguments (includes, excludes) are proved from it once.
\<close>

locale pattern_language =
  fixes match_value :: "string \<Rightarrow> string \<Rightarrow> bool"
    and covers :: "string \<Rightarrow> string \<Rightarrow> bool"
    and ok_outer :: "string \<Rightarrow> bool"
    and ok_inner :: "string \<Rightarrow> bool"
    and ok_value :: "string \<Rightarrow> bool"
  assumes cover_sound:
    "covers p c \<Longrightarrow> ok_outer p \<Longrightarrow> ok_inner c \<Longrightarrow> ok_value v \<Longrightarrow> match_value c v \<Longrightarrow> match_value p v"
begin

lemma includes_sound:
  assumes "list_all (\<lambda>c. list_ex (\<lambda>p. covers p c) ps) cs"
    and "list_all ok_outer ps" and "list_all ok_inner cs" and "ok_value v"
    and "list_ex (\<lambda>c. match_value c v) cs"
  shows "list_ex (\<lambda>p. match_value p v) ps"
proof -
  from assms(5) obtain c where c: "c \<in> set cs" "match_value c v" by (auto simp: list_ex_iff)
  with assms(1) obtain p where "p \<in> set ps" "covers p c" by (auto simp: list_all_iff list_ex_iff)
  with c assms(2-4) cover_sound [of p c v] show ?thesis by (auto simp: list_all_iff list_ex_iff)
qed

lemma exclude_sound:
  assumes "list_ex (\<lambda>c. covers c e) cs" and "ok_inner e" and "list_all ok_outer cs" and "ok_value v"
    and "match_value e v"
  shows "list_ex (\<lambda>c. match_value c v) cs"
proof -
  from assms(1) obtain c where "c \<in> set cs" "covers c e" by (auto simp: list_ex_iff)
  with assms(2-5) cover_sound [of c e v] show ?thesis by (auto simp: list_all_iff list_ex_iff)
qed

end

subsection \<open>Facts on coverage\<close>

lemma matches_refl:
  assumes "p \<noteq> NEVER_MATCH" and "\<not> dslash p"
  shows "matches_pattern p p"
  using assms
proof (induction p rule: measure_induct_rule [of length])
  case (less p)
  show ?case
  proof (cases p rule: pattern_cases)
    case star
    then show ?thesis by (simp add: matches_star NEVER_MATCH_def)
  next
    case (peer r)
    then have pr: "peer_rest p = Some r" by (auto simp: peer_rest_Some)
    from peer_rest_no_dslash [OF pr less.prems(2)] less.IH [of r] have "matches_pattern r r"
      by (simp add: peer)
    with pr less.prems(1) show ?thesis by (simp add: peer matches_peer)
  next
    case (subtree q)
    have "prefix (q @ ''/'') (q @ ''/*'')" by simp
    then show ?thesis using subtree less.prems(1) matches_subtree [of q p] by simp
  next
    case exact
    with less.prems(1) show ?thesis by (simp add: matches_exact)
  qed
qed

lemma strip_scheme_id: "\<not> dslash p \<Longrightarrow> strip_scheme p = p"
proof -
  assume nd: "\<not> dslash p"
  have "\<not> starts_with p ENTITY_SCHEME"
  proof
    assume "starts_with p ENTITY_SCHEME"
    moreover have "dslash ENTITY_SCHEME" by (simp add: ENTITY_SCHEME_def)
    ultimately show False using nd dslash_prefix by blast
  qed
  then show ?thesis by (simp add: strip_scheme_def)
qed

lemma butlast_prefix: "prefix (butlast xs) xs"
  by (cases xs rule: rev_cases) auto

text \<open>One unfolding of the coverage test on patterns without an empty segment.\<close>

lemma pattern_covers_unfold:
  assumes "\<not> dslash p" and "\<not> dslash c"
  shows "pattern_covers p c \<longleftrightarrow> p = c \<or> p = ''*'' \<or> p = ''/*/*''
    \<or> (ends_with p ''/*'' \<and> starts_with c (butlast p))
    \<or> (\<exists>r c'. p = ''/*/'' @ r \<and> peer_rest c = Some c' \<and> pattern_covers r c')"
proof -
  have arm: "starts_with c (butlast p) \<or> (ends_with c ''/*'' \<and> starts_with (butlast c) (butlast p))
      \<longleftrightarrow> starts_with c (butlast p)"
    using butlast_prefix [of c] by (meson prefix_order.trans)
  have peer: "(case split_once (CHR ''/'') (drop 1 c) of (_, Some c') \<Rightarrow> pattern_covers r c' | (_, None) \<Rightarrow> False)
      \<longleftrightarrow> (\<exists>c'. peer_rest c = Some c' \<and> pattern_covers r c')" if "starts_with c ''/''" for r
  proof -
    from that obtain d where c: "c = CHR ''/'' # d" by (auto elim: prefixE)
    show ?thesis
    proof (cases "split_once (CHR ''/'') d")
      case (Pair a o')
      then show ?thesis by (cases o') (simp_all add: c peer_rest_def)
    qed
  qed
  have ns: "\<not> starts_with c ''/'' \<Longrightarrow> peer_rest c = None" by (simp add: peer_rest_def)
  have dr: "starts_with p ''/*/'' \<Longrightarrow> p = ''/*/'' @ drop 3 p" by (auto elim: prefixE)
  show ?thesis
    unfolding pattern_covers.simps [of p c] strip_scheme_id [OF assms(1)] strip_scheme_id [OF assms(2)]
      Let_def arm
    using peer ns dr by (auto split: if_splits)
qed

lemma peer_rest_matches_any:
  assumes "peer_rest u = Some r" and "\<not> dslash u"
  shows "matches_pattern ''/*/*'' u"
proof -
  from assms(1) obtain x where "u = CHR ''/'' # x @ CHR ''/'' # r" by (auto simp: peer_rest_Some)
  then have "u \<noteq> NEVER_MATCH" using never_match_single_segment [of x r] by simp
  with peer_rest_no_dslash [OF assms] assms(1) show ?thesis by (simp add: matches_peer matches_star)
qed

text \<open>
  Coverage is matching of the covered pattern as if it were a value, but for \<open>/*/*\<close>, which covers
  every pattern and only matches paths with two segments.
\<close>

lemma pattern_covers_matches:
  assumes "pattern_covers p c" and "\<not> dslash p" and "\<not> dslash c" and "c \<noteq> NEVER_MATCH"
    and "p \<noteq> ''/*/*'' \<or> peer_rest c \<noteq> None"
  shows "matches_pattern p c"
  using assms
proof (induction p arbitrary: c rule: measure_induct_rule [of length])
  case (less p)
  note nd = less.prems(2,3)
  from less.prems(1) consider
      "p = c" | "p = ''*''" | "p = ''/*/*''"
    | s where "p = s @ ''/*''" "starts_with c (s @ ''/'')" "\<not> starts_with p ''/*/''"
    | r where "p = ''/*/'' @ r" "starts_with c (butlast p)" "ends_with p ''/*''" "p \<noteq> ''/*/*''"
    | r c' where "p = ''/*/'' @ r" "peer_rest c = Some c'" "pattern_covers r c'"
  proof -
    assume cases: "p = c \<Longrightarrow> thesis" "p = ''*'' \<Longrightarrow> thesis" "p = ''/*/*'' \<Longrightarrow> thesis"
      "\<And>s. p = s @ ''/*'' \<Longrightarrow> starts_with c (s @ ''/'') \<Longrightarrow> \<not> starts_with p ''/*/'' \<Longrightarrow> thesis"
      "\<And>r. p = ''/*/'' @ r \<Longrightarrow> starts_with c (butlast p) \<Longrightarrow> ends_with p ''/*'' \<Longrightarrow> p \<noteq> ''/*/*'' \<Longrightarrow> thesis"
      "\<And>r c'. p = ''/*/'' @ r \<Longrightarrow> peer_rest c = Some c' \<Longrightarrow> pattern_covers r c' \<Longrightarrow> thesis"
    show thesis
    proof (cases "ends_with p ''/*'' \<and> starts_with c (butlast p)")
      case True
      then obtain s where s: "p = s @ ''/*''" by (auto elim: suffixE)
      then have "butlast p = s @ ''/''" by (simp add: butlast_append)
      show thesis
      proof (cases "starts_with p ''/*/''")
        case True
        then obtain r where r: "p = ''/*/'' @ r" by (rule prefixE)
        show thesis
        proof (cases "p = ''/*/*''")
          case True
          then show thesis by (rule cases(3))
        next
          case False
          then show thesis using cases(5) [OF r] \<open>ends_with p ''/*'' \<and> starts_with c (butlast p)\<close> by blast
        qed
      next
        case False
        then show thesis using cases(4) [OF s] True \<open>butlast p = s @ ''/''\<close> by simp
      qed
    next
      case False
      with less.prems(1) show thesis unfolding pattern_covers_unfold [OF nd] using cases by blast
    qed
  qed
  then show ?case
  proof cases
    case 1
    with less.prems(4) nd show ?thesis by (simp add: matches_refl)
  next
    case 2
    with less.prems(4) show ?thesis by (simp add: matches_star)
  next
    case 3
    with less.prems nd show ?thesis using peer_rest_matches_any by auto
  next
    case 4
    with less.prems(4) show ?thesis by (simp add: matches_subtree)
  next
    case 5
    then have "r \<noteq> ''*''" by auto
    with 5(1,3) have "ends_with r ''/*''"
      by (auto simp: suffix_def append_eq_append_conv2 Cons_eq_append_conv append_eq_Cons_conv)
    then obtain t where r: "r = t @ ''/*''" by (auto elim: suffixE)
    with 5(1,2) obtain c' where c: "c = ''/*/'' @ c'" and c': "starts_with c' (t @ ''/'')"
      by (auto simp: butlast_append elim!: prefixE)
    have pc: "peer_rest c = Some c'" unfolding peer_rest_Some c by (rule exI [of _ "''*''"]) simp
    have ndr: "\<not> dslash r" using nd(1) unfolding 5(1) by (auto dest: dslash_appendD)
    note c'n = peer_rest_no_dslash [OF pc nd(2)]
    have bl: "butlast r = t @ ''/''" by (simp add: r butlast_append)
    have "pattern_covers r c'"
      unfolding pattern_covers_unfold [OF ndr conjunct1 [OF c'n]] bl
      using c' \<open>ends_with r ''/*''\<close> by blast
    moreover have "r \<noteq> ''/*/*''" using nd(1) 5(1) by auto
    ultimately have "matches_pattern r c'" using less.IH [of r c'] ndr c'n 5(1) by simp
    with pc less.prems(4) show ?thesis by (simp add: 5(1) matches_peer)
  next
    case 6
    have ndr: "\<not> dslash r" using nd(1) unfolding 6(1) by (auto dest: dslash_appendD)
    note c'n = peer_rest_no_dslash [OF 6(2) nd(2)]
    have "r \<noteq> ''/*/*''" using nd(1) 6(1) by auto
    then have "matches_pattern r c'" using less.IH [of r c'] 6 ndr c'n by simp
    with 6 less.prems(4) show ?thesis by (simp add: matches_peer)
  qed
qed

lemma pattern_covers_sound:
  assumes "pattern_covers p c" and "\<not> dslash p" and "\<not> dslash c" and "\<not> dslash v"
    and "matches_pattern c v" and "p \<noteq> ''/*/*'' \<or> peer_rest v \<noteq> None"
  shows "matches_pattern p v"
proof (cases "p = ''/*/*''")
  case True
  with assms(4,6) show ?thesis using peer_rest_matches_any by auto
next
  case False
  have "c \<noteq> NEVER_MATCH" using assms(5) by auto
  with assms False have "matches_pattern p c" by (intro pattern_covers_matches) auto
  with assms(4,5) show ?thesis using matches_pattern_trans by blast
qed

text \<open>
  The three languages of the code, on its own definitions: id-scopes without any condition, resources
  (canonical paths below a peer), and handlers (where \<open>/*/*\<close> must be left out). The fourth one is the
  inheritance of excludes on paths, which uses the matcher itself as the coverage test.
\<close>

interpretation id_scopes: pattern_language id_scope_pattern_matches id_scope_pattern_covers
    "\<lambda>_. True" "\<lambda>_. True" "\<lambda>_. True"
proof
  fix p c v :: string
  assume "id_scope_pattern_covers p c" and m: "id_scope_pattern_matches c v"
  then have "id_scope_pattern_matches p c"
    by (simp add: id_scope_pattern_covers_def id_scope_pattern_matches_def)
  then show "id_scope_pattern_matches p v" using m by (rule id_scope_trans)
qed

interpretation resource_paths: pattern_language matches_pattern pattern_covers
    "\<lambda>p. \<not> dslash p" "\<lambda>c. \<not> dslash c" "\<lambda>v. \<not> dslash v \<and> peer_rest v \<noteq> None"
  by unfold_locales (auto intro: pattern_covers_sound)

interpretation handler_patterns: pattern_language matches_pattern pattern_covers
    "\<lambda>p. \<not> dslash p \<and> p \<noteq> ''/*/*''" "\<lambda>c. \<not> dslash c" "\<lambda>v. \<not> dslash v"
  by unfold_locales (auto intro: pattern_covers_sound)

interpretation inherited_paths: pattern_language matches_pattern matches_pattern
    "\<lambda>_. True" "\<lambda>_. True" "\<lambda>v. \<not> dslash v"
  by unfold_locales (auto intro: matches_pattern_trans)

subsection \<open>Facts on grants\<close>

text \<open>The patterns the soundness statements are about: without an empty segment.\<close>

definition plain_grant :: "grant \<Rightarrow> string \<Rightarrow> bool" where
  "plain_grant g frame \<longleftrightarrow>
     list_all (\<lambda>p. \<not> dslash p \<and> p \<noteq> ''/*/*'') (sc_include (get_scope (g_handlers g)))
     \<and> list_all (\<lambda>p. \<not> dslash (canonicalize p frame)) (sc_include (get_scope (g_resources g)))"

definition relative_name :: "string \<Rightarrow> bool" where
  "relative_name h \<longleftrightarrow> \<not> starts_with h ''/'' \<and> \<not> dslash h"

lemma grant_subset_iff:
  "grant_subset child parent l (Some cf) (Some pf) \<longleftrightarrow>
     scope_includes_subset (sc_include (get_scope (g_handlers child))) (sc_include (get_scope (g_handlers parent)))
     \<and> id_scope_includes_subset (sc_include (get_scope (g_operations child))) (sc_include (get_scope (g_operations parent)))
     \<and> scope_includes_subset (map (\<lambda>r. in_frame r cf) (sc_include (get_scope (g_resources child))))
         (map (\<lambda>r. in_frame r pf) (sc_include (get_scope (g_resources parent))))
     \<and> list_all (\<lambda>e. scope_exclude_inherited e (get_scope (g_handlers child)) l) (excludes (get_scope (g_handlers parent)))
     \<and> list_all (\<lambda>e. scope_exclude_inherited (in_frame e pf) (get_scope (g_resources child)) cf)
         (excludes (get_scope (g_resources parent)))
     \<and> list_all (\<lambda>e. id_scope_exclude_inherited e (get_scope (g_operations child))) (excludes (get_scope (g_operations parent)))
     \<and> id_scope_includes_subset (sc_include (peers_scope_or_default child l)) (sc_include (peers_scope_or_default parent l))
     \<and> list_all (\<lambda>e. id_scope_exclude_inherited e (peers_scope_or_default child l)) (excludes (peers_scope_or_default parent l))
     \<and> constraints_kept child parent \<and> allowances_kept child parent"
  by (simp add: grant_subset_def Let_def)

text \<open>The id dimensions, operations and peers, without any condition.\<close>

lemma id_dimension_sound:
  assumes "id_scope_includes_subset (sc_include cs) (sc_include ps)"
    and "list_all (\<lambda>e. id_scope_exclude_inherited e cs) (excludes ps)" and "matches_id_scope cs v"
  shows "matches_id_scope ps v"
proof -
  from assms(3) have inc: "list_ex (\<lambda>p. id_scope_pattern_matches p v) (sc_include cs)"
    and exc: "\<not> list_ex (\<lambda>p. id_scope_pattern_matches p v) (excludes cs)"
    by (auto simp: matches_id_scope_def split: if_splits)
  have "list_ex (\<lambda>p. id_scope_pattern_matches p v) (sc_include ps)"
    by (rule id_scopes.includes_sound [OF _ _ _ _ inc])
      (use assms(1) in \<open>simp_all add: id_scope_includes_subset_def list_all_iff\<close>)
  moreover have "\<not> id_scope_pattern_matches e v" if "e \<in> set (excludes ps)" for e
    using id_scopes.exclude_sound [of e "excludes cs" v] assms(2) that exc
    by (auto simp: list_all_iff id_scope_exclude_inherited_def)
  ultimately show ?thesis by (auto simp: matches_id_scope_def list_ex_iff)
qed

lemma grant_allows_peer_eq: "grant_allows_peer g q l = matches_id_scope (peers_scope_or_default g l) q"
  by (simp add: grant_allows_peer_def peers_scope_or_default_def Let_def split: option.split)

text \<open>A pattern that matches a relative name is itself relative, and so never inherited as an exclude.\<close>

lemma relative_pattern:
  assumes "matches_pattern e h" and "\<not> starts_with h ''/''"
  shows "\<not> starts_with e ''/''"
proof (cases e rule: pattern_cases)
  case (peer r)
  with assms show ?thesis by (simp add: matches_peer peer_rest_def)
next
  case (subtree q)
  with assms(1) have "starts_with h (q @ ''/'')" by (simp add: matches_subtree)
  with assms(2) subtree(1) show ?thesis by (cases q) (auto elim!: prefixE)
qed (use assms in \<open>auto simp: matches_exact\<close>)

lemma absolute_not_matches_relative:
  assumes "starts_with p ''/''" and "\<not> starts_with e ''/''"
  shows "\<not> matches_pattern p e"
  using relative_pattern assms by blast

lemma in_frame_absolute: "frame \<noteq> [] \<Longrightarrow> starts_with (in_frame p frame) ''/''"
  by (simp add: in_frame_def canonicalize_absolute)

lemma relative_exclude_not_inherited:
  "l \<noteq> [] \<Longrightarrow> \<not> starts_with e ''/'' \<Longrightarrow> \<not> scope_exclude_inherited e sc l"
  using absolute_not_matches_relative in_frame_absolute
  by (auto simp: scope_exclude_inherited_def list_ex_iff)

lemma unmatchable_relative_or_never:
  "is_unmatchable_pattern e \<Longrightarrow> e = NEVER_MATCH \<or> \<not> starts_with e ''/''"
proof -
  assume u: "is_unmatchable_pattern e"
  have "canonicalize e l = e" if "starts_with e ''/''" for l
    using that canonicalize_abs_id by (auto elim!: prefixE)
  with u show ?thesis by (auto simp: is_unmatchable_pattern_def)
qed

lemma handler_dimension_sound:
  assumes "scope_includes_subset (sc_include cs) (sc_include ps)"
    and "list_all (\<lambda>e. scope_exclude_inherited e cs l) (excludes ps)" and "l \<noteq> []"
    and "list_all (\<lambda>p. \<not> dslash p \<and> p \<noteq> ''/*/*'') (sc_include ps)" and "list_all (\<lambda>p. \<not> dslash p) (sc_include cs)"
    and h: "relative_name h" and m: "matches_scope cs h"
  shows "matches_scope ps h"
proof -
  from m have inc: "list_ex (\<lambda>p. matches_pattern p h) (sc_include cs)"
    by (auto simp: matches_scope_def split: if_splits)
  have "list_ex (\<lambda>p. matches_pattern p h) (sc_include ps)"
    by (rule handler_patterns.includes_sound [OF _ _ _ _ inc])
      (use assms(1,4,5) h in \<open>simp_all add: scope_includes_subset_def relative_name_def\<close>)
  moreover have "\<not> is_unmatchable_pattern e \<and> \<not> matches_pattern e h" if e: "e \<in> set (excludes ps)" for e
  proof -
    from assms(2) e have i: "scope_exclude_inherited e cs l" by (simp add: list_all_iff)
    then have "starts_with e ''/''" using relative_exclude_not_inherited assms(3) by blast
    moreover have "e \<noteq> NEVER_MATCH" using i by (auto simp: scope_exclude_inherited_def list_ex_iff)
    ultimately show ?thesis
      using unmatchable_relative_or_never relative_pattern h by (auto simp: relative_name_def)
  qed
  ultimately show ?thesis by (auto simp: matches_scope_def list_ex_iff)
qed

lemma resource_dimension_sound:
  assumes "scope_includes_subset (map (\<lambda>r. in_frame r cf) (sc_include cs)) (map (\<lambda>r. in_frame r pf) (sc_include ps))"
    and "list_all (\<lambda>e. scope_exclude_inherited (in_frame e pf) cs cf) (excludes ps)"
    and f: "cf \<noteq> []" "pf \<noteq> []"
    and "list_all (\<lambda>p. \<not> dslash (canonicalize p cf)) (sc_include cs)"
    and "list_all (\<lambda>p. \<not> dslash (canonicalize p pf)) (sc_include ps)"
    and u: "\<not> dslash u" "peer_rest u \<noteq> None" "\<not> is_pattern u"
    and inc: "resource_included cs cf u" and exc: "\<not> path_excluded cs cf u"
  shows "resource_included ps pf u \<and> \<not> path_excluded ps pf u"
proof
  have cm: "list_ex (\<lambda>c. matches_pattern c u) (map (\<lambda>r. in_frame r cf) (sc_include cs))"
    using inc f by (auto simp: resource_included_def list_ex_iff in_frame_def)
  have "list_ex (\<lambda>c. matches_pattern c u) (map (\<lambda>r. in_frame r pf) (sc_include ps))"
    by (rule resource_paths.includes_sound [OF _ _ _ _ cm])
      (use assms(1,5,6) f u in \<open>simp_all add: scope_includes_subset_def list_all_iff in_frame_def\<close>)
  then show "resource_included ps pf u" using f by (auto simp: resource_included_def list_ex_iff in_frame_def)
next
  show "\<not> path_excluded ps pf u"
  proof
    assume "path_excluded ps pf u"
    with u(3) obtain e where e: "e \<in> set (excludes ps)"
      and hit: "canonicalize e pf = NEVER_MATCH \<or> matches_pattern (canonicalize e pf) u"
      by (auto simp: path_excluded_iff)
    with assms(2) f have i: "list_ex (\<lambda>c. matches_pattern c (canonicalize e pf)) (map (\<lambda>c. canonicalize c cf) (excludes cs))"
      by (auto simp: list_all_iff scope_exclude_inherited_def list_ex_iff in_frame_def)
    then have "canonicalize e pf \<noteq> NEVER_MATCH" by (auto simp: list_ex_iff)
    with hit have "list_ex (\<lambda>c. matches_pattern c u) (map (\<lambda>c. canonicalize c cf) (excludes cs))"
      using inherited_paths.exclude_sound [OF i] u(1) by (simp add: list_all_iff)
    with exc u(3) show False by (auto simp: path_excluded_iff list_ex_iff)
  qed
qed

lemma grant_subset_sound:
  assumes sub: "grant_subset child parent l (Some cf) (Some pf)"
    and f: "l \<noteq> []" "cf \<noteq> []" "pf \<noteq> []" and plain: "plain_grant child cf" "plain_grant parent pf"
    and h: "relative_name h" and u: "\<not> dslash u" "peer_rest u \<noteq> None" "\<not> is_pattern u"
    and cov: "grant_covers_target child h op u [] l cf tp relax"
  shows "grant_covers_target parent h op u [] l pf tp relax"
proof -
  note s = sub [unfolded grant_subset_iff]
  from cov have m: "matches_scope (get_scope (g_handlers child)) h"
    "matches_id_scope (get_scope (g_operations child)) op"
    "relax \<or> grant_allows_peer child (or_local tp l) l"
    "resource_included (get_scope (g_resources child)) cf u"
    "\<not> path_excluded (get_scope (g_resources child)) cf u"
    by (auto simp: grant_covers_target_def resource_excluded_no_caller split: if_splits)
  have "matches_scope (get_scope (g_handlers parent)) h"
    by (rule handler_dimension_sound [of "get_scope (g_handlers child)" _ l])
      (use s f plain h m(1) in \<open>simp_all add: plain_grant_def list_all_iff\<close>)
  moreover have "matches_id_scope (get_scope (g_operations parent)) op"
    by (rule id_dimension_sound [of "get_scope (g_operations child)"]) (use s m(2) in simp_all)
  moreover have "relax \<or> grant_allows_peer parent (or_local tp l) l"
    using m(3) s id_dimension_sound [of "peers_scope_or_default child l" "peers_scope_or_default parent l"]
    by (auto simp: grant_allows_peer_eq)
  moreover have "resource_included (get_scope (g_resources parent)) pf u
      \<and> \<not> path_excluded (get_scope (g_resources parent)) pf u"
    by (rule resource_dimension_sound [of cf "get_scope (g_resources child)"])
      (use s f plain u m(4,5) in \<open>simp_all add: plain_grant_def\<close>)
  ultimately show ?thesis
    by (auto simp: grant_covers_target_def resource_excluded_no_caller)
qed

lemma is_attenuated_None:
  "is_attenuated child parent l (Some cf) (Some pf) = Inr None \<longleftrightarrow>
     list_all (\<lambda>g. grant_covered_by g (cd_grants parent) l (Some cf) (Some pf)) (cd_grants child)
     \<and> (field (cd_expires_at parent) = VNull \<or>
         field (cd_expires_at child) \<noteq> VNull
         \<and> py_gt (field (cd_expires_at child)) (field (cd_expires_at parent)) = Inr False)"
  by (auto simp: is_attenuated_def exn_simps Let_def split: if_splits)

lemma py_gt_int: "py_gt (VInt i) (VInt j) = Inr (j < i)"
  by simp

subsection \<open>Properties\<close>



text \<open>
  The exception for \<open>/*/*\<close> is real: as a handler pattern it matches no handler name, yet
  \<open>pattern_covers\<close> accepts every child pattern under it, so a parent grant that authorises no handler at
  all may be delegated as one that authorises \<open>system/tree\<close>.
\<close>

theorem peer_wildcard_handler_widens:
  "let parent = demo_grant [''*''] [] \<lparr>g_handlers := Some (scope_of [''/*/*''])\<rparr>;
       child = demo_grant [''*''] [] \<lparr>g_handlers := Some (scope_of [''system/tree''])\<rparr>;
       u = CHR ''/'' # demo_peer @ ''/x''
   in is_attenuated (demo_cap [child]) (demo_cap [parent]) demo_peer None None = Inr None
      \<and> check_path_permission (demo_cap [child]) ''get'' u demo_peer (Some ''system/tree'') 5 None
      \<and> \<not> check_path_permission (demo_cap [parent]) ''get'' u demo_peer (Some ''system/tree'') 5 None
      \<and> \<not> check_handler_scope (demo_cap [parent]) ''system/tree'' ''get'' demo_peer 5 None False"
  by code_simp

text \<open>
  A handler exclude stops delegation altogether: the child's excludes are canonicalised into the
  local peer's namespace before they are compared with the parent's exclude as written, so a parent
  grant with a relative handler exclude has no subset at all, not even itself; whatever the child
  writes, the delegation is refused.
\<close>

theorem handler_exclude_blocks_delegation:
  assumes "e \<in> set (excludes (get_scope (g_handlers parent)))" and "\<not> starts_with e ''/''" and "l \<noteq> []"
  shows "\<not> grant_subset child parent l (Some cf) (Some pf)"
  using assms relative_exclude_not_inherited [OF assms(3,2)]
  by (auto simp: grant_subset_iff list_all_iff)

theorem handler_exclude_blocks_delegation_witness:
  "let g = demo_grant [''*''] [] \<lparr>g_handlers := Some \<lparr>sc_include = [''*''], sc_exclude = Some [''system/role'']\<rparr>\<rparr>
   in \<not> grant_subset g g demo_peer (Some demo_peer) (Some demo_peer)"
proof -
  let ?g = "demo_grant [''*''] [] \<lparr>g_handlers := Some \<lparr>sc_include = [''*''], sc_exclude = Some [''system/role'']\<rparr>\<rparr>"
  have "''system/role'' \<in> set (excludes (get_scope (g_handlers ?g)))" by simp
  moreover have "demo_peer \<noteq> []" by code_simp
  ultimately show ?thesis using handler_exclude_blocks_delegation [of "''system/role''" ?g demo_peer] by simp
qed

text \<open>
  What one accepted delegation step guarantees besides the grants: the child was granted by the
  parent's grantee; every constraint of the covering parent grant is kept with its value and the child
  has no allowance the parent lacks; no caveat of the parent is violated: delegation is not forbidden,
  a depth limit is positive, and under a lifetime limit the child expires within that limit of its
  creation.
\<close>

theorem validate_delegation_guarantees:
  assumes "validate_delegation child parent now l = Inr None"
  shows "granter_hash (cd_granter child) = cd_grantee parent
    \<and> (\<forall>c \<in> set (cd_grants child). \<exists>g \<in> set (cd_grants parent).
         grant_subset c g l None None \<and> constraints_kept c g \<and> allowances_kept c g)
    \<and> (\<forall>cav. cd_caveats parent = Some cav \<longrightarrow>
         no_delegation cav \<noteq> Some True
         \<and> (\<forall>m. max_delegation_depth cav = Some m \<longrightarrow> 0 < m)
         \<and> (\<forall>m. max_delegation_ttl cav = Some m \<longrightarrow>
              (\<exists>e c. as_num (field (cd_expires_at child)) = Some e \<and> e - c \<le> m
                 \<and> as_num (case cd_created_at child of None \<Rightarrow> VInt now | Some v \<Rightarrow> v) = Some c)))"
proof -
  from assms have hash: "granter_hash (cd_granter child) = cd_grantee parent"
    and att: "is_attenuated child parent l None None = Inr None"
    and cav: "check_caveats parent child 0 now = Inr None"
    by (auto simp: validate_delegation_def exn_simps split: if_splits option.splits)
  have dflt: "is_attenuated child parent l None None = is_attenuated child parent l (Some l) (Some l)"
    "grant_subset c g l None None = grant_subset c g l (Some l) (Some l)" for c g
    by (simp_all add: is_attenuated_def grant_subset_def)
  have "\<exists>g \<in> set (cd_grants parent). grant_subset c g l None None \<and> constraints_kept c g \<and> allowances_kept c g"
    if "c \<in> set (cd_grants child)" for c
    using att that unfolding dflt
    by (auto simp: is_attenuated_None list_all_iff grant_covered_by_def list_ex_iff grant_subset_iff)
  moreover have "no_delegation cv \<noteq> Some True
         \<and> (\<forall>m. max_delegation_depth cv = Some m \<longrightarrow> 0 < m)
         \<and> (\<forall>m. max_delegation_ttl cv = Some m \<longrightarrow>
              (\<exists>e c. as_num (field (cd_expires_at child)) = Some e \<and> e - c \<le> m
                 \<and> as_num (case cd_created_at child of None \<Rightarrow> VInt now | Some v \<Rightarrow> v) = Some c))"
    if "cd_caveats parent = Some cv" for cv
    using cav that by (auto simp: check_caveats_def Let_def split: if_splits option.splits)
  ultimately show ?thesis using hash by blast
qed

theorem validate_delegation_guarantees_witness:
  "let parent = demo_cap [demo_grant [''*''] []] \<lparr>cd_grantee := Some [1],
         cd_caveats := Some \<lparr>no_delegation = Some False, max_delegation_depth = Some 1, max_delegation_ttl = Some 100\<rparr>\<rparr>;
       child = demo_cap [demo_grant [''a/*''] []] \<lparr>cd_expires_at := Some (VInt 90)\<rparr>
   in validate_delegation child parent 5 demo_peer = Inr None
      \<and> grant_subset (demo_grant [''a/*''] []) (demo_grant [''*''] []) demo_peer None None"
proof -
  let ?parent = "demo_cap [demo_grant [''*''] []] \<lparr>cd_grantee := Some [1],
         cd_caveats := Some \<lparr>no_delegation = Some False, max_delegation_depth = Some 1, max_delegation_ttl = Some 100\<rparr>\<rparr>"
  let ?child = "demo_cap [demo_grant [''a/*''] []] \<lparr>cd_expires_at := Some (VInt 90)\<rparr>"
  have v: "validate_delegation ?child ?parent 5 demo_peer = Inr None" by code_simp
  from validate_delegation_guarantees [OF v] v show ?thesis by (simp add: demo_cap_def)
qed

end
