(* ===== verification/Chain.thy ===== *)
theory Chain
  imports Attenuation
begin

section \<open>Authority chains\<close>

text \<open>
  The first half of \<open>capability/delegation.py\<close>: collecting a chain from leaf to root, the chain
  verification of a dispatched request, creator authority, and the bundle of entities that proves a
  chain. An entity dictionary is a record with its \<open>type\<close>, its \<open>content_hash\<close> (\<open>None\<close> when absent or
  not bytes) and the views of its \<open>data\<close> dictionary the code reads by key. The stores, the signature
  finders, the clock and the crypto libraries are the fields of an environment.
\<close>

record sig_data =
  sg_target :: "bytes option"
  sg_signer :: "bytes option"
  sg_signature :: "val option"

record entity =
  e_type :: string
  e_hash :: "bytes option"
  e_cap :: cap_data
  e_peer :: peer_data
  e_sig :: sig_data

text \<open>\<open>verify\<close> of the two signature libraries, with the exceptions of loading a key; \<open>b64decode\<close>.\<close>

record siglib =
  ed25519_verify :: "bytes \<Rightarrow> bytes \<Rightarrow> bytes \<Rightarrow> bool result"
  ed448_verify :: "bytes \<Rightarrow> bytes \<Rightarrow> bytes \<Rightarrow> bool result"
  b64decode :: "string \<Rightarrow> bytes option"

record chain_env =
  ce_lookup :: "bytes \<Rightarrow> entity option"
  ce_find_signature :: "bytes \<Rightarrow> entity option"
  ce_find_by_signer :: "(bytes \<Rightarrow> bytes \<Rightarrow> entity option) option"
  ce_local :: string
  ce_now :: int
  ce_hashlib :: hashlib
  ce_base58 :: base58lib
  ce_siglib :: siglib
  ce_ecf :: "entity \<Rightarrow> bytes"
  ce_algorithm :: int

definition peer_id_of :: "chain_env \<Rightarrow> entity \<Rightarrow> string result" where
  "peer_id_of env e = peer_id_from_identity_entity (ce_hashlib env) (ce_base58 env) (e_peer e)"

subsection \<open>Collecting the chain\<close>

datatype collected = Collected "entity list" | Unreachable bytes | TooDeep

function collect_from ::
  "(bytes \<Rightarrow> entity option) \<Rightarrow> nat \<Rightarrow> entity \<Rightarrow> nat \<Rightarrow> entity list \<Rightarrow> collected" where
  "collect_from lookup max_depth current depth chain =
     (if max_depth < depth then TooDeep
      else case cd_parent (e_cap current) of
             None \<Rightarrow> Collected (chain @ [current])
           | Some parent_hash \<Rightarrow>
               if parent_hash = [] then Collected (chain @ [current])
               else (case lookup parent_hash of
                       None \<Rightarrow> Unreachable parent_hash
                     | Some parent \<Rightarrow> collect_from lookup max_depth parent (depth + 1) (chain @ [current])))"
  by pat_completeness auto
termination
  by (relation "measure (\<lambda>(_, max_depth, _, depth, _). max_depth + 1 - depth)") auto

declare collect_from.simps [simp del]

definition collect_authority_chain :: "entity \<Rightarrow> (bytes \<Rightarrow> entity option) \<Rightarrow> nat \<Rightarrow> collected" where
  "collect_authority_chain capability lookup max_depth = collect_from lookup max_depth capability 0 []"

subsection \<open>Signatures\<close>

definition find_signature_by_signer :: "bytes option \<Rightarrow> bytes option \<Rightarrow> entity list \<Rightarrow> entity option" where
  "find_signature_by_signer target_hash signer_hash included =
     (case (target_hash, signer_hash) of
        (Some target, Some signer) \<Rightarrow>
          find (\<lambda>e. e_type e = ''system/signature'' \<and> sg_target (e_sig e) = Some target
                   \<and> sg_signer (e_sig e) = Some signer) included
      | _ \<Rightarrow> None)"

definition decode_raw :: "siglib \<Rightarrow> val \<Rightarrow> bytes option" where
  "decode_raw S raw = (case raw of VBytes b \<Rightarrow> Some b | VStr s \<Rightarrow> b64decode S s | _ \<Rightarrow> None)"

definition decode_signature_bytes :: "siglib \<Rightarrow> sig_data \<Rightarrow> bytes option" where
  "decode_signature_bytes S sd = decode_raw S (field (sg_signature sd))"

definition decode_public_key_bytes :: "siglib \<Rightarrow> peer_data \<Rightarrow> bytes option" where
  "decode_public_key_bytes S pd = decode_raw S (field (pd_public_key pd))"

definition verify_for_key_type :: "siglib \<Rightarrow> int \<Rightarrow> bytes \<Rightarrow> bytes \<Rightarrow> bytes \<Rightarrow> bool result" where
  "verify_for_key_type S key_type public_key_bytes message signature =
     (if key_type = KEY_TYPE_ED25519 then ed25519_verify S public_key_bytes message signature
      else if key_type = KEY_TYPE_ED448 then ed448_verify S public_key_bytes message signature
      else Inl ValueError)"

text \<open>Every exception on the way is caught: \<open>False\<close>.\<close>

definition verify_signer_signed_target ::
  "siglib \<Rightarrow> bytes \<Rightarrow> bytes option \<Rightarrow> entity option \<Rightarrow> entity option \<Rightarrow> bool" where
  "verify_signer_signed_target S target_hash signer_hash sig identity_entity =
     (case (sig, identity_entity) of
        (Some sg, Some ident) \<Rightarrow>
          (case (sg_target (e_sig sg), sg_signer (e_sig sg)) of
             (Some sig_target, Some sig_signer) \<Rightarrow>
               if sig_target \<noteq> target_hash then False
               else if Some sig_signer \<noteq> signer_hash then False
               else (case (decode_public_key_bytes S (e_peer ident), decode_signature_bytes S (e_sig sg)) of
                       (Some pub_bytes, Some sig_bytes) \<Rightarrow>
                         bind_r (key_type_byte_from_entity_data
                                   (case pd_key_type (e_peer ident) of None \<Rightarrow> VStr ''ed25519'' | Some kt \<Rightarrow> kt))
                           (\<lambda>kt. verify_for_key_type S kt pub_bytes target_hash sig_bytes) = Inr True
                     | _ \<Rightarrow> False)
           | _ \<Rightarrow> False)
      | _ \<Rightarrow> False)"

subsection \<open>Verification: the passes before the links\<close>

datatype chain_error =
    ChainTooDeep | ParentNotFound bytes | EmptyChain | FormatCodeFreeze
  | UnmatchablePattern dimension side string | UnresolvableGrantee
  | InvalidMultiGranter multi_error | MultiGranterNotRoot | MultiGrantee
  | NoBySignerFinder | ThresholdNotMet | SignatureNotFound | SignerNotGranter | GranterNotFound
  | InvalidSignature | TokenTemporal temporal_reason | RootNotLocal
  | LinkBroken | AttenuationError att_error | CaveatViolated caveat_error

text \<open>A rejection carries the depth it reports.\<close>

type_synonym rejection = "chain_error \<times> nat"

definition link_content_hash :: "chain_env \<Rightarrow> entity \<Rightarrow> bytes option" where
  "link_content_hash env e =
     (case e_hash e of
        Some h \<Rightarrow> Some h
      | None \<Rightarrow> (case compute_ecf_hash (ce_hashlib env) (ce_ecf env) e (ce_algorithm env) of
                   Inr h \<Rightarrow> Some h | Inl _ \<Rightarrow> None))"

fun format_freeze_from :: "chain_env \<Rightarrow> byte option \<Rightarrow> entity list \<Rightarrow> bool" where
  "format_freeze_from env first_format [] = True"
| "format_freeze_from env first_format (link # chain) =
     (case link_content_hash env link of
        None \<Rightarrow> format_freeze_from env first_format chain
      | Some [] \<Rightarrow> format_freeze_from env first_format chain
      | Some (link_format # _) \<Rightarrow>
          (case first_format of
             None \<Rightarrow> format_freeze_from env (Some link_format) chain
           | Some f \<Rightarrow> if link_format \<noteq> f then False else format_freeze_from env first_format chain))"

definition check_chain_format_code_freeze :: "chain_env \<Rightarrow> entity list \<Rightarrow> rejection option" where
  "check_chain_format_code_freeze env chain =
     (if format_freeze_from env None chain then None else Some (FormatCodeFreeze, length chain))"

fun unmatchable_pass :: "nat \<Rightarrow> entity list \<Rightarrow> rejection option" where
  "unmatchable_pass depth [] = None"
| "unmatchable_pass depth (current # chain) =
     (case unmatchable_scope_pattern (cd_grants (e_cap current)) of
        Some (dim, sd, pattern) \<Rightarrow> Some (UnmatchablePattern dim sd pattern, depth)
      | None \<Rightarrow> unmatchable_pass (depth + 1) chain)"

fun grantee_pass :: "chain_env \<Rightarrow> nat \<Rightarrow> entity list \<Rightarrow> rejection option" where
  "grantee_pass env depth [] = None"
| "grantee_pass env depth (current # chain) =
     (case cd_grantee (e_cap current) of
        None \<Rightarrow> Some (UnresolvableGrantee, depth)
      | Some h \<Rightarrow> if ce_lookup env h = None then Some (UnresolvableGrantee, depth)
                  else grantee_pass env (depth + 1) chain)"

text \<open>M3: an absent, null or empty parent is falsy.\<close>

definition has_parent :: "cap_data \<Rightarrow> bool" where
  "has_parent cd = (case cd_parent cd of None \<Rightarrow> False | Some p \<Rightarrow> p \<noteq> [])"

fun multi_pass :: "nat \<Rightarrow> entity list \<Rightarrow> rejection option" where
  "multi_pass depth [] = None"
| "multi_pass depth (current # chain) =
     (let cd = e_cap current in
      if \<not> is_multi_granter (cd_granter cd) then multi_pass (depth + 1) chain
      else case validate_multi_granter (cd_granter cd) True of
             Some err \<Rightarrow> Some (InvalidMultiGranter err, depth)
           | None \<Rightarrow>
               if has_parent cd then Some (MultiGranterNotRoot, depth)
               else if cd_grantee cd = None then Some (MultiGrantee, depth)
               else multi_pass (depth + 1) chain)"

subsection \<open>Verification: one link\<close>

text \<open>\<open>lookup(None)\<close> finds nothing.\<close>

definition lookup_opt :: "chain_env \<Rightarrow> bytes option \<Rightarrow> entity option" where
  "lookup_opt env h = (case h of None \<Rightarrow> None | Some x \<Rightarrow> ce_lookup env x)"

text \<open>M4: the signatures of distinct signers that verify, counted up to the threshold.\<close>

fun count_signatures ::
  "chain_env \<Rightarrow> (bytes \<Rightarrow> bytes \<Rightarrow> entity option) \<Rightarrow> bytes \<Rightarrow> int \<Rightarrow> bytes list \<Rightarrow> int \<Rightarrow> bytes list \<Rightarrow> int" where
  "count_signatures env finder h threshold seen valid_count [] = valid_count"
| "count_signatures env finder h threshold seen valid_count (candidate # signers) =
     (if candidate \<in> set seen then count_signatures env finder h threshold seen valid_count signers
      else case ce_lookup env candidate of
        None \<Rightarrow> count_signatures env finder h threshold (candidate # seen) valid_count signers
      | Some ident \<Rightarrow>
          (case finder h candidate of
             None \<Rightarrow> count_signatures env finder h threshold (candidate # seen) valid_count signers
           | Some sg \<Rightarrow>
               if verify_signer_signed_target (ce_siglib env) h (Some candidate) (Some sg) (Some ident)
               then (if threshold \<le> valid_count + 1 then valid_count + 1
                     else count_signatures env finder h threshold (candidate # seen) (valid_count + 1) signers)
               else count_signatures env finder h threshold (candidate # seen) valid_count signers))"

text \<open>
  The signature check of a link, which runs when the link carries a content hash. Its second result is
  the loop variable \<open>granter_identity\<close>, which keeps its value from an earlier link when the check does
  not assign it; \<open>None\<close> is the unbound variable.
\<close>

definition check_link_signature :: "chain_env \<Rightarrow> entity \<Rightarrow> entity option \<Rightarrow> chain_error + entity option" where
  "check_link_signature env current granter_identity =
     (case e_hash current of
        None \<Rightarrow> Inr granter_identity
      | Some h \<Rightarrow>
          if h = [] then Inr granter_identity
          else case get_multi_granter (cd_granter (e_cap current)) of
            Some (signers, threshold) \<Rightarrow>
              (case ce_find_by_signer env of
                 None \<Rightarrow> Inl NoBySignerFinder
               | Some finder \<Rightarrow>
                   if count_signatures env finder h threshold [] 0 signers < threshold then Inl ThresholdNotMet
                   else Inr granter_identity)
          | None \<Rightarrow>
              (case ce_find_signature env h of
                 None \<Rightarrow> Inl SignatureNotFound
               | Some sg \<Rightarrow>
                   let gh = granter_hash (cd_granter (e_cap current)) in
                   if sg_signer (e_sig sg) \<noteq> gh then Inl SignerNotGranter
                   else (case lookup_opt env gh of
                           None \<Rightarrow> Inl GranterNotFound
                         | Some ident \<Rightarrow>
                             if verify_signer_signed_target (ce_siglib env) h gh (Some sg) (Some ident)
                             then Inr (Some ident) else Inl InvalidSignature)))"

text \<open>M6: the local peer must be a signer of a multi-signature root, and have signed.\<close>

fun local_signed ::
  "chain_env \<Rightarrow> (bytes \<Rightarrow> bytes \<Rightarrow> entity option) \<Rightarrow> bytes option \<Rightarrow> bytes list \<Rightarrow> bool result" where
  "local_signed env finder h [] = Inr False"
| "local_signed env finder h (candidate # signers) =
     (case ce_lookup env candidate of
        None \<Rightarrow> local_signed env finder h signers
      | Some ident \<Rightarrow>
          bind_r (peer_id_of env ident) (\<lambda>candidate_peer_id.
            if candidate_peer_id \<noteq> ce_local env then local_signed env finder h signers
            else case h of
              None \<Rightarrow> local_signed env finder h signers
            | Some hash \<Rightarrow>
                if hash = [] then local_signed env finder h signers
                else (case finder hash candidate of
                        None \<Rightarrow> local_signed env finder h signers
                      | Some sg \<Rightarrow>
                          if verify_signer_signed_target (ce_siglib env) hash (Some candidate) (Some sg) (Some ident)
                          then Inr True else local_signed env finder h signers)))"

definition check_root :: "chain_env \<Rightarrow> entity \<Rightarrow> chain_error option result" where
  "check_root env current =
     (case get_multi_granter (cd_granter (e_cap current)) of
        Some (signers, _) \<Rightarrow>
          (case ce_find_by_signer env of
             None \<Rightarrow> Inr (Some NoBySignerFinder)
           | Some finder \<Rightarrow>
               bind_r (local_signed env finder (e_hash current) signers)
                 (\<lambda>ok. if ok then Inr None else Inr (Some RootNotLocal)))
      | None \<Rightarrow>
          (case lookup_opt env (granter_hash (cd_granter (e_cap current))) of
             None \<Rightarrow> Inr (Some GranterNotFound)
           | Some ident \<Rightarrow>
               bind_r (peer_id_of env ident)
                 (\<lambda>p. if p \<noteq> ce_local env then Inr (Some RootNotLocal) else Inr None)))"

text \<open>The frame of a granter: its peer id, or the local peer where it cannot be had.\<close>

definition identity_frame :: "chain_env \<Rightarrow> entity option \<Rightarrow> string" where
  "identity_frame env ident =
     (case ident of
        None \<Rightarrow> ce_local env
      | Some e \<Rightarrow> (case peer_id_of env e of Inr p \<Rightarrow> p | Inl _ \<Rightarrow> ce_local env))"

definition check_link ::
  "chain_env \<Rightarrow> entity \<Rightarrow> entity \<Rightarrow> entity option \<Rightarrow> nat \<Rightarrow> chain_error option result" where
  "check_link env current parent granter_identity depth =
     (if cd_grantee (e_cap parent) \<noteq> granter_hash (cd_granter (e_cap current)) then Inr (Some LinkBroken)
      else case granter_identity of
        None \<Rightarrow> Inl UnboundLocalError
      | Some ident \<Rightarrow>
          let child_frame = identity_frame env (Some ident);
              parent_frame = identity_frame env (lookup_opt env (granter_hash (cd_granter (e_cap parent))))
          in bind_r (is_attenuated (e_cap current) (e_cap parent) (ce_local env) (Some child_frame) (Some parent_frame))
               (\<lambda>a. case a of
                  Some e \<Rightarrow> Inr (Some (AttenuationError e))
                | None \<Rightarrow>
                    bind_r (check_caveats (e_cap parent) (e_cap current) (int depth) (ce_now env))
                      (\<lambda>c. case c of Some e \<Rightarrow> Inr (Some (CaveatViolated e)) | None \<Rightarrow> Inr None)))"

fun verify_links :: "chain_env \<Rightarrow> nat \<Rightarrow> entity option \<Rightarrow> entity list \<Rightarrow> rejection option result" where
  "verify_links env depth granter_identity [] = Inr None"
| "verify_links env depth granter_identity (current # rest) =
     (case check_link_signature env current granter_identity of
        Inl err \<Rightarrow> Inr (Some (err, depth))
      | Inr gi \<Rightarrow>
          (case temporal_validity (e_cap current) (ce_now env) of
             Some reason \<Rightarrow> Inr (Some (TokenTemporal reason, depth))
           | None \<Rightarrow>
               (case rest of
                  [] \<Rightarrow> map_sum id (map_option (\<lambda>e. (e, depth))) (check_root env current)
                | parent # _ \<Rightarrow>
                    bind_r (check_link env current parent gi depth)
                      (\<lambda>r. case r of Some e \<Rightarrow> Inr (Some (e, depth))
                                   | None \<Rightarrow> verify_links env (depth + 1) gi rest))))"

text \<open>\<open>None\<close> is \<open>DelegationResult(valid=True)\<close>.\<close>

definition verify_capability_chain :: "chain_env \<Rightarrow> entity \<Rightarrow> rejection option result" where
  "verify_capability_chain env capability =
     (case collect_authority_chain capability (ce_lookup env) 64 of
        TooDeep \<Rightarrow> Inr (Some (ChainTooDeep, 64))
      | Unreachable missing \<Rightarrow> Inr (Some (ParentNotFound missing, 0))
      | Collected chain \<Rightarrow>
          if chain = [] then Inr (Some (EmptyChain, 0))
          else case check_chain_format_code_freeze env chain of
            Some r \<Rightarrow> Inr (Some r)
          | None \<Rightarrow>
              (case unmatchable_pass 0 chain of
                 Some r \<Rightarrow> Inr (Some r)
               | None \<Rightarrow>
                   (case grantee_pass env 0 chain of
                      Some r \<Rightarrow> Inr (Some r)
                    | None \<Rightarrow>
                        (case multi_pass 0 chain of
                           Some r \<Rightarrow> Inr (Some r)
                         | None \<Rightarrow> verify_links env 0 None chain))))"

subsection \<open>Creator authority\<close>

datatype creator_status = CreatorFound | CreatorNotFound | CreatorUnreachable bytes | CreatorTooDeep

text \<open>Whether one link is granted (and, in a multi-signature, signed) by the writer.\<close>

definition link_created_by ::
  "siglib \<Rightarrow> (bytes \<Rightarrow> entity option) \<Rightarrow> (bytes \<Rightarrow> bytes \<Rightarrow> entity option) option \<Rightarrow> bytes \<Rightarrow> entity \<Rightarrow> bool" where
  "link_created_by S id_lookup finder target_hash e =
     (case get_multi_granter (cd_granter (e_cap e)) of
        None \<Rightarrow> granter_hash (cd_granter (e_cap e)) = Some target_hash
      | Some (signers, _) \<Rightarrow>
          target_hash \<in> set signers
          \<and> (case (finder, e_hash e) of
               (Some f, Some cap_hash) \<Rightarrow>
                 (case f cap_hash target_hash of
                    None \<Rightarrow> False
                  | Some sg \<Rightarrow>
                      (case id_lookup target_hash of
                         None \<Rightarrow> False
                       | Some ident \<Rightarrow>
                           verify_signer_signed_target S cap_hash (Some target_hash) (Some sg) (Some ident)))
             | _ \<Rightarrow> False))"

definition check_creator_authority ::
  "siglib \<Rightarrow> entity \<Rightarrow> bytes option \<Rightarrow> (bytes \<Rightarrow> entity option) \<Rightarrow> nat
     \<Rightarrow> (bytes \<Rightarrow> bytes \<Rightarrow> entity option) option \<Rightarrow> (bytes \<Rightarrow> entity option) option \<Rightarrow> creator_status" where
  "check_creator_authority S capability identity_hash lookup max_depth finder identity_lookup =
     (case collect_authority_chain capability lookup max_depth of
        Unreachable h \<Rightarrow> CreatorUnreachable h
      | TooDeep \<Rightarrow> CreatorTooDeep
      | Collected chain \<Rightarrow>
          (case identity_hash of
             None \<Rightarrow> CreatorNotFound
           | Some target_hash \<Rightarrow>
               let id_lookup = (case identity_lookup of Some l \<Rightarrow> l | None \<Rightarrow> lookup) in
               if list_ex (link_created_by S id_lookup finder target_hash) chain
               then CreatorFound else CreatorNotFound))"

subsection \<open>Facts on the collected chain\<close>

text \<open>A chain as the walk finds it: every link is what the store has under the parent hash before it.\<close>

fun linked :: "(bytes \<Rightarrow> entity option) \<Rightarrow> entity list \<Rightarrow> bool" where
  "linked lookup [] = True"
| "linked lookup [e] = (\<not> has_parent (e_cap e))"
| "linked lookup (e # p # chain) =
     ((\<exists>h. cd_parent (e_cap e) = Some h \<and> h \<noteq> [] \<and> lookup h = Some p) \<and> linked lookup (p # chain))"

lemma collect_from_Collected:
  "collect_from lookup m current depth chain = Collected result \<Longrightarrow>
     \<exists>rest. result = chain @ current # rest \<and> linked lookup (current # rest)
        \<and> (depth \<le> m \<and> depth + length rest \<le> m)"
proof (induction lookup m current depth chain rule: collect_from.induct)
  case (1 lookup m current depth chain)
  from "1.prems" have d: "\<not> m < depth" by (subst (asm) collect_from.simps) (auto split: if_splits)
  show ?case
  proof (cases "has_parent (e_cap current)")
    case False
    with "1.prems" d have "result = chain @ [current]"
      by (subst (asm) collect_from.simps) (auto simp: has_parent_def split: option.splits if_splits)
    with False d show ?thesis by simp
  next
    case True
    then obtain h where h: "cd_parent (e_cap current) = Some h" "h \<noteq> []"
      by (auto simp: has_parent_def split: option.splits)
    with "1.prems" d obtain parent where p: "lookup h = Some parent"
      and c: "collect_from lookup m parent (depth + 1) (chain @ [current]) = Collected result"
      by (subst (asm) collect_from.simps) (auto split: option.splits)
    from "1.IH" [OF d h p c] h p show ?thesis by auto
  qed
qed

text \<open>A chain that ends within the bound is collected whole.\<close>

lemma collect_from_complete:
  "linked lookup (current # rest) \<Longrightarrow> depth + length rest \<le> m \<Longrightarrow>
     collect_from lookup m current depth chain = Collected (chain @ current # rest)"
proof (induction rest arbitrary: current depth chain)
  case Nil
  then show ?case
    by (subst collect_from.simps) (auto simp: has_parent_def split: option.splits if_splits)
next
  case (Cons p rest)
  then obtain h where "cd_parent (e_cap current) = Some h" "h \<noteq> []" "lookup h = Some p" by auto
  moreover have "collect_from lookup m p (depth + 1) (chain @ [current]) = Collected ((chain @ [current]) @ p # rest)"
    by (rule Cons.IH) (use Cons.prems in auto)
  ultimately show ?case using Cons.prems(2) by (subst collect_from.simps) simp
qed

lemma collect_chain_iff:
  "collect_authority_chain cap lookup m = Collected chain \<longleftrightarrow>
     (\<exists>rest. chain = cap # rest \<and> linked lookup chain \<and> length rest \<le> m)"
proof
  assume "collect_authority_chain cap lookup m = Collected chain"
  from collect_from_Collected [OF this [unfolded collect_authority_chain_def]]
  show "\<exists>rest. chain = cap # rest \<and> linked lookup chain \<and> length rest \<le> m" by auto
next
  assume "\<exists>rest. chain = cap # rest \<and> linked lookup chain \<and> length rest \<le> m"
  then obtain rest where c: "chain = cap # rest" "linked lookup (cap # rest)" "length rest \<le> m" by auto
  from collect_from_complete [OF c(2), of 0 m "[]"] c(1,3)
  show "collect_authority_chain cap lookup m = Collected chain" by (simp add: collect_authority_chain_def)
qed

lemma linked_has_parent: "linked lookup (e # p # chain) \<Longrightarrow> has_parent (e_cap e)"
  by (auto simp: has_parent_def)

lemma linked_last: "linked lookup chain \<Longrightarrow> chain \<noteq> [] \<Longrightarrow> \<not> has_parent (e_cap (last chain))"
  by (induction chain rule: linked.induct) auto

subsection \<open>Facts on the passes\<close>

lemma unmatchable_pass_None:
  "unmatchable_pass d chain = None \<longleftrightarrow> (\<forall>e \<in> set chain. unmatchable_scope_pattern (cd_grants (e_cap e)) = None)"
proof (induction chain arbitrary: d)
  case (Cons e chain)
  then show ?case by (cases "unmatchable_scope_pattern (cd_grants (e_cap e))") auto
qed simp

lemma grantee_pass_None:
  "grantee_pass env d chain = None \<longleftrightarrow>
     (\<forall>e \<in> set chain. \<exists>h. cd_grantee (e_cap e) = Some h \<and> ce_lookup env h \<noteq> None)"
proof (induction chain arbitrary: d)
  case (Cons e chain)
  then show ?case by (cases "cd_grantee (e_cap e)") simp_all
qed simp

definition multi_ok :: "entity \<Rightarrow> bool" where
  "multi_ok e \<longleftrightarrow> is_multi_granter (cd_granter (e_cap e)) \<longrightarrow>
        validate_multi_granter (cd_granter (e_cap e)) True = None \<and> \<not> has_parent (e_cap e)
        \<and> cd_grantee (e_cap e) \<noteq> None"

lemma multi_pass_None: "multi_pass d chain = None \<longleftrightarrow> (\<forall>e \<in> set chain. multi_ok e)"
proof (induction chain arbitrary: d)
  case (Cons e chain)
  show ?case
    by (cases "is_multi_granter (cd_granter (e_cap e))"; cases "validate_multi_granter (cd_granter (e_cap e)) True";
        cases "has_parent (e_cap e)"; cases "cd_grantee (e_cap e)")
      (simp_all add: Cons multi_ok_def Let_def)
qed simp

definition has_format :: "chain_env \<Rightarrow> byte \<Rightarrow> entity \<Rightarrow> bool" where
  "has_format env c e \<longleftrightarrow>
     (case link_content_hash env e of Some (b # _) \<Rightarrow> b = c | _ \<Rightarrow> True)"

lemma format_freeze_Some: "format_freeze_from env (Some c) chain \<longleftrightarrow> (\<forall>e \<in> set chain. has_format env c e)"
proof (induction chain)
  case (Cons e chain)
  then show ?case
    by (cases "link_content_hash env e"; cases "the (link_content_hash env e)") (auto simp: has_format_def)
qed simp

lemma format_freeze_None:
  "format_freeze_from env None chain \<longleftrightarrow> (\<exists>c. \<forall>e \<in> set chain. has_format env c e)"
proof (induction chain)
  case (Cons e chain)
  show ?case
  proof (cases "link_content_hash env e")
    case None
    then show ?thesis using Cons by (simp add: has_format_def)
  next
    case (Some h)
    show ?thesis
    proof (cases h)
      case Nil
      with Some Cons show ?thesis by (simp add: has_format_def)
    next
      case (Cons b bs)
      with Some have "format_freeze_from env None (e # chain) \<longleftrightarrow> (\<forall>e \<in> set chain. has_format env b e)"
        by (simp add: format_freeze_Some)
      moreover have "has_format env c e \<longleftrightarrow> c = b" for c using Some Cons by (auto simp: has_format_def)
      ultimately show ?thesis by simp
    qed
  qed
qed simp

text \<open>The count is of distinct signers whose signature of the hash verifies.\<close>

definition signed_by :: "chain_env \<Rightarrow> (bytes \<Rightarrow> bytes \<Rightarrow> entity option) \<Rightarrow> bytes \<Rightarrow> bytes \<Rightarrow> bool" where
  "signed_by env finder h signer \<longleftrightarrow>
     (\<exists>ident sg. ce_lookup env signer = Some ident \<and> finder h signer = Some sg
        \<and> verify_signer_signed_target (ce_siglib env) h (Some signer) (Some sg) (Some ident))"

lemma count_signatures_sound:
  "\<exists>X. X \<subseteq> set signers - set seen \<and> (\<forall>x \<in> X. signed_by env finder h x)
     \<and> count_signatures env finder h k seen n signers \<le> n + int (card X)"
proof (induction env finder h k seen n signers rule: count_signatures.induct)
  case (1 env finder h k seen n)
  then show ?case by (intro exI [of _ "{}"]) simp
next
  case (2 env finder h k seen n c signers)
  show ?case
  proof (cases "c \<in> set seen")
    case True
    with 2(1) obtain X where "X \<subseteq> set signers - set seen" "\<forall>x \<in> X. signed_by env finder h x"
      "count_signatures env finder h k seen n signers \<le> n + int (card X)" by blast
    with True show ?thesis by (intro exI [of _ X]) auto
  next
    case False
    have skip: ?thesis
      if "count_signatures env finder h k seen n (c # signers) = count_signatures env finder h k (c # seen) n signers"
        and "\<exists>X. X \<subseteq> set signers - set (c # seen) \<and> (\<forall>x \<in> X. signed_by env finder h x)
           \<and> count_signatures env finder h k (c # seen) n signers \<le> n + int (card X)"
    proof -
      from that(2) obtain X where "X \<subseteq> set signers - set (c # seen)" "\<forall>x \<in> X. signed_by env finder h x"
        "count_signatures env finder h k (c # seen) n signers \<le> n + int (card X)" by blast
      with that(1) show ?thesis by (intro exI [of _ X]) auto
    qed
    show ?thesis
    proof (cases "signed_by env finder h c")
      case True
      then obtain ident sg where i: "ce_lookup env c = Some ident" "finder h c = Some sg"
        "verify_signer_signed_target (ce_siglib env) h (Some c) (Some sg) (Some ident)"
        by (auto simp: signed_by_def)
      show ?thesis
      proof (cases "k \<le> n + 1")
        case True
        with i False \<open>signed_by env finder h c\<close> show ?thesis by (intro exI [of _ "{c}"]) auto
      next
        case nk: False
        from 2(4) [OF False i(1,2,3) nk] obtain X where X: "X \<subseteq> set signers - set (c # seen)"
          "\<forall>x \<in> X. signed_by env finder h x"
          "count_signatures env finder h k (c # seen) (n + 1) signers \<le> n + 1 + int (card X)" by blast
        have "finite X" using X(1) by (meson List.finite_set finite_Diff finite_subset)
        moreover have "c \<notin> X" using X(1) by auto
        ultimately have "int (card (insert c X)) = int (card X) + 1" by simp
        with X i False nk \<open>signed_by env finder h c\<close> show ?thesis by (intro exI [of _ "insert c X"]) auto
      qed
    next
      case ns: False
      show ?thesis
      proof (cases "ce_lookup env c")
        case None
        with False 2(2) show ?thesis by (intro skip) auto
      next
        case (Some ident)
        show ?thesis
        proof (cases "finder h c")
          case None
          with Some False 2(3) show ?thesis by (intro skip) auto
        next
          case s: (Some sg)
          with Some ns have "\<not> verify_signer_signed_target (ce_siglib env) h (Some c) (Some sg) (Some ident)"
            by (auto simp: signed_by_def)
          with Some s False 2(5) show ?thesis by (intro skip) auto
        qed
      qed
    qed
  qed
qed

subsection \<open>Facts on the links\<close>

definition frame_of :: "chain_env \<Rightarrow> entity \<Rightarrow> string" where
  "frame_of env e = identity_frame env (lookup_opt env (granter_hash (cd_granter (e_cap e))))"

definition hashed :: "entity \<Rightarrow> bool" where
  "hashed e \<longleftrightarrow> (\<exists>h. e_hash e = Some h \<and> h \<noteq> [])"

text \<open>What a link whose signature check passed has been signed with.\<close>

definition link_signed :: "chain_env \<Rightarrow> entity \<Rightarrow> bool" where
  "link_signed env e \<longleftrightarrow>
     (\<exists>h. e_hash e = Some h \<and>
        (case cd_granter (e_cap e) of
           NoGranter \<Rightarrow> False
         | HashGranter g \<Rightarrow>
             (\<exists>ident sg. ce_lookup env g = Some ident \<and> ce_find_signature env h = Some sg
                \<and> verify_signer_signed_target (ce_siglib env) h (Some g) (Some sg) (Some ident))
         | MultiGranter signers k \<Rightarrow>
             (\<exists>finder X. ce_find_by_signer env = Some finder \<and> X \<subseteq> set signers \<and> k \<le> int (card X)
                \<and> (\<forall>x \<in> X. signed_by env finder h x))))"

lemma is_multi_granter_iff: "is_multi_granter g \<longleftrightarrow> get_multi_granter g \<noteq> None"
  by (cases g) (simp_all add: is_multi_granter_def get_multi_granter_def)

lemma check_link_signature_single:
  assumes "check_link_signature env c gi = Inr gi'" and "hashed c"
    and "\<not> is_multi_granter (cd_granter (e_cap c))"
  shows "link_signed env c \<and> gi' \<noteq> None \<and> gi' = lookup_opt env (granter_hash (cd_granter (e_cap c)))"
proof -
  from assms(2) obtain h where h: "e_hash c = Some h" "h \<noteq> []" by (auto simp: hashed_def)
  have m: "get_multi_granter (cd_granter (e_cap c)) = None" using assms(3) is_multi_granter_iff by blast
  let ?g = "granter_hash (cd_granter (e_cap c))"
  from assms(1) h m obtain sg ident where s: "ce_find_signature env h = Some sg"
    "lookup_opt env ?g = Some ident" "gi' = Some ident"
    "verify_signer_signed_target (ce_siglib env) h ?g (Some sg) (Some ident)"
    by (auto simp: check_link_signature_def Let_def split: option.splits if_splits)
  then obtain g where g: "cd_granter (e_cap c) = HashGranter g"
    by (auto simp: lookup_opt_def granter_hash_def split: option.splits granter.splits)
  with s h show ?thesis by (auto simp: link_signed_def lookup_opt_def granter_hash_def)
qed

lemma check_link_signature_multi:
  assumes "check_link_signature env c gi = Inr gi'" and "hashed c"
    and "is_multi_granter (cd_granter (e_cap c))"
  shows "link_signed env c"
proof -
  from assms(2) obtain h where h: "e_hash c = Some h" "h \<noteq> []" by (auto simp: hashed_def)
  from assms(3) obtain signers k where g: "cd_granter (e_cap c) = MultiGranter signers k"
    by (auto simp: is_multi_granter_def split: granter.splits)
  then have m: "get_multi_granter (cd_granter (e_cap c)) = Some (signers, k)"
    by (simp add: get_multi_granter_def)
  from assms(1) h m obtain finder where f: "ce_find_by_signer env = Some finder"
    and k: "\<not> count_signatures env finder h k [] 0 signers < k"
    by (auto simp: check_link_signature_def split: option.splits if_splits)
  obtain X where "X \<subseteq> set signers - set []" "\<forall>x \<in> X. signed_by env finder h x"
    "count_signatures env finder h k [] 0 signers \<le> 0 + int (card X)"
    using count_signatures_sound [of signers "[]" env finder h k 0] by blast
  then have "X \<subseteq> set signers \<and> k \<le> int (card X) \<and> (\<forall>x \<in> X. signed_by env finder h x)" using k by simp
  with f g h show ?thesis by (auto simp: link_signed_def)
qed

text \<open>The loop on a link that has a parent, and on the root.\<close>

lemma verify_links_step:
  assumes "verify_links env d gi (c # p # rest) = Inr None"
  shows "\<exists>gi'. check_link_signature env c gi = Inr gi' \<and> temporal_validity (e_cap c) (ce_now env) = None
    \<and> check_link env c p gi' d = Inr None \<and> verify_links env (d + 1) gi' (p # rest) = Inr None"
proof (cases "check_link_signature env c gi")
  case (Inl err)
  with assms show ?thesis by simp
next
  case (Inr gi')
  show ?thesis
  proof (cases "temporal_validity (e_cap c) (ce_now env)")
    case (Some r)
    with assms Inr show ?thesis by simp
  next
    case None
    with assms Inr have b: "bind_r (check_link env c p gi' d)
        (case_option (verify_links env (Suc d) gi' (p # rest)) (\<lambda>e. Inr (Some (e, d)))) = Inr None"
      unfolding verify_links.simps(2) [of env d gi c "p # rest"] by simp
    then obtain r where r: "check_link env c p gi' d = Inr r" by (cases "check_link env c p gi' d") auto
    with b have "r = None" by (cases r) simp_all
    with r b Inr None show ?thesis by simp
  qed
qed

lemma verify_links_root:
  assumes "verify_links env d gi [c] = Inr None"
  shows "\<exists>gi'. check_link_signature env c gi = Inr gi' \<and> temporal_validity (e_cap c) (ce_now env) = None
    \<and> check_root env c = Inr None"
  using assms by (auto split: sum.splits option.splits) (cases "check_root env c"; auto)

lemma check_link_None:
  assumes "check_link env c p gi d = Inr None"
  shows "granter_hash (cd_granter (e_cap c)) = cd_grantee (e_cap p) \<and> gi \<noteq> None
    \<and> is_attenuated (e_cap c) (e_cap p) (ce_local env) (Some (identity_frame env gi)) (Some (frame_of env p)) = Inr None
    \<and> check_caveats (e_cap p) (e_cap c) (int d) (ce_now env) = Inr None"
  using assms by (auto simp: check_link_def frame_of_def Let_def exn_simps split: if_splits option.splits)

lemma verify_links_all:
  "verify_links env d gi chain = Inr None \<Longrightarrow> e \<in> set chain \<Longrightarrow>
     temporal_validity (e_cap e) (ce_now env) = None \<and> (hashed e \<longrightarrow> link_signed env e)"
proof (induction chain arbitrary: d gi)
  case (Cons c rest)
  have signed: "hashed c \<Longrightarrow> check_link_signature env c gi = Inr gi' \<Longrightarrow> link_signed env c" for gi'
    using check_link_signature_single check_link_signature_multi by blast
  show ?case
  proof (cases rest)
    case Nil
    with Cons.prems verify_links_root [of env d gi c] signed show ?thesis by auto
  next
    case (Cons p rest')
    with Cons.prems(1) verify_links_step obtain gi' where
      "check_link_signature env c gi = Inr gi'" "temporal_validity (e_cap c) (ce_now env) = None"
      "verify_links env (d + 1) gi' rest = Inr None" by blast
    with Cons.IH Cons.prems(2) signed show ?thesis by auto
  qed
qed simp

lemma verify_links_last:
  "verify_links env d gi chain = Inr None \<Longrightarrow> chain \<noteq> [] \<Longrightarrow> check_root env (last chain) = Inr None"
proof (induction chain arbitrary: d gi)
  case (Cons c rest)
  show ?case
  proof (cases rest)
    case Nil
    with Cons.prems verify_links_root [of env d gi c] show ?thesis by auto
  next
    case (Cons p rest')
    with Cons.prems(1) verify_links_step obtain gi' where "verify_links env (d + 1) gi' rest = Inr None" by blast
    with Cons.IH Cons show ?thesis by auto
  qed
qed simp

text \<open>Authority climbs the chain: what the leaf covers, the root covers.\<close>

lemma verify_links_authority:
  assumes "verify_links env d gi (c # rest) = Inr None" and "linked lookup (c # rest)"
    and "\<forall>e \<in> set (c # rest). multi_ok e \<and> hashed e \<and> frame_of env e \<noteq> []
           \<and> list_all (\<lambda>g. plain_grant g (frame_of env e)) (cd_grants (e_cap e))"
    and "ce_local env \<noteq> []" and h: "relative_name h" and u: "\<not> dslash u" "peer_rest u \<noteq> None" "\<not> is_pattern u"
    and "\<exists>g \<in> set (cd_grants (e_cap c)). grant_covers_target g h op u [] (ce_local env) (frame_of env c) tp relax"
  shows "\<exists>g \<in> set (cd_grants (e_cap (last (c # rest)))).
     grant_covers_target g h op u [] (ce_local env) (frame_of env (last (c # rest))) tp relax"
  using assms(1-3,9)
proof (induction rest arbitrary: c d gi)
  case (Cons p rest)
  from verify_links_step [OF Cons.prems(1)] obtain gi' where
    sig: "check_link_signature env c gi = Inr gi'" and link: "check_link env c p gi' d = Inr None"
    and next_ok: "verify_links env (d + 1) gi' (p # rest) = Inr None" by blast
  have "\<not> is_multi_granter (cd_granter (e_cap c))"
    using linked_has_parent [OF Cons.prems(2)] Cons.prems(3) by (auto simp: multi_ok_def)
  with check_link_signature_single [OF sig] Cons.prems(3) have "identity_frame env gi' = frame_of env c"
    by (simp add: frame_of_def)
  with check_link_None [OF link]
  have att: "is_attenuated (e_cap c) (e_cap p) (ce_local env) (Some (frame_of env c)) (Some (frame_of env p)) = Inr None"
    by simp
  from Cons.prems(4) obtain g where g: "g \<in> set (cd_grants (e_cap c))"
    "grant_covers_target g h op u [] (ce_local env) (frame_of env c) tp relax" by blast
  from att g(1) obtain g' where g': "g' \<in> set (cd_grants (e_cap p))"
    "grant_subset g g' (ce_local env) (Some (frame_of env c)) (Some (frame_of env p))"
    by (auto simp: is_attenuated_None list_all_iff grant_covered_by_def list_ex_iff)
  have "grant_covers_target g' h op u [] (ce_local env) (frame_of env p) tp relax"
    by (rule grant_subset_sound [OF g'(2) assms(4) _ _ _ _ h u g(2)])
      (use Cons.prems(3) g(1) g'(1) in \<open>simp_all add: list_all_iff\<close>)
  with g'(1) have "\<exists>g \<in> set (cd_grants (e_cap p)). grant_covers_target g h op u [] (ce_local env) (frame_of env p) tp relax"
    by blast
  moreover have "linked lookup (p # rest)" using Cons.prems(2) by simp
  ultimately show ?case using Cons.IH [OF next_ok] Cons.prems(3) by simp
qed simp

lemma verify_chain_accepted:
  assumes "verify_capability_chain env cap = Inr None"
  shows "\<exists>rest. collect_authority_chain cap (ce_lookup env) 64 = Collected (cap # rest)
    \<and> linked (ce_lookup env) (cap # rest) \<and> length rest \<le> 64
    \<and> check_chain_format_code_freeze env (cap # rest) = None
    \<and> (\<forall>e \<in> set (cap # rest). unmatchable_scope_pattern (cd_grants (e_cap e)) = None
         \<and> (\<exists>h. cd_grantee (e_cap e) = Some h \<and> ce_lookup env h \<noteq> None) \<and> multi_ok e)
    \<and> verify_links env 0 None (cap # rest) = Inr None"
proof -
  from assms obtain chain where c: "collect_authority_chain cap (ce_lookup env) 64 = Collected chain"
    and p: "check_chain_format_code_freeze env chain = None" "unmatchable_pass 0 chain = None"
      "grantee_pass env 0 chain = None" "multi_pass 0 chain = None" "verify_links env 0 None chain = Inr None"
    by (auto simp: verify_capability_chain_def split: collected.splits if_splits option.splits)
  from c obtain rest where "chain = cap # rest" "linked (ce_lookup env) chain" "length rest \<le> 64"
    by (auto simp: collect_chain_iff)
  with c p show ?thesis
    unfolding unmatchable_pass_None grantee_pass_None multi_pass_None by blast
qed

lemma local_signed_True:
  "local_signed env finder h signers = Inr True \<Longrightarrow>
     \<exists>s \<in> set signers. \<exists>ident hash. h = Some hash \<and> ce_lookup env s = Some ident
        \<and> peer_id_of env ident = Inr (ce_local env) \<and> signed_by env finder hash s"
proof (induction signers)
  case (Cons c signers)
  show ?case
  proof (cases "ce_lookup env c")
    case None
    with Cons show ?thesis by auto
  next
    case (Some ident)
    with Cons.prems obtain p where p: "peer_id_of env ident = Inr p"
      by (cases "peer_id_of env ident") auto
    show ?thesis
    proof (cases "local_signed env finder h signers = Inr True")
      case True
      with Cons.IH show ?thesis by auto
    next
      case False
      with Cons.prems Some p have "p = ce_local env"
        and "\<exists>hash sg. h = Some hash \<and> finder hash c = Some sg
           \<and> verify_signer_signed_target (ce_siglib env) hash (Some c) (Some sg) (Some ident)"
        by (auto split: if_splits option.splits)
      with Some p show ?thesis by (auto simp: signed_by_def)
    qed
  qed
qed simp

text \<open>Who a root capability was granted by, as the root check establishes it.\<close>

definition root_of :: "chain_env \<Rightarrow> entity \<Rightarrow> bool" where
  "root_of env e \<longleftrightarrow>
     (\<exists>g ident. ce_lookup env g = Some ident \<and> peer_id_of env ident = Inr (ce_local env) \<and>
        (cd_granter (e_cap e) = HashGranter g
         \<or> (\<exists>signers k finder h. cd_granter (e_cap e) = MultiGranter signers k \<and> g \<in> set signers
              \<and> ce_find_by_signer env = Some finder \<and> e_hash e = Some h \<and> signed_by env finder h g)))"

lemma check_root_None: "check_root env e = Inr None \<Longrightarrow> root_of env e"
proof (cases "cd_granter (e_cap e)")
  case NoGranter
  moreover assume "check_root env e = Inr None"
  ultimately show ?thesis by (simp add: check_root_def get_multi_granter_def granter_hash_def lookup_opt_def)
next
  case (HashGranter g)
  moreover assume "check_root env e = Inr None"
  ultimately show ?thesis
    by (auto simp: check_root_def get_multi_granter_def granter_hash_def lookup_opt_def root_of_def exn_simps
        split: option.splits if_splits)
next
  case (MultiGranter signers k)
  assume "check_root env e = Inr None"
  with MultiGranter obtain finder where "ce_find_by_signer env = Some finder"
    and "local_signed env finder (e_hash e) signers = Inr True"
    by (auto simp: check_root_def get_multi_granter_def exn_simps split: option.splits if_splits)
  with local_signed_True [of env finder "e_hash e" signers] MultiGranter show ?thesis
    by (fastforce simp: root_of_def)
qed

subsection \<open>An environment for the witnesses\<close>

definition demo_key :: "byte \<Rightarrow> peer_data" where
  "demo_key b = \<lparr>pd_public_key = Some (VBytes (replicate 32 b)), pd_key_type = None\<rparr>"

definition no_peer :: peer_data where
  "no_peer = \<lparr>pd_public_key = None, pd_key_type = None\<rparr>"

definition no_sig :: sig_data where
  "no_sig = \<lparr>sg_target = None, sg_signer = None, sg_signature = None\<rparr>"

definition demo_local :: string where
  "demo_local = toy_encode (1 # 0 # replicate 32 5)"

definition demo_identity :: "bytes \<Rightarrow> byte \<Rightarrow> entity" where
  "demo_identity h b = \<lparr>e_type = ''system/peer'', e_hash = Some h, e_cap = demo_cap [], e_peer = demo_key b, e_sig = no_sig\<rparr>"

definition demo_signature :: "bytes \<Rightarrow> bytes \<Rightarrow> entity" where
  "demo_signature target signer = \<lparr>e_type = ''system/signature'', e_hash = Some [3], e_cap = demo_cap [], e_peer = no_peer,
     e_sig = \<lparr>sg_target = Some target, sg_signer = Some signer, sg_signature = Some (VBytes [1])\<rparr>\<rparr>"

definition demo_token :: "bytes option \<Rightarrow> bytes \<Rightarrow> bytes \<Rightarrow> bytes option \<Rightarrow> grant list \<Rightarrow> entity" where
  "demo_token h granter grantee parent gs = \<lparr>e_type = ''system/capability/token'', e_hash = h,
     e_cap = demo_cap gs \<lparr>cd_granter := HashGranter granter, cd_grantee := Some grantee, cd_parent := parent\<rparr>,
     e_peer = no_peer, e_sig = no_sig\<rparr>"

definition demo_root :: entity where
  "demo_root = demo_token (Some [0, 1]) [9] [8] None [demo_grant [''*''] []]"

definition demo_leaf :: entity where
  "demo_leaf = demo_token (Some [0, 2]) [8] [9] (Some [0, 1]) [demo_grant [CHR ''/'' # demo_local @ ''/a/*''] []]"

definition demo_env :: chain_env where
  "demo_env = \<lparr>ce_lookup = (\<lambda>h. if h = [9] then Some (demo_identity [9] 5) else if h = [8] then Some (demo_identity [8] 6)
       else if h = [0, 1] then Some demo_root else None),
     ce_find_signature = (\<lambda>h. if h = [0, 1] then Some (demo_signature [0, 1] [9])
       else if h = [0, 2] then Some (demo_signature [0, 2] [8]) else None),
     ce_find_by_signer = None, ce_local = demo_local, ce_now = 5,
     ce_hashlib = \<lparr>sha256 = \<lambda>_. [], sha384 = \<lambda>_. [], sha512 = \<lambda>_. []\<rparr>, ce_base58 = toy_base58,
     ce_siglib = \<lparr>ed25519_verify = \<lambda>_ _ _. Inr True, ed448_verify = \<lambda>_ _ _. Inr False, b64decode = \<lambda>_. None\<rparr>,
     ce_ecf = \<lambda>_. [], ce_algorithm = 0\<rparr>"

subsection \<open>Properties\<close>

text \<open>
  C33. The collecting walk always ends, and ends right: it returns a chain exactly when the parent
  references lead, through the store, from the capability to one without a parent in at most
  \<open>max_depth\<close> steps, and then it returns that chain, leaf first; so a cycle of parents is never accepted.
\<close>

theorem collect_chain_exact:
  "collect_authority_chain cap lookup m = Collected chain \<longleftrightarrow>
     (\<exists>rest. chain = cap # rest \<and> linked lookup chain \<and> length rest \<le> m)"
  by (rule collect_chain_iff)

text \<open>
  C5. An accepted chain is an accepted chain all the way up: it has at most 65 links from the
  capability to a parentless root; on every link the token is temporally valid, its grantee resolves
  and no scope pattern is unmatchable, all content hashes have one format, and every link that carries
  a content hash is signed by its granter, a multi-signature by at least its threshold of distinct
  signers; only the root may be a multi-signature; and the root was granted (and if multi-signature
  also signed) by the local peer.
\<close>

theorem accepted_chain_valid:
  assumes "verify_capability_chain env cap = Inr None"
  shows "\<exists>rest. collect_authority_chain cap (ce_lookup env) 64 = Collected (cap # rest) \<and> length rest \<le> 64
    \<and> (\<exists>c. \<forall>e \<in> set (cap # rest). has_format env c e)
    \<and> (\<forall>e \<in> set (cap # rest).
         temporal_validity (e_cap e) (ce_now env) = None
         \<and> unmatchable_scope_pattern (cd_grants (e_cap e)) = None
         \<and> (\<exists>h. cd_grantee (e_cap e) = Some h \<and> ce_lookup env h \<noteq> None)
         \<and> (is_multi_granter (cd_granter (e_cap e)) \<longrightarrow> \<not> has_parent (e_cap e))
         \<and> (hashed e \<longrightarrow> link_signed env e))
    \<and> \<not> has_parent (e_cap (last (cap # rest))) \<and> root_of env (last (cap # rest))"
proof -
  from verify_chain_accepted [OF assms] obtain rest where
    c: "collect_authority_chain cap (ce_lookup env) 64 = Collected (cap # rest)"
    and l: "linked (ce_lookup env) (cap # rest)" "length rest \<le> 64"
    and f: "check_chain_format_code_freeze env (cap # rest) = None"
    and each: "\<forall>e \<in> set (cap # rest). unmatchable_scope_pattern (cd_grants (e_cap e)) = None
         \<and> (\<exists>h. cd_grantee (e_cap e) = Some h \<and> ce_lookup env h \<noteq> None) \<and> multi_ok e"
    and v: "verify_links env 0 None (cap # rest) = Inr None" by blast
  have "format_freeze_from env None (cap # rest)"
    using f unfolding check_chain_format_code_freeze_def by (metis option.distinct(1))
  then have "\<exists>c. \<forall>e \<in> set (cap # rest). has_format env c e" by (simp only: format_freeze_None)
  moreover have "\<forall>e \<in> set (cap # rest). temporal_validity (e_cap e) (ce_now env) = None
      \<and> (hashed e \<longrightarrow> link_signed env e)"
    using verify_links_all [OF v] by blast
  moreover have "root_of env (last (cap # rest))"
    using verify_links_last [OF v] check_root_None by blast
  moreover have "\<not> has_parent (e_cap (last (cap # rest)))" using linked_last [OF l(1)] by blast
  moreover have "\<forall>e \<in> set (cap # rest). is_multi_granter (cd_granter (e_cap e)) \<longrightarrow> \<not> has_parent (e_cap e)"
    using each by (auto simp: multi_ok_def)
  ultimately show ?thesis using c l(2) each by (intro exI [of _ rest]) blast
qed

theorem accepted_chain_valid_witness:
  "verify_capability_chain demo_env demo_leaf = Inr None
   \<and> (\<exists>rest. collect_authority_chain demo_leaf (ce_lookup demo_env) 64 = Collected (demo_leaf # rest)
        \<and> root_of demo_env (last (demo_leaf # rest)))"
proof -
  have v: "verify_capability_chain demo_env demo_leaf = Inr None" by code_simp
  with accepted_chain_valid [OF v] show ?thesis by blast
qed



text \<open>
  The signature check depends on the content hash being present: a capability dictionary without
  one passes chain verification with no signature at all, as long as it names the local identity as its
  granter, although the documentation of the walk promises a signature on every level.
\<close>

theorem missing_hash_skips_signature:
  "let forged = demo_token None [9] [8] None [demo_grant [''*''] []];
       env = demo_env \<lparr>ce_find_signature := \<lambda>_. None\<rparr>
   in verify_capability_chain env forged = Inr None
      \<and> verify_capability_chain env (demo_token (Some [0, 7]) [9] [8] None [demo_grant [''*''] []])
        = Inr (Some (SignatureNotFound, 0))"
  by code_simp

text \<open>
  Creator authority is found exactly for a granter of the chain: the answer is positive when, and
  only when, the chain from the capability to its root is collected within the bound and one of its
  links was granted by the writer: as the single granter, or as a signer of a multi-signature link that
  carries its content hash, whose own signature of that hash verifies.
\<close>

theorem creator_authority_exact:
  "check_creator_authority S cap (Some w) lookup m finder id_lookup = CreatorFound \<longleftrightarrow>
     (\<exists>rest. linked lookup (cap # rest) \<and> length rest \<le> m \<and>
       (\<exists>e \<in> set (cap # rest).
          cd_granter (e_cap e) = HashGranter w
          \<or> (\<exists>signers k h f sg ident. cd_granter (e_cap e) = MultiGranter signers k \<and> w \<in> set signers
               \<and> e_hash e = Some h \<and> finder = Some f \<and> f h w = Some sg
               \<and> (case id_lookup of Some l \<Rightarrow> l | None \<Rightarrow> lookup) w = Some ident
               \<and> verify_signer_signed_target S h (Some w) (Some sg) (Some ident))))"
proof -
  let ?l = "case id_lookup of Some l \<Rightarrow> l | None \<Rightarrow> lookup"
  have link: "link_created_by S ?l finder w e \<longleftrightarrow>
      cd_granter (e_cap e) = HashGranter w
      \<or> (\<exists>signers k h f sg ident. cd_granter (e_cap e) = MultiGranter signers k \<and> w \<in> set signers
           \<and> e_hash e = Some h \<and> finder = Some f \<and> f h w = Some sg \<and> ?l w = Some ident
           \<and> verify_signer_signed_target S h (Some w) (Some sg) (Some ident))" for e
    by (cases "cd_granter (e_cap e)")
      (auto simp: link_created_by_def get_multi_granter_def granter_hash_def split: option.splits)
  have "check_creator_authority S cap (Some w) lookup m finder id_lookup = CreatorFound \<longleftrightarrow>
      (\<exists>chain. collect_authority_chain cap lookup m = Collected chain \<and> list_ex (link_created_by S ?l finder w) chain)"
    by (auto simp: check_creator_authority_def Let_def split: collected.splits)
  then show ?thesis unfolding collect_chain_iff list_ex_iff link by blast
qed

end
