(* ===== verification/Stores.thy ===== *)
theory Stores
  imports Paths "HOL-Library.AList"
begin

section \<open>The stores\<close>

text \<open>
  \<open>storage/content_store.py\<close>, \<open>storage/entity_tree.py\<close> and \<open>storage/tree_registry.py\<close>. A Python
  dictionary is an association list in insertion order: assignment replaces in place or appends
  (\<open>AList.update\<close>), deletion drops the entry. The content store is over any type of entities; the
  function \<open>hsh\<close> is their \<open>compute_hash\<close> (which returns a hash carried from the wire unchanged).
\<close>

type_synonym ('k, 'v) dict = "('k \<times> 'v) list"

definition dict_ok :: "('k, 'v) dict \<Rightarrow> bool" where
  "dict_ok d \<longleftrightarrow> distinct (map fst d)"

lemma dict_ok_update [intro]: "dict_ok d \<Longrightarrow> dict_ok (AList.update k v d)"
  by (simp add: dict_ok_def distinct_update)

lemma dict_ok_delete [intro]: "dict_ok d \<Longrightarrow> dict_ok (AList.delete k d)"
  by (simp add: dict_ok_def distinct_delete)

lemma dict_ok_Nil [simp]: "dict_ok []"
  by (simp add: dict_ok_def)

subsection \<open>Content store\<close>

type_synonym 'e content_store = "(bytes, 'e) dict"

definition empty_content_store :: "'e content_store" where
  "empty_content_store = []"

definition cs_get :: "'e content_store \<Rightarrow> bytes \<Rightarrow> 'e option" where
  "cs_get s h = map_of s h"

definition cs_has :: "'e content_store \<Rightarrow> bytes \<Rightarrow> bool" where
  "cs_has s h = (h \<in> fst ` set s)"

definition cs_put :: "('e \<Rightarrow> bytes) \<Rightarrow> 'e \<Rightarrow> 'e content_store \<Rightarrow> bytes \<times> 'e content_store" where
  "cs_put hsh e s =
     (let h = hsh e in if cs_has s h then (h, s) else (h, AList.update h e s))"

definition cs_len :: "'e content_store \<Rightarrow> nat" where
  "cs_len s = length s"

text \<open>
  The notifying store: its hooks are names, and what \<open>put\<close> returns beside the store is the events it
  delivers, in registration order (a hook that raises is logged and the next one runs).
\<close>

record 'e notifying_store =
  ns_store :: "'e content_store"
  ns_hooks :: "(nat \<times> string) list"

definition add_content_hook :: "nat \<Rightarrow> string \<Rightarrow> 'e notifying_store \<Rightarrow> 'e notifying_store" where
  "add_content_hook hook name s = s\<lparr>ns_hooks := ns_hooks s @ [(hook, name)]\<rparr>"

definition remove_content_hook :: "nat \<Rightarrow> 'e notifying_store \<Rightarrow> 'e notifying_store" where
  "remove_content_hook hook s = s\<lparr>ns_hooks := filter (\<lambda>(h, _). h \<noteq> hook) (ns_hooks s)\<rparr>"

definition ns_put ::
  "('e \<Rightarrow> bytes) \<Rightarrow> 'e \<Rightarrow> 'e notifying_store \<Rightarrow> bytes \<times> 'e notifying_store \<times> (nat \<times> bytes \<times> 'e) list" where
  "ns_put hsh e s =
     (let h = hsh e in
      if cs_has (ns_store s) h then (h, s, [])
      else (h, s\<lparr>ns_store := AList.update h e (ns_store s)\<rparr>, map (\<lambda>(hook, _). (hook, h, e)) (ns_hooks s)))"

subsection \<open>Entity tree\<close>

record entity_tree =
  et_local :: string
  et_tree :: "(string, bytes) dict"

definition new_tree :: "string \<Rightarrow> entity_tree" where
  "new_tree local_peer_id = \<lparr>et_local = local_peer_id, et_tree = []\<rparr>"

definition normalize_uri :: "string \<Rightarrow> string \<Rightarrow> string" where
  "normalize_uri local_peer_id path =
     (if starts_with path ENTITY_SCHEME then CHR ''/'' # drop (length ENTITY_SCHEME) path
      else if starts_with path ''/'' then path
      else
        let first_segment = (case find_from (CHR ''/'') path 0 of None \<Rightarrow> path | Some slash \<Rightarrow> take slash path)
        in if is_peer_id first_segment then CHR ''/'' # path
           else CHR ''/'' # local_peer_id @ CHR ''/'' # path)"

definition et_set :: "string \<Rightarrow> bytes \<Rightarrow> entity_tree \<Rightarrow> entity_tree" where
  "et_set uri h t = t\<lparr>et_tree := AList.update (normalize_uri (et_local t) uri) h (et_tree t)\<rparr>"

definition et_get :: "entity_tree \<Rightarrow> string \<Rightarrow> bytes option" where
  "et_get t uri = map_of (et_tree t) (normalize_uri (et_local t) uri)"

definition et_remove :: "string \<Rightarrow> entity_tree \<Rightarrow> bytes option \<times> entity_tree" where
  "et_remove uri t =
     (let full_uri = normalize_uri (et_local t) uri in
      (map_of (et_tree t) full_uri, t\<lparr>et_tree := AList.delete full_uri (et_tree t)\<rparr>))"

definition all_bindings :: "entity_tree \<Rightarrow> (string \<times> bytes) list" where
  "all_bindings t = et_tree t"

definition paths_for_hash :: "entity_tree \<Rightarrow> bytes \<Rightarrow> string list" where
  "paths_for_hash t h = sort (map fst (filter (\<lambda>(_, bound). bound = h) (et_tree t)))"

definition list_prefix :: "entity_tree \<Rightarrow> string \<Rightarrow> string list" where
  "list_prefix t p =
     (let full_prefix = normalize_uri (et_local t) p in
      sort (filter (\<lambda>uri. starts_with uri full_prefix) (map fst (et_tree t))))"

text \<open>Every path of the tree is absolute, and bound once.\<close>

definition tree_ok :: "entity_tree \<Rightarrow> bool" where
  "tree_ok t \<longleftrightarrow> dict_ok (et_tree t) \<and> (\<forall>uri \<in> fst ` set (et_tree t). starts_with uri ''/'')"

subsection \<open>Tree registry\<close>

text \<open>A configuration is the \<open>tree_id\<close> it carries, if any, and the rest of it.\<close>

record 'c tree_config =
  tc_tree_id :: "string option"
  tc_rest :: 'c

record 'c tree_registry =
  tr_default :: entity_tree
  tr_trees :: "(string, entity_tree) dict"
  tr_configs :: "(string, 'c tree_config) dict"

definition tr_get :: "'c tree_registry \<Rightarrow> string option \<Rightarrow> entity_tree option" where
  "tr_get r tree_id =
     (case tree_id of
        None \<Rightarrow> Some (tr_default r)
      | Some i \<Rightarrow> if i = [] then Some (tr_default r) else map_of (tr_trees r) i)"

definition tr_get_config :: "'c tree_registry \<Rightarrow> string \<Rightarrow> 'c tree_config option" where
  "tr_get_config r tree_id = map_of (tr_configs r) tree_id"

definition tr_exists :: "'c tree_registry \<Rightarrow> string \<Rightarrow> bool" where
  "tr_exists r tree_id = (tree_id \<in> fst ` set (tr_trees r))"

definition tr_create :: "'c tree_config \<Rightarrow> 'c tree_registry \<Rightarrow> (entity_tree \<times> 'c tree_registry) result" where
  "tr_create config r =
     (case tc_tree_id config of
        None \<Rightarrow> Inl ValueError
      | Some i \<Rightarrow>
          if i = [] then Inl ValueError
          else if tr_exists r i then Inl ValueError
          else
            let tree = new_tree (et_local (tr_default r)) in
            Inr (tree, r\<lparr>tr_trees := AList.update i tree (tr_trees r),
                         tr_configs := AList.update i config (tr_configs r)\<rparr>))"

definition tr_destroy :: "string \<Rightarrow> 'c tree_registry \<Rightarrow> 'c tree_registry result" where
  "tr_destroy tree_id r =
     (if tree_id = [] then Inl ValueError
      else if \<not> tr_exists r tree_id then Inl KeyError
      else Inr (r\<lparr>tr_trees := AList.delete tree_id (tr_trees r),
                  tr_configs := AList.delete tree_id (tr_configs r)\<rparr>))"

definition list_trees :: "'c tree_registry \<Rightarrow> string list" where
  "list_trees r = map fst (tr_trees r)"

definition registry_ok :: "'c tree_registry \<Rightarrow> bool" where
  "registry_ok r \<longleftrightarrow> dict_ok (tr_trees r) \<and> dict_ok (tr_configs r)
     \<and> map fst (tr_trees r) = map fst (tr_configs r) \<and> [] \<notin> fst ` set (tr_trees r)"

subsection \<open>The contract of a content-addressed store\<close>

text \<open>
  What its users (the trie, the emit pathway) rely on: an invariant, kept by \<open>put\<close>; that what is
  found under a hash has this hash; and what a lookup finds after a \<open>put\<close>.
\<close>

locale content_addressed =
  fixes hsh :: "'e \<Rightarrow> bytes"
    and put :: "'e \<Rightarrow> 's \<Rightarrow> 's"
    and lookup :: "'s \<Rightarrow> bytes \<Rightarrow> 'e option"
    and inv :: "'s \<Rightarrow> bool"
  assumes inv_put: "inv s \<Longrightarrow> inv (put e s)"
    and addressed: "inv s \<Longrightarrow> lookup s h = Some e \<Longrightarrow> hsh e = h"
    and lookup_put: "inv s \<Longrightarrow> lookup (put e s) h = (if lookup s h = None \<and> h = hsh e then Some e else lookup s h)"
begin

definition grows :: "'s \<Rightarrow> 's \<Rightarrow> bool" where
  "grows s s' \<longleftrightarrow> (\<forall>h e. lookup s h = Some e \<longrightarrow> lookup s' h = Some e)"

lemma grows_refl: "grows s s"
  by (simp add: grows_def)

lemma grows_trans: "grows s s' \<Longrightarrow> grows s' s'' \<Longrightarrow> grows s s''"
  by (simp add: grows_def)

lemma grows_put: "inv s \<Longrightarrow> grows s (put e s)"
  by (simp add: grows_def lookup_put)

lemma grows_fold: "inv s \<Longrightarrow> grows s (fold put es s) \<and> inv (fold put es s)"
proof (induction es arbitrary: s)
  case (Cons e es)
  from Cons.IH [OF inv_put [OF Cons.prems]] grows_put [OF Cons.prems] show ?case
    by (auto intro: grows_trans)
qed (simp add: grows_refl)

lemma present_after_put: "inv s \<Longrightarrow> \<exists>e'. lookup (put e s) (hsh e) = Some e' \<and> hsh e' = hsh e"
  using addressed by (cases "lookup s (hsh e)") (auto simp: lookup_put)

lemma lookup_fold_put:
  assumes "inv s" and "inj_on hsh (set es)"
  shows "lookup (fold put es s) h =
    (case lookup s h of Some e \<Rightarrow> Some e | None \<Rightarrow> find (\<lambda>e. hsh e = h) es)"
  using assms
proof (induction es arbitrary: s)
  case (Cons e es)
  have "inj_on hsh (set es)" using Cons.prems(2) by (rule inj_on_subset) auto
  with Cons.IH [OF inv_put [OF Cons.prems(1)]] Cons.prems(1) show ?case
    by (auto simp: lookup_put split: option.splits)
qed (simp split: option.split)

text \<open>Storing is idempotent, and in whichever order: what can be looked up is the same.\<close>

lemma put_twice: "inv s \<Longrightarrow> lookup (put e (put e s)) h = lookup (put e s) h"
  by (auto simp: lookup_put inv_put)

lemma fold_put_perm:
  assumes "inv s" and "inj_on hsh (set es)" and "set es = set es'"
  shows "lookup (fold put es s) h = lookup (fold put es' s) h"
proof -
  have "find (\<lambda>e. hsh e = h) es = find (\<lambda>e. hsh e = h) es'"
  proof (cases "\<exists>e \<in> set es. hsh e = h")
    case True
    then obtain e where e: "e \<in> set es" "hsh e = h" by blast
    have u: "x \<in> set es \<Longrightarrow> hsh x = h \<Longrightarrow> x = e" for x using e assms(2) by (auto dest: inj_onD)
    have "find (\<lambda>e. hsh e = h) ys = Some e" if "set ys = set es" for ys
    proof (cases "find (\<lambda>e. hsh e = h) ys")
      case None
      with e that show ?thesis by (auto simp: find_None_iff)
    next
      case (Some y)
      then have "y \<in> set ys \<and> hsh y = h" by (auto simp: find_Some_iff)
      with u that Some show ?thesis by auto
    qed
    with assms(3) show ?thesis by metis
  next
    case False
    then have "find (\<lambda>e. hsh e = h) es = None" "find (\<lambda>e. hsh e = h) es' = None"
      using assms(3) by (auto simp: find_None_iff)
    then show ?thesis by simp
  qed
  moreover have "inj_on hsh (set es')" using assms(2,3) by simp
  ultimately show ?thesis
    using lookup_fold_put [OF assms(1,2)] lookup_fold_put [OF assms(1), of es'] by metis
qed

end

subsection \<open>Facts\<close>

definition cs_ok :: "('e \<Rightarrow> bytes) \<Rightarrow> 'e content_store \<Rightarrow> bool" where
  "cs_ok hsh s \<longleftrightarrow> dict_ok s \<and> (\<forall>(h, e) \<in> set s. hsh e = h)"

lemma cs_has_iff: "cs_has s h \<longleftrightarrow> cs_get s h \<noteq> None"
  by (simp add: cs_has_def cs_get_def map_of_eq_None_iff)

lemma cs_put_snd: "snd (cs_put hsh e s) = (if cs_get s (hsh e) = None then AList.update (hsh e) e s else s)"
  by (simp add: cs_put_def cs_has_iff Let_def)

lemma cs_put_fst [simp]: "fst (cs_put hsh e s) = hsh e"
  by (simp add: cs_put_def Let_def)

lemma cs_ok_put: "cs_ok hsh s \<Longrightarrow> cs_ok hsh (snd (cs_put hsh e s))"
proof -
  assume ok: "cs_ok hsh s"
  have "set (AList.update h e s) \<subseteq> insert (h, e) (set s)" for h
    by (induction s) auto
  then have "hsh b = a" if "(a, b) \<in> set (AList.update (hsh e) e s)" for a b
    using ok that unfolding cs_ok_def by blast
  with ok show ?thesis by (auto simp: cs_ok_def cs_put_snd)
qed

lemma cs_get_put:
  "cs_get (snd (cs_put hsh e s)) h = (if cs_get s h = None \<and> h = hsh e then Some e else cs_get s h)"
  by (auto simp: cs_put_snd cs_get_def update_conv')

interpretation cs: content_addressed hsh "\<lambda>e s. snd (cs_put hsh e s)" cs_get "cs_ok hsh" for hsh
proof
  fix s :: "'a content_store" and e :: 'a and h
  show "cs_ok hsh s \<Longrightarrow> cs_ok hsh (snd (cs_put hsh e s))" by (rule cs_ok_put)
  show "cs_ok hsh s \<Longrightarrow> cs_get s h = Some e \<Longrightarrow> hsh e = h"
    by (auto simp: cs_ok_def cs_get_def dest: map_of_SomeD)
  show "cs_get (snd (cs_put hsh e s)) h = (if cs_get s h = None \<and> h = hsh e then Some e else cs_get s h)"
    by (rule cs_get_put)
qed

lemma ns_put_store: "ns_store (fst (snd (ns_put hsh e s))) = snd (cs_put hsh e (ns_store s))"
  by (simp add: ns_put_def cs_put_def Let_def)

text \<open>The notifying store keeps the same contract.\<close>

interpretation ns: content_addressed hsh "\<lambda>e s. fst (snd (ns_put hsh e s))" "\<lambda>s. cs_get (ns_store s)"
    "\<lambda>s. cs_ok hsh (ns_store s)" for hsh
proof
  fix s :: "'a notifying_store" and e :: 'a and h
  show "cs_ok hsh (ns_store s) \<Longrightarrow> cs_ok hsh (ns_store (fst (snd (ns_put hsh e s))))"
    by (simp add: ns_put_store cs_ok_put)
  show "cs_ok hsh (ns_store s) \<Longrightarrow> cs_get (ns_store s) h = Some e \<Longrightarrow> hsh e = h"
    by (rule cs.addressed)
  show "cs_get (ns_store (fst (snd (ns_put hsh e s)))) h =
      (if cs_get (ns_store s) h = None \<and> h = hsh e then Some e else cs_get (ns_store s) h)"
    by (simp add: ns_put_store cs_get_put)
qed

lemma normalize_uri_absolute: "starts_with (normalize_uri l path) ''/''"
  by (simp add: normalize_uri_def Let_def)

lemma normalize_uri_id: "starts_with path ''/'' \<Longrightarrow> normalize_uri l path = path"
  by (auto simp: normalize_uri_def ENTITY_SCHEME_def elim!: prefixE)

lemma normalize_uri_idem: "normalize_uri l (normalize_uri l' path) = normalize_uri l' path"
  by (simp add: normalize_uri_id normalize_uri_absolute)

lemma tree_ok_set: "tree_ok t \<Longrightarrow> tree_ok (et_set uri h t)"
  by (auto simp: tree_ok_def et_set_def dom_update [unfolded dom_map_of_conv_image_fst] normalize_uri_absolute)

lemma tree_ok_remove: "tree_ok t \<Longrightarrow> tree_ok (snd (et_remove uri t))"
  using AList.dom_delete_subset [of "normalize_uri (et_local t) uri" "et_tree t"]
  by (fastforce simp: tree_ok_def et_remove_def Let_def)

lemma et_get_set:
  "et_get (et_set uri h t) uri' =
     (if normalize_uri (et_local t) uri' = normalize_uri (et_local t) uri then Some h else et_get t uri')"
  by (simp add: et_get_def et_set_def update_conv')

lemma et_get_remove:
  "et_get (snd (et_remove uri t)) uri' =
     (if normalize_uri (et_local t) uri' = normalize_uri (et_local t) uri then None else et_get t uri')"
  by (simp add: et_get_def et_remove_def Let_def delete_conv')

lemma paths_for_hash_iff:
  "tree_ok t \<Longrightarrow> uri \<in> set (paths_for_hash t h) \<longleftrightarrow> starts_with uri ''/'' \<and> et_get t uri = Some h"
proof -
  assume ok: "tree_ok t"
  have "uri \<in> set (paths_for_hash t h) \<longleftrightarrow> (uri, h) \<in> set (et_tree t)"
    by (force simp: paths_for_hash_def)
  also have "\<dots> \<longleftrightarrow> map_of (et_tree t) uri = Some h"
    using ok by (simp add: tree_ok_def dict_ok_def)
  also have "\<dots> \<longleftrightarrow> starts_with uri ''/'' \<and> et_get t uri = Some h"
    using ok by (auto simp: et_get_def normalize_uri_id tree_ok_def dest: map_of_SomeD)
      (metis map_of_SomeD image_eqI fst_conv normalize_uri_id)+
  finally show ?thesis .
qed

lemma list_prefix_set:
  "tree_ok t \<Longrightarrow> uri \<in> set (list_prefix t p) \<longleftrightarrow>
     starts_with uri (normalize_uri (et_local t) p) \<and> et_get t uri \<noteq> None \<and> starts_with uri ''/''"
proof -
  assume ok: "tree_ok t"
  have "uri \<in> set (list_prefix t p) \<longleftrightarrow> starts_with uri (normalize_uri (et_local t) p) \<and> uri \<in> fst ` set (et_tree t)"
    by (auto simp: list_prefix_def Let_def)
  also have "\<dots> \<longleftrightarrow> starts_with uri (normalize_uri (et_local t) p) \<and> et_get t uri \<noteq> None \<and> starts_with uri ''/''"
    using ok normalize_uri_id [of uri "et_local t"]
    by (auto simp: et_get_def tree_ok_def map_of_eq_None_iff intro: rev_image_eqI)
  finally show ?thesis .
qed

subsection \<open>Properties\<close>

text \<open>
  The content store keeps what it is given, under its hash: in a well-formed store, after a \<open>put\<close>
  the returned hash is the entity's, a lookup finds an entity of that hash under it (the entity itself
  where hashes do not collide), nothing stored before is changed, a second \<open>put\<close> of the same entity is
  a no-op, and the lookups after storing several entities do not depend on their order.
\<close>

theorem content_store_contract:
  assumes "cs_ok hsh s"
  shows "fst (cs_put hsh e s) = hsh e \<and> cs_ok hsh (snd (cs_put hsh e s))
    \<and> (\<exists>e'. cs_get (snd (cs_put hsh e s)) (hsh e) = Some e' \<and> hsh e' = hsh e \<and> (inj hsh \<longrightarrow> e' = e))
    \<and> (cs_get s k = Some x \<longrightarrow> cs_get (snd (cs_put hsh e s)) k = Some x)
    \<and> snd (cs_put hsh e (snd (cs_put hsh e s))) = snd (cs_put hsh e s)
    \<and> (inj_on hsh (set es) \<and> set es = set es' \<longrightarrow>
        cs_get (fold (\<lambda>e s. snd (cs_put hsh e s)) es s) k = cs_get (fold (\<lambda>e s. snd (cs_put hsh e s)) es' s) k)"
proof -
  obtain e' where e': "cs_get (snd (cs_put hsh e s)) (hsh e) = Some e'" "hsh e' = hsh e"
    using cs.present_after_put [OF assms] by blast
  then have "inj hsh \<longrightarrow> e' = e" by (auto dest: injD)
  moreover have "snd (cs_put hsh e (snd (cs_put hsh e s))) = snd (cs_put hsh e s)"
    by (subst cs_put_snd) (simp add: e')
  moreover have "cs_get s k = Some x \<longrightarrow> cs_get (snd (cs_put hsh e s)) k = Some x"
    by (simp add: cs_get_put)
  ultimately show ?thesis
    using cs_put_fst [of hsh e s] cs_ok_put [OF assms] e' cs.fold_put_perm [OF assms, of es es' k] by blast
qed

theorem content_store_contract_witness:
  "\<exists>e'. cs_get (snd (cs_put (\<lambda>x. x) [1, 2] (empty_content_store))) [1, 2] = Some e' \<and> e' = [1, 2]"
proof -
  have "cs_ok (\<lambda>x. x) (empty_content_store :: bytes content_store)"
    by (simp add: cs_ok_def empty_content_store_def)
  from content_store_contract [OF this, of "[1, 2]"] show ?thesis by simp
qed

text \<open>
  C38. The entity tree is a map on absolute paths: \<open>set\<close> and \<open>remove\<close> keep it well formed and change the
  binding of exactly the paths that normalise to theirs, \<open>remove\<close> returns what was bound; normalising
  twice is normalising once, whatever peer normalises the second time; \<open>list_prefix\<close> returns, sorted
  and once each, the bound paths below the normalised prefix, and \<open>paths_for_hash\<close> those bound to the hash.
\<close>

theorem entity_tree_contract:
  assumes "tree_ok t"
  shows "tree_ok (et_set uri h t) \<and> tree_ok (snd (et_remove uri t)) \<and> fst (et_remove uri t) = et_get t uri
    \<and> et_get (et_set uri h t) p
        = (if normalize_uri (et_local t) p = normalize_uri (et_local t) uri then Some h else et_get t p)
    \<and> et_get (snd (et_remove uri t)) p
        = (if normalize_uri (et_local t) p = normalize_uri (et_local t) uri then None else et_get t p)
    \<and> normalize_uri l (normalize_uri l' p) = normalize_uri l' p
    \<and> sorted (list_prefix t p) \<and> distinct (list_prefix t p)
    \<and> set (list_prefix t p) = {q. starts_with q ''/'' \<and> et_get t q \<noteq> None \<and> starts_with q (normalize_uri (et_local t) p)}
    \<and> set (paths_for_hash t h) = {q. starts_with q ''/'' \<and> et_get t q = Some h}"
proof -
  have "sorted (list_prefix t p)" by (simp add: list_prefix_def Let_def)
  moreover have "distinct (list_prefix t p)"
    using assms by (simp add: list_prefix_def Let_def tree_ok_def dict_ok_def)
  moreover have "fst (et_remove uri t) = et_get t uri" by (simp add: et_remove_def et_get_def Let_def)
  ultimately show ?thesis
    using tree_ok_set [OF assms] tree_ok_remove [OF assms] et_get_set [of uri h t p] et_get_remove [of uri t p]
      normalize_uri_idem [of l l' p] list_prefix_set [OF assms] paths_for_hash_iff [OF assms]
    by blast
qed

theorem entity_tree_contract_witness:
  "let t = et_set ''data/x'' [7] (new_tree ''peer'') in
     et_get t ''/peer/data/x'' = Some [7] \<and> list_prefix t ''data/'' = [''/peer/data/x'']"
proof -
  have "tree_ok (new_tree ''peer'')" by (simp add: tree_ok_def new_tree_def)
  moreover have n: "normalize_uri (et_local (new_tree ''peer'')) ''data/x'' = ''/peer/data/x''"
    "normalize_uri (et_local (new_tree ''peer'')) ''/peer/data/x'' = ''/peer/data/x''" by code_simp+
  moreover have "list_prefix (et_set ''data/x'' [7] (new_tree ''peer'')) ''data/'' = [''/peer/data/x'']" by code_simp
  ultimately show ?thesis
    using entity_tree_contract [of "new_tree ''peer''" "''data/x''" "[7]" "''/peer/data/x''"] by simp
qed

text \<open>
  The life of a named tree: in a well-formed registry \<open>create\<close> succeeds exactly on a new, non-empty
  id and then the id names an empty tree of the same peer with its configuration, other ids and the
  default tree being unchanged; \<open>destroy\<close> succeeds exactly on an existing id, removes both, and after it
  the id can be created again; the default tree cannot be destroyed.
\<close>

theorem registry_lifecycle:
  assumes "registry_ok r"
  shows "((\<exists>t r'. tr_create config r = Inr (t, r')) \<longleftrightarrow>
        (\<exists>i. tc_tree_id config = Some i \<and> i \<noteq> [] \<and> \<not> tr_exists r i))
    \<and> (tc_tree_id config = Some i \<and> tr_create config r = Inr (t, r') \<longrightarrow>
        registry_ok r' \<and> tr_get r' (Some i) = Some (new_tree (et_local (tr_default r)))
        \<and> tr_get_config r' i = Some config \<and> tr_default r' = tr_default r
        \<and> (j \<noteq> i \<longrightarrow> tr_get r' (Some j) = tr_get r (Some j)))
    \<and> (tr_destroy i r = (if i = [] then Inl ValueError else if tr_exists r i
          then Inr (r\<lparr>tr_trees := AList.delete i (tr_trees r), tr_configs := AList.delete i (tr_configs r)\<rparr>)
          else Inl KeyError))
    \<and> (tr_destroy i r = Inr r'' \<longrightarrow>
        registry_ok r'' \<and> \<not> tr_exists r'' i \<and> tr_get r'' (Some i) = None \<and> tr_get_config r'' i = None
        \<and> tr_default r'' = tr_default r \<and> (j \<noteq> i \<longrightarrow> tr_get r'' (Some j) = tr_get r (Some j)))"
proof -
  have c: "(\<exists>t r'. tr_create config r = Inr (t, r')) \<longleftrightarrow>
        (\<exists>i. tc_tree_id config = Some i \<and> i \<noteq> [] \<and> \<not> tr_exists r i)"
    by (auto simp: tr_create_def Let_def split: option.splits)
  have cr: "registry_ok r' \<and> tr_get r' (Some i) = Some (new_tree (et_local (tr_default r)))
        \<and> tr_get_config r' i = Some config \<and> tr_default r' = tr_default r
        \<and> (j \<noteq> i \<longrightarrow> tr_get r' (Some j) = tr_get r (Some j))"
    if "tc_tree_id config = Some i" "tr_create config r = Inr (t, r')"
  proof -
    from that have i: "i \<noteq> []" "\<not> tr_exists r i"
      and r': "r' = r\<lparr>tr_trees := AList.update i (new_tree (et_local (tr_default r))) (tr_trees r),
                      tr_configs := AList.update i config (tr_configs r)\<rparr>"
      by (auto simp: tr_create_def Let_def split: if_splits)
    have "registry_ok r'"
      using assms i(1) unfolding registry_ok_def r'
      by (auto simp: AList.update_keys AList.dom_update)
    then show ?thesis using i by (simp add: r' tr_get_def tr_get_config_def update_conv')
  qed
  have ds: "registry_ok r'' \<and> \<not> tr_exists r'' i \<and> tr_get r'' (Some i) = None \<and> tr_get_config r'' i = None
        \<and> tr_default r'' = tr_default r \<and> (j \<noteq> i \<longrightarrow> tr_get r'' (Some j) = tr_get r (Some j))"
    if "tr_destroy i r = Inr r''"
  proof -
    from that have i: "i \<noteq> []"
      and r'': "r'' = r\<lparr>tr_trees := AList.delete i (tr_trees r), tr_configs := AList.delete i (tr_configs r)\<rparr>"
      by (auto simp: tr_destroy_def split: if_splits)
    have "registry_ok r''"
      using assms AList.dom_delete_subset [of i "tr_trees r"] unfolding registry_ok_def r''
      by (auto simp: AList.delete_keys)
    moreover have "\<not> tr_exists r'' i" by (simp add: tr_exists_def r'' AList.delete_notin_dom)
    ultimately show ?thesis using i by (simp add: r'' tr_get_def tr_get_config_def delete_conv')
  qed
  have "tr_destroy i r = (if i = [] then Inl ValueError else if tr_exists r i
          then Inr (r\<lparr>tr_trees := AList.delete i (tr_trees r), tr_configs := AList.delete i (tr_configs r)\<rparr>)
          else Inl KeyError)" by (simp add: tr_destroy_def)
  with c cr ds show ?thesis by blast
qed

theorem registry_lifecycle_witness:
  "\<exists>t r'. tr_create \<lparr>tc_tree_id = Some ''t'', tc_rest = ()\<rparr>
       \<lparr>tr_default = new_tree ''peer'', tr_trees = [], tr_configs = []\<rparr> = Inr (t, r')
     \<and> tr_get r' (Some ''t'') = Some (new_tree ''peer'') \<and> registry_ok r'"
proof -
  let ?r = "\<lparr>tr_default = new_tree ''peer'', tr_trees = [], tr_configs = []\<rparr> :: unit tree_registry"
  let ?c = "\<lparr>tc_tree_id = Some ''t'', tc_rest = ()\<rparr>"
  have ok: "registry_ok ?r" by (simp add: registry_ok_def)
  obtain t r' where c: "tr_create ?c ?r = Inr (t, r')"
    by (simp add: tr_create_def tr_exists_def Let_def)
  have "tc_tree_id ?c = Some ''t'' \<and> tr_create ?c ?r = Inr (t, r')" using c by simp
  with registry_lifecycle [OF ok, of ?c "''t''" t r' "''u''"]
  have "registry_ok r' \<and> tr_get r' (Some ''t'') = Some (new_tree (et_local (tr_default ?r)))" by blast
  with c show ?thesis by (auto simp: new_tree_def)
qed

end
