(* ===== verification/Revocation.thy ===== *)
theory Revocation
  imports Chain Stores
begin

section \<open>Revocation\<close>

text \<open>
  \<open>capability/revocation.py\<close>. The walk to the root has no bound of its own: it is a partial function,
  \<open>None\<close> when it does not end. What ends it is the set of content hashes it has visited.
\<close>

definition REVOCATIONS_ROOT :: string where
  "REVOCATIONS_ROOT = ''system/capability/revocations''"

definition GRANTS_ROOT :: string where
  "GRANTS_ROOT = ''system/capability/grants''"

record revocation_context =
  rc_tree :: entity_tree
  rc_store :: "entity content_store"
  rc_included :: "(bytes, entity) dict option"

definition capability_path_for :: "entity_tree \<Rightarrow> bytes \<Rightarrow> string option" where
  "capability_path_for t cap_hash =
     find (\<lambda>path. sublist (GRANTS_ROOT @ ''/'') path) (paths_for_hash t cap_hash)"

definition resolve_parent :: "bytes \<Rightarrow> entity content_store \<Rightarrow> (bytes, entity) dict option \<Rightarrow> entity option" where
  "resolve_parent parent_hash store included =
     (case cs_get store parent_hash of
        Some stored \<Rightarrow> Some stored
      | None \<Rightarrow> (case included of Some inc \<Rightarrow> map_of inc parent_hash | None \<Rightarrow> None))"

text \<open>Where the walk ends: at the root, or with the verdict revoked (a cycle, or a missing parent).\<close>

datatype walk_end = AtRoot entity | Opaque

partial_function (option) walk_to_root ::
  "entity content_store \<Rightarrow> (bytes, entity) dict option \<Rightarrow> bytes list \<Rightarrow> entity \<Rightarrow> walk_end option" where
  "walk_to_root store included visited current =
     (if \<not> has_parent (e_cap current) then Some (AtRoot current)
      else
        (case e_hash current of
           Some cur_hash \<Rightarrow>
             if cur_hash \<in> set visited then Some Opaque
             else (case resolve_parent (the (cd_parent (e_cap current))) store included of
                     None \<Rightarrow> Some Opaque
                   | Some parent \<Rightarrow> walk_to_root store included (cur_hash # visited) parent)
         | None \<Rightarrow>
             (case resolve_parent (the (cd_parent (e_cap current))) store included of
                None \<Rightarrow> Some Opaque
              | Some parent \<Rightarrow> walk_to_root store included visited parent)))"

text \<open>
  A root without a recorded hash is hashed again (\<open>rehash\<close>, the default algorithm of \<open>compute_hash\<close>).
\<close>

definition is_revoked :: "(entity \<Rightarrow> bytes) \<Rightarrow> entity \<Rightarrow> revocation_context \<Rightarrow> bool option" where
  "is_revoked rehash capability ctx =
     (case walk_to_root (rc_store ctx) (rc_included ctx) [] capability of
        None \<Rightarrow> None
      | Some Opaque \<Rightarrow> Some True
      | Some (AtRoot root) \<Rightarrow>
          let root_hash = (case e_hash root of Some h \<Rightarrow> h | None \<Rightarrow> rehash root);
              unbound = (case capability_path_for (rc_tree ctx) root_hash of
                           None \<Rightarrow> False
                         | Some root_path \<Rightarrow>
                             (case et_get (rc_tree ctx) root_path of
                                None \<Rightarrow> True
                              | Some bound \<Rightarrow> bound \<noteq> root_hash));
              marker_path = REVOCATIONS_ROOT @ ''/'' @ hex root_hash
          in Some (unbound \<or> et_get (rc_tree ctx) marker_path \<noteq> None))"

subsection \<open>Facts\<close>

lemma capability_path_bound:
  assumes "tree_ok t" and "capability_path_for t h = Some path"
  shows "et_get t path = Some h"
proof -
  from assms(2) have "path \<in> set (paths_for_hash t h)"
    by (auto simp: capability_path_for_def find_Some_iff in_set_conv_nth)
  with paths_for_hash_iff [OF assms(1)] show ?thesis by blast
qed

lemma is_revoked_iff:
  assumes "tree_ok (rc_tree ctx)" and "walk_to_root (rc_store ctx) (rc_included ctx) [] cap = Some (AtRoot root)"
  shows "is_revoked rehash cap ctx =
    Some (et_get (rc_tree ctx) (REVOCATIONS_ROOT @ ''/'' @ hex (case e_hash root of Some h \<Rightarrow> h | None \<Rightarrow> rehash root)) \<noteq> None)"
  using assms capability_path_bound [OF assms(1)]
  by (auto simp: is_revoked_def Let_def split: option.splits)

text \<open>A chain that ends is walked to its end.\<close>

lemma walk_linked:
  assumes "linked (\<lambda>h. resolve_parent h store included) (c # rest)"
    and "distinct (map e_hash (c # rest))" and "\<forall>e \<in> set (c # rest). e_hash e \<noteq> None"
    and "\<forall>e \<in> set (c # rest). the (e_hash e) \<notin> set visited"
  shows "walk_to_root store included visited c = Some (AtRoot (last (c # rest)))"
  using assms
proof (induction rest arbitrary: c visited)
  case Nil
  then show ?case by (subst walk_to_root.simps) simp
next
  case (Cons p rest)
  then obtain h where h: "cd_parent (e_cap c) = Some h" "h \<noteq> []" "resolve_parent h store included = Some p" by auto
  obtain k where k: "e_hash c = Some k" using Cons.prems(3) by auto
  have "walk_to_root store included (k # visited) p = Some (AtRoot (last (p # rest)))"
    by (rule Cons.IH) (use Cons.prems k in force)+
  moreover have "k \<notin> set visited" using Cons.prems(4) k by simp
  ultimately show ?case using h k by (subst walk_to_root.simps) (simp add: has_parent_def)
qed

text \<open>
  The walk ends when every link that can be resolved carries a content hash, of a finite number of
  links: each step visits a new one.
\<close>

definition hashes_in :: "entity content_store \<Rightarrow> (bytes, entity) dict option \<Rightarrow> bytes set" where
  "hashes_in store included =
     (\<lambda>e. the (e_hash e)) ` (snd ` set store \<union> (case included of None \<Rightarrow> {} | Some inc \<Rightarrow> snd ` set inc))"

definition all_hashed :: "entity content_store \<Rightarrow> (bytes, entity) dict option \<Rightarrow> bool" where
  "all_hashed store included \<longleftrightarrow>
     (\<forall>e \<in> snd ` set store \<union> (case included of None \<Rightarrow> {} | Some inc \<Rightarrow> snd ` set inc). e_hash e \<noteq> None)"

lemma resolve_parent_in:
  "resolve_parent h store included = Some p \<Longrightarrow>
     p \<in> snd ` set store \<union> (case included of None \<Rightarrow> {} | Some inc \<Rightarrow> snd ` set inc)"
  by (force simp: resolve_parent_def cs_get_def split: option.splits dest: map_of_SomeD)

lemma walk_ends_from:
  assumes "all_hashed store included" and "e_hash current \<noteq> None"
    and "the (e_hash current) \<in> hashes_in store included"
  shows "walk_to_root store included visited current \<noteq> None"
  using assms(2,3)
proof (induction "card (hashes_in store included - set visited)" arbitrary: visited current rule: less_induct)
  case less
  have fin: "finite (hashes_in store included)" by (simp add: hashes_in_def split: option.split)
  obtain h where h: "e_hash current = Some h" using less.prems by blast
  show ?case
  proof (cases "has_parent (e_cap current) \<and> h \<notin> set visited")
    case False
    then show ?thesis by (subst walk_to_root.simps) (auto simp: h)
  next
    case True
    show ?thesis
    proof (cases "resolve_parent (the (cd_parent (e_cap current))) store included")
      case None
      then show ?thesis by (subst walk_to_root.simps) (simp add: h)
    next
      case (Some p)
      from resolve_parent_in [OF Some] assms(1) have p: "e_hash p \<noteq> None" "the (e_hash p) \<in> hashes_in store included"
        by (auto simp: all_hashed_def hashes_in_def)
      have "h \<in> hashes_in store included - set visited" using less.prems(2) h True by simp
      then have "card (hashes_in store included - set (h # visited)) < card (hashes_in store included - set visited)"
        using fin by (intro psubset_card_mono) auto
      from less.hyps [OF this p] Some True show ?thesis by (subst walk_to_root.simps) (simp add: h)
    qed
  qed
qed

lemma walk_ends:
  assumes "all_hashed store included"
  shows "walk_to_root store included [] current \<noteq> None"
proof (cases "has_parent (e_cap current)")
  case False
  then show ?thesis by (subst walk_to_root.simps) simp
next
  case True
  show ?thesis
  proof (cases "resolve_parent (the (cd_parent (e_cap current))) store included")
    case None
    then show ?thesis by (subst walk_to_root.simps) (simp split: option.split)
  next
    case (Some p)
    from resolve_parent_in [OF Some] assms have "e_hash p \<noteq> None" "the (e_hash p) \<in> hashes_in store included"
      by (auto simp: all_hashed_def hashes_in_def)
    from walk_ends_from [OF assms this] Some show ?thesis by (subst walk_to_root.simps) (simp split: option.split)
  qed
qed

text \<open>On a parent without content hash that is its own parent the walk never ends.\<close>

lemma walk_self_loop:
  assumes "has_parent (e_cap c)" and "e_hash c = None"
    and "resolve_parent (the (cd_parent (e_cap c))) store included = Some c"
  shows "walk_to_root store included visited c = None"
proof -
  have never: "\<not> (s = store \<and> i = included \<and> x = c)" if "walk_to_root s i v x = Some y" for s i v x y
    using that
  proof (rule walk_to_root.raw_induct [where P = "\<lambda>s i v x y. \<not> (s = store \<and> i = included \<and> x = c)", rotated])
    fix walk s i v x y
    assume ih: "\<And>s i v x y. walk s i v x = Some y \<Longrightarrow> \<not> (s = store \<and> i = included \<and> x = c)"
      and step: "(if \<not> has_parent (e_cap x) then Some (AtRoot x)
            else case e_hash x of
              None \<Rightarrow> (case resolve_parent (the (cd_parent (e_cap x))) s i of None \<Rightarrow> Some Opaque | Some p \<Rightarrow> walk s i v p)
            | Some k \<Rightarrow> if k \<in> set v then Some Opaque
                else (case resolve_parent (the (cd_parent (e_cap x))) s i of None \<Rightarrow> Some Opaque
                      | Some p \<Rightarrow> walk s i (k # v) p)) = Some y"
    show "\<not> (s = store \<and> i = included \<and> x = c)"
    proof
      assume "s = store \<and> i = included \<and> x = c"
      with step assms have "walk store included v c = Some y" by simp
      with ih show False by blast
    qed
  qed
  show ?thesis
  proof (cases "walk_to_root store included visited c")
    case (Some y)
    from never [OF this] show ?thesis by simp
  qed
qed

lemma is_revoked_None: "is_revoked rehash cap ctx = None \<longleftrightarrow> walk_to_root (rc_store ctx) (rc_included ctx) [] cap = None"
  by (auto simp: is_revoked_def Let_def split: option.split walk_end.split)

subsection \<open>Properties\<close>

text \<open>
  C39. A capability whose chain resolves is revoked exactly by a marker: on a well-formed tree the verdict
  is whether something is bound at \<open>system/capability/revocations/{root hash}\<close>. Binding a marker revokes
  every capability under that root; removing any other path, the stored grant of the root included,
  leaves the verdict as it was, although the first of the two documented checks is there to catch it:
  the path it looks at is found by searching for one that is bound to the root hash.
\<close>

theorem revoked_iff_marker:
  assumes "tree_ok (rc_tree ctx)"
    and "linked (\<lambda>h. resolve_parent h (rc_store ctx) (rc_included ctx)) (cap # rest)"
    and "distinct (map e_hash (cap # rest))" and "\<forall>e \<in> set (cap # rest). e_hash e \<noteq> None"
    and "e_hash (last (cap # rest)) = Some root_hash"
  shows "let marker = REVOCATIONS_ROOT @ ''/'' @ hex root_hash; t = rc_tree ctx in
      is_revoked rehash cap ctx = Some (et_get t marker \<noteq> None)
      \<and> is_revoked rehash cap (ctx\<lparr>rc_tree := et_set marker h t\<rparr>) = Some True
      \<and> (normalize_uri (et_local t) p \<noteq> normalize_uri (et_local t) marker \<longrightarrow>
           is_revoked rehash cap (ctx\<lparr>rc_tree := snd (et_remove p t)\<rparr>) = is_revoked rehash cap ctx)"
proof -
  let ?m = "REVOCATIONS_ROOT @ ''/'' @ hex root_hash"
  have w: "walk_to_root (rc_store ctx) (rc_included ctx) [] cap = Some (AtRoot (last (cap # rest)))"
    by (rule walk_linked [OF assms(2-4)]) simp
  have iff: "is_revoked rehash cap (ctx\<lparr>rc_tree := t\<rparr>) = Some (et_get t ?m \<noteq> None)" if "tree_ok t" for t
    using is_revoked_iff [of "ctx\<lparr>rc_tree := t\<rparr>" cap "last (cap # rest)"] w that assms(5) by simp
  from iff [OF assms(1)] have "is_revoked rehash cap ctx = Some (et_get (rc_tree ctx) ?m \<noteq> None)" by simp
  with iff [OF tree_ok_set [OF assms(1), of ?m h]] iff [OF tree_ok_remove [OF assms(1), of p]]
  show ?thesis by (auto simp: Let_def et_get_set et_get_remove)
qed

theorem revoked_iff_marker_witness:
  "let t = et_set ''system/capability/grants/x'' [0, 1] (new_tree ''peer'');
       ctx = \<lparr>rc_tree = t, rc_store = [([0, 1], demo_root)], rc_included = None\<rparr>
   in is_revoked (\<lambda>_. []) demo_leaf ctx = Some False
      \<and> is_revoked (\<lambda>_. []) demo_leaf (ctx\<lparr>rc_tree := snd (et_remove ''system/capability/grants/x'' t)\<rparr>) = Some False"
proof -
  let ?t = "et_set ''system/capability/grants/x'' [0, 1] (new_tree ''peer'')"
  let ?ctx = "\<lparr>rc_tree = ?t, rc_store = [([0, 1], demo_root)], rc_included = None\<rparr>"
  have "tree_ok (new_tree ''peer'')" by (simp add: tree_ok_def new_tree_def)
  then have ok: "tree_ok (rc_tree ?ctx)" by (simp add: tree_ok_set)
  have l: "linked (\<lambda>h. resolve_parent h (rc_store ?ctx) (rc_included ?ctx)) (demo_leaf # [demo_root])"
    by (simp add: demo_leaf_def demo_root_def demo_token_def demo_cap_def resolve_parent_def cs_get_def has_parent_def)
  have d: "distinct (map e_hash (demo_leaf # [demo_root]))" "\<forall>e \<in> set (demo_leaf # [demo_root]). e_hash e \<noteq> None"
    "e_hash (last (demo_leaf # [demo_root])) = Some [0, 1]"
    by (simp_all add: demo_leaf_def demo_root_def demo_token_def)
  have "normalize_uri (et_local ?t) ''system/capability/grants/x''
      \<noteq> normalize_uri (et_local ?t) (REVOCATIONS_ROOT @ ''/'' @ hex [0, 1])"
    "et_get ?t (REVOCATIONS_ROOT @ ''/'' @ hex [0, 1]) = None" by code_simp+
  with revoked_iff_marker [OF ok l d, of "\<lambda>_. []" "[]" "''system/capability/grants/x''"] show ?thesis
    by (simp add: Let_def)
qed

text \<open>
  The walk of the revocation check ends whenever every capability it can resolve carries its content
  hash, cyclic or not; among capabilities without one it may not: a capability that names itself as
  parent under an envelope key, and carries no content hash, is walked for ever.
\<close>

theorem revocation_walk_ends:
  "(all_hashed (rc_store ctx) (rc_included ctx) \<longrightarrow> is_revoked rehash cap ctx \<noteq> None)
   \<and> (let loop = demo_token None [9] [8] (Some [4]) [] in
        is_revoked rehash loop \<lparr>rc_tree = new_tree [], rc_store = [], rc_included = Some [([4], loop)]\<rparr> = None)"
proof -
  let ?loop = "demo_token None [9] [8] (Some [4]) []"
  have "has_parent (e_cap ?loop)" "e_hash ?loop = None"
    "resolve_parent (the (cd_parent (e_cap ?loop))) [] (Some [([4], ?loop)]) = Some ?loop"
    by (simp_all add: demo_token_def has_parent_def resolve_parent_def cs_get_def)
  from walk_self_loop [OF this] show ?thesis
    using walk_ends by (simp add: is_revoked_None Let_def)
qed

theorem revocation_walk_ends_witness:
  "is_revoked (\<lambda>_. []) demo_leaf \<lparr>rc_tree = new_tree [], rc_store = [([0, 1], demo_root)], rc_included = None\<rparr> \<noteq> None"
proof -
  have "all_hashed [([0, 1], demo_root)] None" by (simp add: all_hashed_def demo_root_def demo_token_def)
  then show ?thesis
    using revocation_walk_ends [of "\<lparr>rc_tree = new_tree [], rc_store = [([0, 1], demo_root)], rc_included = None\<rparr>"]
    by simp
qed

end
