(* ===== verification/Bounds.thy ===== *)
theory Bounds
  imports Tokens
begin

section \<open>Request bounds\<close>

text \<open>
  \<open>protocol/bounds.py\<close>: the resource limits a request carries, their defaults, and their wire form. The
  object is a record; its in-place methods return the new record.
\<close>

definition DEFAULT_TTL :: int where "DEFAULT_TTL = 64"

definition DEFAULT_BUDGET :: int where "DEFAULT_BUDGET = 100000"

record bounds =
  b_ttl :: "int option"
  b_budget :: "int option"
  b_chain_id :: "string option"
  b_parent_chain_id :: "string option"
  b_visited :: "string list option"
  b_cascade_depth :: "int option"
  b_chain_depth :: "int option"

definition no_bounds :: bounds where
  "no_bounds = \<lparr>b_ttl = None, b_budget = None, b_chain_id = None, b_parent_chain_id = None, b_visited = None,
     b_cascade_depth = None, b_chain_depth = None\<rparr>"

definition apply_defaults :: "bounds \<Rightarrow> bounds" where
  "apply_defaults b =
     (let b1 = (if b_ttl b = None then b\<lparr>b_ttl := Some DEFAULT_TTL\<rparr> else b)
      in if b_budget b1 = None then b1\<lparr>b_budget := Some DEFAULT_BUDGET\<rparr> else b1)"

definition decrement_ttl :: "bounds \<Rightarrow> bounds" where
  "decrement_ttl b = (case b_ttl b of None \<Rightarrow> b | Some t \<Rightarrow> b\<lparr>b_ttl := Some (t - 1)\<rparr>)"

definition ttl_exhausted :: "bounds \<Rightarrow> bool" where
  "ttl_exhausted b = (case b_ttl b of None \<Rightarrow> False | Some t \<Rightarrow> t \<le> 0)"

definition budget_exhausted :: "bounds \<Rightarrow> bool" where
  "budget_exhausted b = (case b_budget b of None \<Rightarrow> False | Some n \<Rightarrow> n \<le> 0)"

text \<open>\<open>list(self.visited) if self.visited else None\<close>: an empty list is falsy.\<close>

definition copy_bounds :: "bounds \<Rightarrow> bounds" where
  "copy_bounds b = b\<lparr>b_visited := (case b_visited b of Some [] \<Rightarrow> None | v \<Rightarrow> v)\<rparr>"

definition to_dict :: "bounds \<Rightarrow> (string \<times> val) list" where
  "to_dict b =
     (case b_ttl b of None \<Rightarrow> [] | Some t \<Rightarrow> [(''ttl'', VInt t)])
     @ (case b_budget b of None \<Rightarrow> [] | Some n \<Rightarrow> [(''budget'', VInt n)])
     @ (case b_chain_id b of None \<Rightarrow> [] | Some s \<Rightarrow> [(''chain_id'', VStr s)])
     @ (case b_parent_chain_id b of None \<Rightarrow> [] | Some s \<Rightarrow> [(''parent_chain_id'', VStr s)])
     @ (case b_visited b of None \<Rightarrow> [] | Some vs \<Rightarrow> [(''visited'', VList (map VStr vs))])
     @ (case b_cascade_depth b of None \<Rightarrow> [] | Some n \<Rightarrow> [(''cascade_depth'', VInt n)])
     @ (case b_chain_depth b of None \<Rightarrow> [] | Some n \<Rightarrow> [(''chain_depth'', VInt n)])"

text \<open>
  \<open>from_dict\<close> keeps whatever value it finds; a value of another type than the field's annotation has no
  place in the record, so the readers are partial and the model covers dictionaries of the right types.
\<close>

definition as_int :: "val option \<Rightarrow> int option" where
  "as_int v = (case v of Some (VInt i) \<Rightarrow> Some i | _ \<Rightarrow> None)"

definition as_str :: "val option \<Rightarrow> string option" where
  "as_str v = (case v of Some (VStr s) \<Rightarrow> Some s | _ \<Rightarrow> None)"

definition as_strs :: "val option \<Rightarrow> string list option" where
  "as_strs v = (case v of Some (VList vs) \<Rightarrow> Some (map (\<lambda>x. case x of VStr s \<Rightarrow> s | _ \<Rightarrow> []) vs) | _ \<Rightarrow> None)"

definition from_dict :: "(string \<times> val) list option \<Rightarrow> bounds" where
  "from_dict d =
     (case d of
        None \<Rightarrow> no_bounds
      | Some kvs \<Rightarrow>
          \<lparr>b_ttl = as_int (map_of kvs ''ttl''), b_budget = as_int (map_of kvs ''budget''),
           b_chain_id = as_str (map_of kvs ''chain_id''),
           b_parent_chain_id = as_str (map_of kvs ''parent_chain_id''),
           b_visited = as_strs (map_of kvs ''visited''),
           b_cascade_depth = as_int (map_of kvs ''cascade_depth''),
           b_chain_depth = as_int (map_of kvs ''chain_depth'')\<rparr>)"

subsection \<open>Facts\<close>

lemma map_of_case_option:
  "map_of ((case x of None \<Rightarrow> [] | Some v \<Rightarrow> [(k, f v)]) @ d) k' =
     (if k' = k \<and> x \<noteq> None then map_option f x else map_of d k')"
  by (cases x) auto

lemma map_of_case_option_last:
  "map_of (case x of None \<Rightarrow> [] | Some v \<Rightarrow> [(k, f v)]) k' = (if k' = k then map_option f x else None)"
  by (cases x) auto

lemma decrement_times: "b_ttl ((decrement_ttl ^^ n) b) = map_option (\<lambda>t. t - int n) (b_ttl b)"
  by (induction n) (auto simp: decrement_ttl_def option.map_ident split: option.splits)

subsection \<open>Properties\<close>

text \<open>
  Bounds survive the wire: reading back the dictionary form gives the same bounds, whichever fields
  are present, and absent bounds read as no bounds.
\<close>

theorem bounds_roundtrip: "from_dict (Some (to_dict b)) = b \<and> from_dict None = no_bounds"
proof -
  have "as_int (map_option VInt x) = x" for x by (cases x) (simp_all add: as_int_def)
  moreover have "as_str (map_option VStr y) = y" for y by (cases y) (simp_all add: as_str_def)
  moreover have "as_strs (map_option (\<lambda>vs. VList (map VStr vs)) z) = z" for z
    by (cases z) (simp_all add: as_strs_def comp_def)
  moreover have "as_int None = None" "as_str None = None" "as_strs None = None"
    by (simp_all add: as_int_def as_str_def as_strs_def)
  ultimately show ?thesis
    unfolding from_dict_def to_dict_def option.case map_of_case_option map_of_case_option_last
    by (cases b) auto
qed

text \<open>
  C40. The hop budget bounds the hops: once the defaults are applied both limits are present and kept
  where the request set them, and after \<open>n\<close> dispatches the request is refused exactly when \<open>n\<close> has
  reached its \<open>ttl\<close>, 64 where it set none; copying the bounds changes no limit.
\<close>

theorem ttl_bounds_hops:
  "let b' = apply_defaults b; ttl = (case b_ttl b of Some t \<Rightarrow> t | None \<Rightarrow> 64) in
     b_ttl b' = Some ttl \<and> b_budget b' = Some (case b_budget b of Some n \<Rightarrow> n | None \<Rightarrow> 100000)
     \<and> (ttl_exhausted ((decrement_ttl ^^ n) b') \<longleftrightarrow> ttl \<le> int n)
     \<and> ttl_exhausted (copy_bounds b') = ttl_exhausted b' \<and> budget_exhausted (copy_bounds b') = budget_exhausted b'
     \<and> to_dict (copy_bounds b) = filter (\<lambda>(k, v). (k, v) \<noteq> (''visited'', VList [])) (to_dict b)"
proof -
  have "to_dict (copy_bounds b) = filter (\<lambda>(k, v). (k, v) \<noteq> (''visited'', VList [])) (to_dict b)"
    by (auto simp: to_dict_def copy_bounds_def split: option.splits list.splits)
  moreover have "b_ttl (apply_defaults b) = Some (case b_ttl b of Some t \<Rightarrow> t | None \<Rightarrow> 64)"
    "b_budget (apply_defaults b) = Some (case b_budget b of Some n \<Rightarrow> n | None \<Rightarrow> 100000)"
    by (auto simp: apply_defaults_def DEFAULT_TTL_def DEFAULT_BUDGET_def split: option.splits)
  moreover have "ttl_exhausted (copy_bounds b') = ttl_exhausted b'"
    "budget_exhausted (copy_bounds b') = budget_exhausted b'" for b'
    by (simp_all add: ttl_exhausted_def budget_exhausted_def copy_bounds_def)
  ultimately show ?thesis by (simp add: Let_def ttl_exhausted_def decrement_times)
qed

end
