(* ===== verification/Emit.thy ===== *)
theory Emit
  imports Stores Bounds
begin

section \<open>The emit pathway\<close>

text \<open>
  \<open>storage/emit.py\<close>: every write of the tree goes through \<open>emit\<close>, \<open>emit_hash\<close> or \<open>delete\<close>, which tell the
  internal hooks, which may write again, re-entrantly. A hook's run is a program of actions on the
  pathway, each seeing the result and the state before it chooses the next (\<open>prog\<close>); \<open>beh\<close> gives the
  program of a registered hook on an event. Calls nested in hooks are counted by the fuel of
  \<open>perform\<close>; Python's recursion limit is the fuel, and the call beyond it raises \<open>RecursionError\<close>.
  Asynchronous listeners run after the write: delivering to one appends to a task list.
\<close>

subsection \<open>Contexts, events and results\<close>

record emit_context =
  ec_author :: "string option"
  ec_chain_id :: "string option"
  ec_parent_chain_id :: "string option"
  ec_source :: string
  ec_bounds :: "bounds option"
  ec_capability :: "bytes option"
  ec_handler_pattern :: "string option"
  ec_operation :: "string option"
  ec_author_hash :: "bytes option"
  ec_caller_capability :: "bytes option"

definition plain_context :: emit_context where
  "plain_context = \<lparr>ec_author = None, ec_chain_id = None, ec_parent_chain_id = None, ec_source = ''handler'',
     ec_bounds = None, ec_capability = None, ec_handler_pattern = None, ec_operation = None,
     ec_author_hash = None, ec_caller_capability = None\<rparr>"

definition bootstrap_context :: emit_context where
  "bootstrap_context = plain_context\<lparr>ec_source := ''bootstrap''\<rparr>"

text \<open>What the two constructors read of a \<open>HandlerContext\<close>.\<close>

record handler_context =
  hc_remote_peer_id :: "string option"
  hc_chain_id :: "string option"
  hc_parent_chain_id :: "string option"
  hc_bounds :: "bounds option"
  hc_caller_capability_hash :: "bytes option"
  hc_handler_grant_hash :: "bytes option"
  hc_handler_pattern :: "string option"
  hc_remote_identity_hash :: "bytes option"

definition from_handler_context :: "handler_context \<Rightarrow> string \<Rightarrow> emit_context" where
  "from_handler_context ctx operation =
     \<lparr>ec_author = hc_remote_peer_id ctx, ec_chain_id = hc_chain_id ctx,
      ec_parent_chain_id = hc_parent_chain_id ctx, ec_source = ''handler'', ec_bounds = hc_bounds ctx,
      ec_capability = hc_caller_capability_hash ctx, ec_handler_pattern = hc_handler_pattern ctx,
      ec_operation = Some operation, ec_author_hash = hc_remote_identity_hash ctx,
      ec_caller_capability = None\<rparr>"

definition from_handler_grant :: "handler_context \<Rightarrow> string \<Rightarrow> emit_context" where
  "from_handler_grant ctx operation =
     (let caller_cap = hc_caller_capability_hash ctx; handler_cap = hc_handler_grant_hash ctx;
          include_caller = (if caller_cap \<noteq> None \<and> caller_cap \<noteq> Some [] \<and> caller_cap \<noteq> handler_cap
                            then caller_cap else None)
      in \<lparr>ec_author = hc_remote_peer_id ctx, ec_chain_id = hc_chain_id ctx,
          ec_parent_chain_id = hc_parent_chain_id ctx, ec_source = ''handler'', ec_bounds = hc_bounds ctx,
          ec_capability = handler_cap, ec_handler_pattern = hc_handler_pattern ctx,
          ec_operation = Some operation, ec_author_hash = hc_remote_identity_hash ctx,
          ec_caller_capability = include_caller\<rparr>)"

datatype change_kind = CREATED | UPDATED | DELETED

record 'e change_event =
  ev_kind :: change_kind
  ev_uri :: string
  ev_hash :: "bytes option"
  ev_entity :: "'e option"
  ev_previous_hash :: "bytes option"
  ev_context :: emit_context
  ev_cascade_depth :: nat

record halt_info =
  hi_name :: string
  hi_status :: int
  hi_intentional :: bool

record emit_result =
  er_hash :: "bytes option"
  er_status :: int
  er_completed :: "string list"
  er_halted :: "halt_info option"
  er_skipped :: "string list"
  er_cascade_depth :: nat

definition emit_pattern_matches :: "string \<Rightarrow> string \<Rightarrow> bool" where
  "emit_pattern_matches pattern uri =
     (if pattern = ''*'' then True
      else if ends_with pattern ''/*''
      then (let p = butlast pattern in starts_with uri p \<or> uri = butlast p)
      else pattern = uri)"

subsection \<open>State\<close>

text \<open>
  Hooks and listeners are numbered objects; the top of the context stack is the head of the list;
  \<open>es_loop\<close> is whether an event loop is running.
\<close>

record hook_entry =
  he_hook :: nat
  he_pattern :: "string option"
  he_name :: string

record 'e estate =
  es_store :: "'e content_store"
  es_tree :: entity_tree
  es_subs :: "(string \<times> nat) list"
  es_hooks :: "hook_entry list"
  es_depth :: nat
  es_stack :: "(string, val) dict list"
  es_owners :: "(string, string) dict"
  es_chain_depth :: "(string, int) dict"
  es_loop :: bool
  es_tasks :: "(nat \<times> 'e change_event) list"

definition SUBSCRIPTION_SUPPRESS_DEPTH :: nat where "SUBSCRIPTION_SUPPRESS_DEPTH = 8"

definition SYSTEM_REFUSE_DEPTH :: nat where "SYSTEM_REFUSE_DEPTH = 32"

definition cascade_context :: "'e estate \<Rightarrow> (string, val) dict" where
  "cascade_context st = (case es_stack st of [] \<Rightarrow> [] | frame # _ \<Rightarrow> frame)"

definition register_context_field :: "string \<Rightarrow> string \<Rightarrow> 'e estate \<Rightarrow> 'e estate result" where
  "register_context_field field_name owner st =
     (let existing = map_of (es_owners st) field_name in
      if existing \<noteq> None \<and> existing \<noteq> Some owner then Inl ValueError
      else Inr (st\<lparr>es_owners := AList.update field_name owner (es_owners st)\<rparr>))"

definition set_context_field :: "string \<Rightarrow> val \<Rightarrow> string \<Rightarrow> 'e estate \<Rightarrow> 'e estate result" where
  "set_context_field field_name v owner st =
     (let registered = map_of (es_owners st) field_name in
      if registered \<noteq> None \<and> registered \<noteq> Some owner then Inl ValueError
      else Inr (st\<lparr>es_stack := (case es_stack st of
                     [] \<Rightarrow> [] | frame # rest \<Rightarrow> AList.update field_name v frame # rest)\<rparr>))"

text \<open>\<open>bounds.cascade_depth or 0\<close>, and the depth tracked for the chain.\<close>

definition effective_cascade_depth :: "emit_context option \<Rightarrow> 'e estate \<Rightarrow> int" where
  "effective_cascade_depth ctx st =
     (let cross_peer =
            (case ctx of
               None \<Rightarrow> 0
             | Some c \<Rightarrow>
                 (case ec_bounds c of
                    None \<Rightarrow> 0
                  | Some b \<Rightarrow>
                      let bounds_depth = (case b_cascade_depth b of None \<Rightarrow> 0 | Some d \<Rightarrow> d);
                          tracked = (case b_chain_id b of
                                       None \<Rightarrow> 0
                                     | Some i \<Rightarrow> if i = [] then 0
                                         else (case map_of (es_chain_depth st) i of None \<Rightarrow> 0 | Some d \<Rightarrow> d))
                      in max bounds_depth tracked))
      in cross_peer + int (es_depth st))"

definition track_chain_depth :: "string \<Rightarrow> int \<Rightarrow> 'e estate \<Rightarrow> 'e estate" where
  "track_chain_depth chain_id depth st =
     (if chain_id = [] then st
      else
        let current = (case map_of (es_chain_depth st) chain_id of None \<Rightarrow> 0 | Some d \<Rightarrow> d) in
        if current < depth then st\<lparr>es_chain_depth := AList.update chain_id depth (es_chain_depth st)\<rparr> else st)"

definition subscription_pattern :: "entity_tree \<Rightarrow> string \<Rightarrow> string" where
  "subscription_pattern t pattern =
     (if pattern \<noteq> ''*'' \<and> \<not> starts_with pattern ''/'' then normalize_uri (et_local t) pattern else pattern)"

definition subscribe :: "string \<Rightarrow> nat \<Rightarrow> 'e estate \<Rightarrow> 'e estate" where
  "subscribe pattern listener st =
     st\<lparr>es_subs := es_subs st @ [(subscription_pattern (es_tree st) pattern, listener)]\<rparr>"

definition unsubscribe :: "nat \<Rightarrow> 'e estate \<Rightarrow> 'e estate" where
  "unsubscribe listener st = st\<lparr>es_subs := filter (\<lambda>(_, l). l \<noteq> listener) (es_subs st)\<rparr>"

definition add_internal_hook :: "nat \<Rightarrow> string option \<Rightarrow> string \<Rightarrow> 'e estate \<Rightarrow> 'e estate" where
  "add_internal_hook hook pattern name st =
     st\<lparr>es_hooks := es_hooks st @
        [\<lparr>he_hook = hook, he_pattern = map_option (subscription_pattern (es_tree st)) pattern, he_name = name\<rparr>]\<rparr>"

definition remove_internal_hook :: "nat \<Rightarrow> 'e estate \<Rightarrow> 'e estate" where
  "remove_internal_hook hook st = st\<lparr>es_hooks := filter (\<lambda>e. he_hook e \<noteq> hook) (es_hooks st)\<rparr>"

subsection \<open>Hook programs\<close>

datatype 'e action =
    AEmit string 'e emit_context
  | AEmitHash string bytes emit_context
  | ADelete string emit_context
  | APut 'e
  | ASetField string val string

text \<open>
  A program returns a status (\<open>None\<close> or a number), raises, or acts and goes on with what the action
  returned or raised.
\<close>

datatype 'e prog =
    Return "int option" | Raise | Do "'e action" "emit_result result \<Rightarrow> 'e estate \<Rightarrow> 'e prog"

datatype outcome = Status "int option" | Raised

type_synonym 'e performer = "'e action \<Rightarrow> 'e estate \<Rightarrow> emit_result result \<times> 'e estate"

primrec run_prog :: "'e performer \<Rightarrow> 'e prog \<Rightarrow> 'e estate \<Rightarrow> outcome \<times> 'e estate" where
  "run_prog pf (Return s) = (\<lambda>st. (Status s, st))"
| "run_prog pf Raise = (\<lambda>st. (Raised, st))"
| "run_prog pf (Do a k) = (\<lambda>st. case pf a st of (r, st') \<Rightarrow> run_prog pf (k r st') st')"

type_synonym 'e behaviour = "nat \<Rightarrow> 'e change_event \<Rightarrow> 'e estate \<Rightarrow> 'e prog"

subsection \<open>Dispatch\<close>

text \<open>\<open>status is None or 200 <= status < 300\<close>.\<close>

definition ok_status :: "int option \<Rightarrow> bool" where
  "ok_status s = (case s of None \<Rightarrow> True | Some n \<Rightarrow> 200 \<le> n \<and> n < 300)"

fun run_hooks ::
  "'e performer \<Rightarrow> 'e behaviour \<Rightarrow> 'e change_event \<Rightarrow> hook_entry list \<Rightarrow> string list \<Rightarrow> 'e estate
     \<Rightarrow> (string list \<times> halt_info option \<times> string list) \<times> 'e estate" where
  "run_hooks pf beh ev [] completed st = ((completed, None, []), st)"
| "run_hooks pf beh ev (entry # rest) completed st =
     (case run_prog pf (beh (he_hook entry) ev st) st of
        (Raised, st') \<Rightarrow>
          ((completed, Some \<lparr>hi_name = he_name entry, hi_status = 500, hi_intentional = False\<rparr>, map he_name rest), st')
      | (Status s, st') \<Rightarrow>
          if ok_status s then run_hooks pf beh ev rest (completed @ [he_name entry]) st'
          else ((completed, Some \<lparr>hi_name = he_name entry, hi_status = the s, hi_intentional = True\<rparr>,
                 map he_name rest), st'))"

definition matching_hooks :: "'e estate \<Rightarrow> string \<Rightarrow> hook_entry list" where
  "matching_hooks st uri =
     filter (\<lambda>e. case he_pattern e of None \<Rightarrow> True | Some p \<Rightarrow> emit_pattern_matches p uri) (es_hooks st)"

definition deliver :: "'e change_event \<Rightarrow> 'e estate \<Rightarrow> 'e estate" where
  "deliver ev st =
     (if es_loop st
      then st\<lparr>es_tasks := es_tasks st @
                map (\<lambda>(_, l). (l, ev)) (filter (\<lambda>(p, _). emit_pattern_matches p (ev_uri ev)) (es_subs st))\<rparr>
      else st)"

definition dispatch ::
  "'e performer \<Rightarrow> 'e behaviour \<Rightarrow> 'e change_event \<Rightarrow> 'e estate
     \<Rightarrow> (string list \<times> halt_info option \<times> string list) \<times> 'e estate" where
  "dispatch pf beh ev st =
     (case run_hooks pf beh ev (matching_hooks st (ev_uri ev)) [] st of
        ((completed, halted, skipped), st') \<Rightarrow>
          ((completed, halted, skipped),
           if halted = None \<and> es_depth st' < SUBSCRIPTION_SUPPRESS_DEPTH then deliver ev st' else st'))"

subsection \<open>The three writes\<close>

definition cascade_result ::
  "bytes option \<Rightarrow> nat \<Rightarrow> string list \<times> halt_info option \<times> string list \<Rightarrow> emit_result" where
  "cascade_result h depth r =
     (case r of (completed, halted, skipped) \<Rightarrow>
        if halted \<noteq> None
        then \<lparr>er_hash = h, er_status = 207, er_completed = completed, er_halted = halted,
              er_skipped = skipped, er_cascade_depth = depth\<rparr>
        else \<lparr>er_hash = h, er_status = 200, er_completed = completed, er_halted = None,
              er_skipped = [], er_cascade_depth = depth\<rparr>)"

definition refusal :: "nat \<Rightarrow> emit_result" where
  "refusal depth = \<lparr>er_hash = None, er_status = 503, er_completed = [], er_halted = None, er_skipped = [],
     er_cascade_depth = depth\<rparr>"

definition unchanged :: "bytes option \<Rightarrow> emit_result" where
  "unchanged h = \<lparr>er_hash = h, er_status = 200, er_completed = [], er_halted = None, er_skipped = [],
     er_cascade_depth = 0\<rparr>"

text \<open>One level deeper: a fresh context dictionary and a raised counter, both undone in the \<open>finally\<close>.\<close>

definition cascade ::
  "'e performer \<Rightarrow> 'e behaviour \<Rightarrow> 'e change_event \<Rightarrow> bytes \<Rightarrow> 'e estate \<Rightarrow> emit_result \<times> 'e estate" where
  "cascade pf beh ev h st =
     (case dispatch pf beh ev (st\<lparr>es_stack := [] # es_stack st, es_depth := es_depth st + 1\<rparr>) of
        (r, st') \<Rightarrow> (cascade_result (Some h) (ev_cascade_depth ev) r,
                     st'\<lparr>es_depth := es_depth st' - 1, es_stack := tl (es_stack st')\<rparr>))"

definition change_of :: "bytes option \<Rightarrow> bytes \<Rightarrow> change_kind option" where
  "change_of previous h = (case previous of None \<Rightarrow> Some CREATED | Some p \<Rightarrow> if p \<noteq> h then Some UPDATED else None)"

definition emit ::
  "'e performer \<Rightarrow> 'e behaviour \<Rightarrow> ('e \<Rightarrow> bytes) \<Rightarrow> string \<Rightarrow> 'e \<Rightarrow> emit_context \<Rightarrow> 'e estate
     \<Rightarrow> emit_result \<times> 'e estate" where
  "emit pf beh hsh uri entity ctx st =
     (if SYSTEM_REFUSE_DEPTH \<le> es_depth st then (refusal (es_depth st), st)
      else
        let (h, store) = cs_put hsh entity (es_store st);
            full_uri = normalize_uri (et_local (es_tree st)) uri;
            previous = et_get (es_tree st) full_uri;
            st1 = st\<lparr>es_store := store, es_tree := et_set full_uri h (es_tree st)\<rparr>
        in case change_of previous h of
             None \<Rightarrow> (unchanged (Some h), st1)
           | Some kind \<Rightarrow>
               cascade pf beh
                 \<lparr>ev_kind = kind, ev_uri = full_uri, ev_hash = Some h, ev_entity = Some entity,
                  ev_previous_hash = previous, ev_context = ctx, ev_cascade_depth = es_depth st\<rparr> h st1)"

definition emit_hash ::
  "'e performer \<Rightarrow> 'e behaviour \<Rightarrow> string \<Rightarrow> bytes \<Rightarrow> emit_context \<Rightarrow> 'e estate \<Rightarrow> emit_result \<times> 'e estate" where
  "emit_hash pf beh uri h ctx st =
     (if SYSTEM_REFUSE_DEPTH \<le> es_depth st then (refusal (es_depth st), st)
      else
        let full_uri = normalize_uri (et_local (es_tree st)) uri;
            previous = et_get (es_tree st) full_uri;
            st1 = st\<lparr>es_tree := et_set full_uri h (es_tree st)\<rparr>
        in case change_of previous h of
             None \<Rightarrow> (unchanged (Some h), st1)
           | Some kind \<Rightarrow>
               cascade pf beh
                 \<lparr>ev_kind = kind, ev_uri = full_uri, ev_hash = Some h, ev_entity = cs_get (es_store st1) h,
                  ev_previous_hash = previous, ev_context = ctx, ev_cascade_depth = es_depth st\<rparr> h st1)"

text \<open>\<open>delete\<close> dispatches at the depth it is called at: it neither tests nor raises the counter.\<close>

definition delete_path ::
  "'e performer \<Rightarrow> 'e behaviour \<Rightarrow> string \<Rightarrow> emit_context \<Rightarrow> 'e estate \<Rightarrow> emit_result \<times> 'e estate" where
  "delete_path pf beh uri ctx st =
     (let full_uri = normalize_uri (et_local (es_tree st)) uri;
          (previous, tree) = et_remove full_uri (es_tree st);
          st1 = st\<lparr>es_tree := tree\<rparr>
      in case previous of
           None \<Rightarrow> (unchanged None, st1)
         | Some p \<Rightarrow>
             (case dispatch pf beh
                 \<lparr>ev_kind = DELETED, ev_uri = full_uri, ev_hash = None, ev_entity = None,
                  ev_previous_hash = Some p, ev_context = ctx, ev_cascade_depth = 0\<rparr> st1 of
                (r, st') \<Rightarrow> (cascade_result (Some p) 0 r, st')))"

definition put_content_only :: "('e \<Rightarrow> bytes) \<Rightarrow> 'e \<Rightarrow> 'e estate \<Rightarrow> bytes \<times> 'e estate" where
  "put_content_only hsh entity st =
     (let (h, store) = cs_put hsh entity (es_store st) in (h, st\<lparr>es_store := store\<rparr>))"

subsection \<open>Re-entrant execution\<close>

definition act :: "'e performer \<Rightarrow> 'e behaviour \<Rightarrow> ('e \<Rightarrow> bytes) \<Rightarrow> 'e performer" where
  "act pf beh hsh a st =
     (case a of
        AEmit uri entity ctx \<Rightarrow> map_prod Inr id (emit pf beh hsh uri entity ctx st)
      | AEmitHash uri h ctx \<Rightarrow> map_prod Inr id (emit_hash pf beh uri h ctx st)
      | ADelete uri ctx \<Rightarrow> map_prod Inr id (delete_path pf beh uri ctx st)
      | APut entity \<Rightarrow> map_prod (\<lambda>h. Inr (unchanged (Some h))) id (put_content_only hsh entity st)
      | ASetField f v owner \<Rightarrow>
          (case set_context_field f v owner st of
             Inl e \<Rightarrow> (Inl e, st)
           | Inr st' \<Rightarrow> (Inr (unchanged None), st')))"

primrec perform :: "'e behaviour \<Rightarrow> ('e \<Rightarrow> bytes) \<Rightarrow> nat \<Rightarrow> 'e performer" where
  "perform beh hsh 0 = (\<lambda>a st. (Inl RecursionError, st))"
| "perform beh hsh (Suc n) = act (perform beh hsh n) beh hsh"


subsection \<open>What every action keeps\<close>

text \<open>
  The relation between the states before and after an action: the depth is back where it was, the
  frames below the current one are untouched, the registrations stand, contents are only added, tasks
  are only appended, and the invariants of store and tree are kept.
\<close>

definition kept :: "('e \<Rightarrow> bytes) \<Rightarrow> 'e estate \<Rightarrow> 'e estate \<Rightarrow> bool" where
  "kept hsh st st' \<longleftrightarrow>
     es_depth st' = es_depth st \<and> tl (es_stack st') = tl (es_stack st)
     \<and> length (es_stack st') = length (es_stack st)
     \<and> es_hooks st' = es_hooks st \<and> es_subs st' = es_subs st \<and> es_owners st' = es_owners st
     \<and> es_chain_depth st' = es_chain_depth st \<and> es_loop st' = es_loop st
     \<and> et_local (es_tree st') = et_local (es_tree st)
     \<and> prefix (es_tasks st) (es_tasks st')
     \<and> (tree_ok (es_tree st) \<longrightarrow> tree_ok (es_tree st'))
     \<and> (cs_ok hsh (es_store st) \<longrightarrow> cs_ok hsh (es_store st') \<and> cs.grows (es_store st) (es_store st'))"

lemma et_local_set [simp]: "et_local (et_set uri h t) = et_local t"
  by (simp add: et_set_def)

lemma kept_refl: "kept hsh st st"
  by (simp add: kept_def cs.grows_refl)

lemma kept_trans:
  assumes a: "kept hsh st st'" and b: "kept hsh st' st''"
  shows "kept hsh st st''"
proof -
  have "prefix (es_tasks st) (es_tasks st'')"
    using a b prefix_order.trans unfolding kept_def by blast
  moreover have "cs_ok hsh (es_store st) \<longrightarrow> cs_ok hsh (es_store st'') \<and> cs.grows (es_store st) (es_store st'')"
    using a b cs.grows_trans unfolding kept_def by blast
  moreover have "tree_ok (es_tree st) \<longrightarrow> tree_ok (es_tree st'')"
    using a b unfolding kept_def by blast
  ultimately show ?thesis
    using a b by (simp only: kept_def simp_thms)
qed

locale reentrant =
  fixes hsh :: "'e \<Rightarrow> bytes" and pf :: "'e performer"
  assumes performs_kept: "kept hsh st (snd (pf a st))"
begin

lemma run_prog_kept: "kept hsh st (snd (run_prog pf p st))"
proof (induction p arbitrary: st)
  case (Do a k)
  show ?case
  proof (cases "pf a st")
    case (Pair r st')
    with performs_kept [of st a] have "kept hsh st st'" by simp
    then have "kept hsh st (snd (run_prog pf (k r st') st'))"
      using Do.IH [OF rangeI rangeI] by (rule kept_trans)
    with Pair show ?thesis by simp
  qed
qed (simp_all add: kept_refl)

lemma run_hooks_kept: "kept hsh st (snd (run_hooks pf beh ev es completed st))"
proof (induction es arbitrary: completed st)
  case (Cons entry rest)
  let ?p = "beh (he_hook entry) ev st"
  show ?case
  proof (cases "run_prog pf ?p st")
    case (Pair o1 st')
    have k: "kept hsh st st'" using run_prog_kept [of st ?p] Pair by simp
    show ?thesis
    proof (cases o1)
      case (Status s)
      then show ?thesis
        using Pair k kept_trans [OF k Cons.IH] by simp
    qed (use Pair k in simp)
  qed
qed (simp add: kept_refl)

lemma deliver_kept: "kept hsh st (deliver ev st)"
  by (simp add: kept_def deliver_def cs.grows_refl)

lemma dispatch_kept: "kept hsh st (snd (dispatch pf beh ev st))"
proof -
  obtain c h s st' where r: "run_hooks pf beh ev (matching_hooks st (ev_uri ev)) [] st = ((c, h, s), st')"
    by (metis prod.collapse)
  have k: "kept hsh st st'"
    using run_hooks_kept [of st beh ev "matching_hooks st (ev_uri ev)" "[]"] r by simp
  then show ?thesis
    using kept_trans [OF k deliver_kept] by (simp add: dispatch_def r)
qed

lemma cascade_kept:
  "kept hsh st (snd (cascade pf beh ev h st))
   \<and> es_stack (snd (cascade pf beh ev h st)) = es_stack st"
proof -
  let ?in = "st\<lparr>es_stack := [] # es_stack st, es_depth := es_depth st + 1\<rparr>"
  obtain r st' where r: "dispatch pf beh ev ?in = (r, st')" by (cases "dispatch pf beh ev ?in")
  have "kept hsh ?in st'" using dispatch_kept [of ?in beh ev] by (simp only: r snd_conv)
  moreover have "cascade pf beh ev h st =
      (cascade_result (Some h) (ev_cascade_depth ev) r, st'\<lparr>es_depth := es_depth st' - 1, es_stack := tl (es_stack st')\<rparr>)"
    by (simp only: cascade_def r prod.case)
  ultimately show ?thesis by (simp add: kept_def)
qed

lemma emit_kept:
  "kept hsh st (snd (emit pf beh hsh uri entity ctx st))
   \<and> es_stack (snd (emit pf beh hsh uri entity ctx st)) = es_stack st"
proof (cases "SYSTEM_REFUSE_DEPTH \<le> es_depth st")
  case True
  then show ?thesis by (simp add: emit_def kept_refl)
next
  case False
  let ?full = "normalize_uri (et_local (es_tree st)) uri"
  let ?st1 = "st\<lparr>es_store := snd (cs_put hsh entity (es_store st)),
                 es_tree := et_set ?full (hsh entity) (es_tree st)\<rparr>"
  have k1: "kept hsh st ?st1"
    using cs.grows_put [of hsh "es_store st" entity]
    by (auto simp: kept_def cs_ok_put tree_ok_set)
  show ?thesis
  proof (cases "change_of (et_get (es_tree st) ?full) (hsh entity)")
    case None
    with False k1 show ?thesis by (simp add: emit_def Let_def split_beta)
  next
    case (Some kind)
    let ?ev = "\<lparr>ev_kind = kind, ev_uri = ?full, ev_hash = Some (hsh entity), ev_entity = Some entity,
                  ev_previous_hash = et_get (es_tree st) ?full, ev_context = ctx,
                  ev_cascade_depth = es_depth st\<rparr>"
    have e: "emit pf beh hsh uri entity ctx st = cascade pf beh ?ev (hsh entity) ?st1"
      using False Some by (simp add: emit_def Let_def split_beta)
    show ?thesis
      using cascade_kept [of ?st1 beh ?ev "hsh entity"] kept_trans [OF k1] by (simp add: e)
  qed
qed

lemma emit_hash_kept:
  "kept hsh st (snd (emit_hash pf beh uri h ctx st))
   \<and> es_stack (snd (emit_hash pf beh uri h ctx st)) = es_stack st"
proof (cases "SYSTEM_REFUSE_DEPTH \<le> es_depth st")
  case True
  then show ?thesis by (simp add: emit_hash_def kept_refl)
next
  case False
  let ?full = "normalize_uri (et_local (es_tree st)) uri"
  let ?st1 = "st\<lparr>es_tree := et_set ?full h (es_tree st)\<rparr>"
  have k1: "kept hsh st ?st1"
    by (auto simp: kept_def tree_ok_set cs.grows_refl)
  show ?thesis
  proof (cases "change_of (et_get (es_tree st) ?full) h")
    case None
    with False k1 show ?thesis by (simp add: emit_hash_def Let_def)
  next
    case (Some kind)
    let ?ev = "\<lparr>ev_kind = kind, ev_uri = ?full, ev_hash = Some h, ev_entity = cs_get (es_store st) h,
                  ev_previous_hash = et_get (es_tree st) ?full, ev_context = ctx,
                  ev_cascade_depth = es_depth st\<rparr>"
    have e: "emit_hash pf beh uri h ctx st = cascade pf beh ?ev h ?st1"
      using False Some by (simp add: emit_hash_def Let_def)
    show ?thesis
      using cascade_kept [of ?st1 beh ?ev h] kept_trans [OF k1] by (simp add: e)
  qed
qed

lemma delete_kept: "kept hsh st (snd (delete_path pf beh uri ctx st))"
proof -
  let ?full = "normalize_uri (et_local (es_tree st)) uri"
  let ?st1 = "st\<lparr>es_tree := snd (et_remove ?full (es_tree st))\<rparr>"
  have k1: "kept hsh st ?st1"
    by (auto simp: kept_def tree_ok_remove cs.grows_refl) (simp add: et_remove_def Let_def)
  show ?thesis
  proof (cases "fst (et_remove ?full (es_tree st))")
    case None
    with k1 show ?thesis by (simp add: delete_path_def Let_def split_beta)
  next
    case (Some p)
    then show ?thesis
      using kept_trans [OF k1 dispatch_kept] by (simp add: delete_path_def Let_def split_beta)
  qed
qed

lemma act_kept: "kept hsh st (snd (act pf beh hsh a st))"
proof (cases a)
  case (APut entity)
  then show ?thesis
    using cs.grows_put [of hsh "es_store st" entity]
    by (auto simp: act_def put_content_only_def split_beta kept_def cs_ok_put)
next
  case (ASetField f v owner)
  then show ?thesis
    by (auto simp: act_def set_context_field_def kept_def Let_def cs.grows_refl
        split: list.splits sum.splits)
qed (use emit_kept emit_hash_kept delete_kept in \<open>simp_all add: act_def\<close>)

end


lemma perform_reentrant: "reentrant hsh (perform beh hsh n)"
proof (induction n)
  case (Suc n)
  then show ?case
    by (simp add: reentrant.intro reentrant.act_kept)
qed (simp add: reentrant.intro kept_refl)

interpretation performing: reentrant hsh "perform beh hsh n" for hsh :: "'e \<Rightarrow> bytes" and beh n
  by (rule perform_reentrant)

subsection \<open>Enough fuel\<close>

fun non_deleting :: "'e action \<Rightarrow> bool" where
  "non_deleting (ADelete uri ctx) = False"
| "non_deleting a = True"

primrec delete_free :: "'e prog \<Rightarrow> bool" where
  "delete_free (Return s) = True"
| "delete_free Raise = True"
| "delete_free (Do a k) = (non_deleting a \<and> (\<forall>r st. delete_free (k r st)))"

locale agreeing = reentrant hsh pf for hsh :: "'e \<Rightarrow> bytes" and pf :: "'e performer" +
  fixes pf' :: "'e performer" and d :: nat
  assumes agree: "non_deleting a \<Longrightarrow> es_depth st = d \<Longrightarrow> pf a st = pf' a st"
begin

lemma run_prog_agree: "delete_free p \<Longrightarrow> es_depth st = d \<Longrightarrow> run_prog pf p st = run_prog pf' p st"
proof (induction p arbitrary: st)
  case (Do a k)
  obtain r st' where r: "pf a st = (r, st')" by (cases "pf a st")
  have "kept hsh st st'" using performs_kept [of st a] r by simp
  then have d': "es_depth st' = d" using Do.prems(2) by (simp add: kept_def)
  have "pf' a st = (r, st')" using agree [of a st] Do.prems r by simp
  moreover have "run_prog pf (k r st') st' = run_prog pf' (k r st') st'"
    using Do.IH [OF rangeI rangeI] Do.prems(1) d' by simp
  ultimately show ?case by (simp add: r)
qed simp_all

lemma run_hooks_agree:
  assumes hooks_delete_free: "\<And>h ev st. delete_free (beh h ev st)"
  shows "es_depth st = d \<Longrightarrow> run_hooks pf beh ev es completed st = run_hooks pf' beh ev es completed st"
proof (induction es arbitrary: completed st)
  case (Cons entry rest)
  let ?p = "beh (he_hook entry) ev st"
  obtain s st' where r: "run_prog pf ?p st = (s, st')" by (cases "run_prog pf ?p st")
  have r': "run_prog pf' ?p st = (s, st')"
    using run_prog_agree [OF hooks_delete_free Cons.prems] r by simp
  have "kept hsh st st'" using run_prog_kept [of st ?p] r by simp
  then have d': "es_depth st' = d" using Cons.prems by (simp add: kept_def)
  show ?case
    by (cases s) (simp_all add: r r' Cons.IH [OF d'])
qed simp

lemma dispatch_agree:
  "(\<And>h ev st. delete_free (beh h ev st)) \<Longrightarrow> es_depth st = d \<Longrightarrow> dispatch pf beh ev st = dispatch pf' beh ev st"
  by (simp add: dispatch_def run_hooks_agree)

lemma cascade_agree:
  "(\<And>h ev st. delete_free (beh h ev st)) \<Longrightarrow> Suc (es_depth st) = d \<Longrightarrow> cascade pf beh ev h st = cascade pf' beh ev h st"
  by (simp add: cascade_def dispatch_agree)

lemma act_agree:
  assumes free: "\<And>h ev st. delete_free (beh h ev st)" and "Suc (es_depth st) = d \<or> SYSTEM_REFUSE_DEPTH \<le> es_depth st" "non_deleting a"
  shows "act pf beh hsh a st = act pf' beh hsh a st"
proof (cases a)
  case (AEmit uri e ctx)
  have "emit pf beh hsh uri e ctx st = emit pf' beh hsh uri e ctx st"
    using assms(2) by (auto simp: emit_def Let_def split_beta cascade_agree [OF free] split: option.split)
  then show ?thesis by (simp add: act_def AEmit)
next
  case (AEmitHash uri h ctx)
  have "emit_hash pf beh uri h ctx st = emit_hash pf' beh uri h ctx st"
    using assms(2) by (auto simp: emit_hash_def Let_def cascade_agree [OF free] split: option.split)
  then show ?thesis by (simp add: act_def AEmitHash)
qed (use assms in \<open>simp_all add: act_def\<close>)

end

text \<open>At the refusal depth any two positive amounts of fuel agree.\<close>

interpretation refusing: agreeing hsh "perform beh hsh (Suc m)" "perform beh hsh (Suc n)" SYSTEM_REFUSE_DEPTH
  for hsh :: "'e \<Rightarrow> bytes" and beh m n
proof (intro agreeing.intro agreeing_axioms.intro perform_reentrant)
  fix a :: "'e action" and st :: "'e estate"
  show "non_deleting a \<Longrightarrow> es_depth st = SYSTEM_REFUSE_DEPTH
      \<Longrightarrow> perform beh hsh (Suc m) a st = perform beh hsh (Suc n) a st"
    by (cases a) (simp_all add: act_def emit_def emit_hash_def)
qed

lemma perform_enough:
  assumes free: "\<And>h ev st. delete_free (beh h ev st)"
  shows "non_deleting a \<Longrightarrow> SYSTEM_REFUSE_DEPTH - es_depth st < n \<Longrightarrow> n \<le> m
    \<Longrightarrow> perform beh hsh m a st = perform beh hsh n a st"
proof (induction n arbitrary: m a st)
  case (Suc n)
  then obtain m' where m: "m = Suc m'" "n \<le> m'" by (cases m) auto
  show ?case
  proof (cases "SYSTEM_REFUSE_DEPTH \<le> es_depth st")
    case True
    from Suc.prems(1) True show ?thesis
      by (cases a) (simp_all add: m act_def emit_def emit_hash_def)
  next
    case False
    have "agreeing hsh (perform beh hsh m') (perform beh hsh n) (Suc (es_depth st))"
    proof (intro agreeing.intro agreeing_axioms.intro perform_reentrant)
      fix b :: "'a action" and st' :: "'a estate"
      assume b: "non_deleting b" and d: "es_depth st' = Suc (es_depth st)"
      have "SYSTEM_REFUSE_DEPTH - es_depth st' < n"
        using d False Suc.prems(2) by simp
      from Suc.IH [OF b this m(2)] show "perform beh hsh m' b st' = perform beh hsh n b st'" .
    qed
    then show ?thesis
      using agreeing.act_agree [of hsh _ _ "Suc (es_depth st)" beh st a] free Suc.prems(1) by (simp add: m)
  qed
qed simp


subsection \<open>Dispatch in order\<close>

lemma run_hooks_order:
  "run_hooks pf beh ev es completed st = ((c, halted, s), st') \<Longrightarrow>
     completed @ map he_name es = c @ (case halted of None \<Rightarrow> [] | Some i \<Rightarrow> [hi_name i]) @ s
     \<and> (halted = None \<longrightarrow> s = [])
     \<and> (\<forall>i. halted = Some i \<longrightarrow> \<not> ok_status (Some (hi_status i)) \<and> (hi_intentional i \<or> hi_status i = 500))"
proof (induction es arbitrary: completed st)
  case (Cons entry rest)
  obtain o1 st1 where r: "run_prog pf (beh (he_hook entry) ev st) st = (o1, st1)"
    by (cases "run_prog pf (beh (he_hook entry) ev st) st")
  show ?case
  proof (cases o1)
    case (Status status)
    show ?thesis
    proof (cases "ok_status status")
      case True
      with Cons.prems r Status have "run_hooks pf beh ev rest (completed @ [he_name entry]) st1 = ((c, halted, s), st')"
        by simp
      from Cons.IH [OF this] show ?thesis by simp
    next
      case False
      then obtain n where "status = Some n" by (cases status) (auto simp: ok_status_def)
      with Cons.prems r Status False show ?thesis by auto
    qed
  next
    case Raised
    with Cons.prems r show ?thesis by (auto simp: ok_status_def)
  qed
qed auto

subsection \<open>A hook that rewrites what is deleted\<close>

text \<open>
  On a deletion the hook binds the path again and deletes it again; it listens to nothing else. One
  listener sees every event.
\<close>

definition spin_uri :: string where "spin_uri = ''/p''"

definition spin_hash :: "unit \<Rightarrow> bytes" where "spin_hash e = [0]"

definition spin :: "unit behaviour" where
  "spin hook ev st =
     (case ev_kind ev of
        DELETED \<Rightarrow> Do (AEmit spin_uri () plain_context)
                     (\<lambda>_ _. Do (ADelete spin_uri plain_context) (\<lambda>_ _. Return None))
      | _ \<Rightarrow> Return None)"

definition spin_state :: "unit estate" where
  "spin_state =
     \<lparr>es_store = [([0], ())], es_tree = \<lparr>et_local = ''me'', et_tree = [(spin_uri, [0])]\<rparr>,
      es_subs = [(''*'', 0)],
      es_hooks = [\<lparr>he_hook = 0, he_pattern = None, he_name = ''spin''\<rparr>], es_depth = 0, es_stack = [],
      es_owners = [], es_chain_depth = [], es_loop = True, es_tasks = []\<rparr>"

definition spinning :: "unit estate \<Rightarrow> bool" where
  "spinning st \<longleftrightarrow> es_hooks st = es_hooks spin_state \<and> es_subs st = es_subs spin_state \<and> es_loop st
     \<and> es_depth st = 0"

lemma spinning_kept: "spinning st \<Longrightarrow> kept spin_hash st st' \<Longrightarrow> spinning st'"
  by (simp add: spinning_def kept_def)

lemma spin_uri_fixed: "normalize_uri l spin_uri = spin_uri"
  by (rule normalize_uri_id) (simp add: spin_uri_def)

lemma spinning_emit:
  assumes "spinning st" "map_of (et_tree (es_tree st)) spin_uri = None"
  shows "let st' = snd (perform spin spin_hash (Suc n) (AEmit spin_uri () plain_context) st) in
     spinning st' \<and> map_of (et_tree (es_tree st')) spin_uri = Some [0]
     \<and> length (es_tasks st') = Suc (length (es_tasks st))"
proof -
  have e: "emit (perform spin spin_hash n) spin spin_hash spin_uri () plain_context st =
      cascade (perform spin spin_hash n) spin
        \<lparr>ev_kind = CREATED, ev_uri = spin_uri, ev_hash = Some [0], ev_entity = Some (),
         ev_previous_hash = None, ev_context = plain_context, ev_cascade_depth = 0\<rparr> [0]
        (st\<lparr>es_store := snd (cs_put spin_hash () (es_store st)), es_tree := et_set spin_uri [0] (es_tree st)\<rparr>)"
    using assms
    by (simp add: emit_def spinning_def SYSTEM_REFUSE_DEPTH_def spin_uri_fixed et_get_def change_of_def Let_def
        split_beta) (simp add: spin_hash_def)
  show ?thesis
    using assms(1)
    by (simp add: act_def e cascade_def dispatch_def matching_hooks_def spinning_def spin_state_def spin_def
        ok_status_def deliver_def SUBSCRIPTION_SUPPRESS_DEPTH_def emit_pattern_matches_def et_set_def
        spin_uri_fixed update_conv' Let_def)
qed

lemma spinning_delete:
  "spinning st \<Longrightarrow> map_of (et_tree (es_tree st)) spin_uri = Some [0] \<Longrightarrow>
     length (es_tasks st) + 2 * n < length (es_tasks (snd (perform spin spin_hash (Suc n) (ADelete spin_uri plain_context) st)))"
proof (induction n arbitrary: st)
  case 0
  then show ?case
    by (simp add: act_def delete_path_def dispatch_def matching_hooks_def spinning_def spin_state_def spin_def
        ok_status_def deliver_def SUBSCRIPTION_SUPPRESS_DEPTH_def emit_pattern_matches_def et_remove_def
        spin_uri_fixed Let_def)
next
  case (Suc n)
  let ?pf = "perform spin spin_hash (Suc n)"
  let ?ev = "\<lparr>ev_kind = DELETED, ev_uri = spin_uri, ev_hash = None, ev_entity = None,
                  ev_previous_hash = Some [0], ev_context = plain_context, ev_cascade_depth = 0\<rparr>"
  let ?st1 = "st\<lparr>es_tree := snd (et_remove spin_uri (es_tree st))\<rparr>"
  define st2 where "st2 = snd (?pf (AEmit spin_uri () plain_context) ?st1)"
  define st3 where "st3 = snd (?pf (ADelete spin_uri plain_context) st2)"
  have s1: "spinning ?st1" "map_of (et_tree (es_tree ?st1)) spin_uri = None"
    using Suc.prems by (simp_all add: spinning_def et_remove_def spin_uri_fixed delete_conv' Let_def)
  have s2: "spinning st2" "map_of (et_tree (es_tree st2)) spin_uri = Some [0]"
    "length (es_tasks st2) = Suc (length (es_tasks st))"
    using spinning_emit [OF s1, of n] by (simp_all add: st2_def Let_def)
  have s3: "spinning st3"
    unfolding st3_def by (rule spinning_kept [OF s2(1) performing.performs_kept])
  have len: "length (es_tasks st2) + 2 * n < length (es_tasks st3)"
    unfolding st3_def by (rule Suc.IH [OF s2(1,2)])
  have run: "run_prog ?pf (spin 0 ?ev ?st1) ?st1 = (Status None, st3)"
    by (simp add: spin_def split_beta st2_def st3_def del: perform.simps)
  have "perform spin spin_hash (Suc (Suc n)) (ADelete spin_uri plain_context) st =
      map_prod Inr id (delete_path ?pf spin spin_uri plain_context st)"
    by (simp only: perform.simps act_def action.case)
  also have "delete_path ?pf spin spin_uri plain_context st = (cascade_result (Some [0]) 0 ([''spin''], None, []), deliver ?ev st3)"
    using Suc.prems s1(1) s3 run
    by (simp add: delete_path_def et_remove_def spin_uri_fixed Let_def dispatch_def matching_hooks_def spinning_def
        spin_state_def ok_status_def SUBSCRIPTION_SUPPRESS_DEPTH_def del: perform.simps)
  finally show ?case
    using s3 s2(3) len
    by (simp add: deliver_def spinning_def spin_state_def emit_pattern_matches_def del: perform.simps)
qed


subsection \<open>Properties\<close>

text \<open>
  C36. Every write leaves the pathway as it found it: whatever the hooks do, and however deep they nest,
  after a write the cascade depth and the context frames below the current one are what they were (an
  \<open>emit\<close> leaves the whole stack alone), tree and store are still well formed, no stored content is
  lost, and tasks are only appended.
\<close>

theorem write_restores_pathway:
  assumes "tree_ok (es_tree st)" "cs_ok hsh (es_store st)"
  shows "let st' = snd (perform beh hsh n a st) in
     es_depth st' = es_depth st \<and> tl (es_stack st') = tl (es_stack st)
     \<and> length (es_stack st') = length (es_stack st)
     \<and> (\<forall>uri e ctx. a = AEmit uri e ctx \<longrightarrow> es_stack st' = es_stack st)
     \<and> tree_ok (es_tree st') \<and> cs_ok hsh (es_store st')
     \<and> (\<forall>h e. cs_get (es_store st) h = Some e \<longrightarrow> cs_get (es_store st') h = Some e)
     \<and> prefix (es_tasks st) (es_tasks st')"
proof -
  have k: "kept hsh st (snd (perform beh hsh n a st))" by (rule performing.performs_kept)
  have "es_stack (snd (perform beh hsh n (AEmit uri e ctx) st)) = es_stack st" for uri e ctx
    using performing.emit_kept [of hsh st beh] by (cases n) (simp_all add: act_def)
  with k assms show ?thesis
    unfolding kept_def cs.grows_def Let_def by simp
qed

theorem write_restores_pathway_witness:
  "es_depth (snd (perform spin spin_hash 3 (ADelete spin_uri plain_context) spin_state)) = 0"
proof -
  have "tree_ok (es_tree spin_state)" "cs_ok spin_hash (es_store spin_state)"
    by (simp_all add: spin_state_def tree_ok_def dict_ok_def spin_uri_def cs_ok_def spin_hash_def)
  from write_restores_pathway [OF this, of spin 3 "ADelete spin_uri plain_context"] show ?thesis
    by (simp add: Let_def spin_state_def del: perform.simps)
qed

text \<open>
  C37. Cascades are bounded: where no hook deletes, as many nested calls as levels are left below the
  refusal depth are enough, so no write ever runs into Python's recursion limit, however the hooks react
  to each other, and its result does not depend on how much stack there is.
\<close>

theorem cascades_bounded:
  assumes "\<And>h ev st. delete_free (beh h ev st)" "non_deleting a"
    and "SYSTEM_REFUSE_DEPTH - es_depth st < n" "n \<le> m"
  shows "perform beh hsh m a st = perform beh hsh n a st
    \<and> fst (perform beh hsh m a st) \<noteq> Inl RecursionError"
proof -
  from assms(3,4) obtain m' where m: "m = Suc m'" by (cases m) auto
  have "fst (act pf beh hsh a st) \<noteq> Inl RecursionError" for pf
  proof (cases a)
    case (ASetField f v owner)
    then show ?thesis
      by (cases "set_context_field f v owner st") (auto simp: act_def set_context_field_def Let_def split: if_splits)
  qed (simp_all add: act_def)
  then have "fst (perform beh hsh m a st) \<noteq> Inl RecursionError"
    unfolding m perform.simps(2) .
  with perform_enough [OF assms] show ?thesis by (rule conjI)
qed

definition echo :: "unit behaviour" where
  "echo hook ev st = Do (AEmit (ev_uri ev @ ''x'') () plain_context) (\<lambda>_ _. Return None)"

theorem cascades_bounded_witness:
  "perform echo spin_hash 1000 (AEmit ''/a'' () plain_context) spin_state
     = perform echo spin_hash 33 (AEmit ''/a'' () plain_context) spin_state"
  using cascades_bounded [of echo "AEmit ''/a'' () plain_context" spin_state 33 1000 spin_hash]
  by (simp add: echo_def spin_state_def SYSTEM_REFUSE_DEPTH_def del: perform.simps)

text \<open>
  A write commits before it is announced and reports what happened: \<open>emit\<close> answers 503 exactly at
  the refusal depth, with nothing changed; otherwise it answers with the entity's hash, 207 when a hook
  halted the cascade and 200 when none did. When hooks start, the path is bound to the hash, other paths
  are as before and the content is stored; they start exactly when the binding changed, with an event
  of the right kind, hash, previous hash and depth.
\<close>

theorem emit_commits_then_cascades:
  assumes "cs_ok hsh (es_store st)"
  shows "case emit pf beh hsh uri e ctx st of (r, st') \<Rightarrow>
     (if 32 \<le> es_depth st then er_status r = 503 \<and> er_hash r = None \<and> st' = st
      else er_hash r = Some (hsh e) \<and> er_status r = (if er_halted r = None then 200 else 207)
        \<and> (\<exists>st1. (\<forall>p. et_get (es_tree st1) p
                   = (if normalize_uri (et_local (es_tree st)) p = normalize_uri (et_local (es_tree st)) uri
                      then Some (hsh e) else et_get (es_tree st) p))
            \<and> (\<exists>e'. cs_get (es_store st1) (hsh e) = Some e' \<and> hsh e' = hsh e)
            \<and> (if et_get (es_tree st) uri = Some (hsh e) then st' = st1 \<and> er_completed r = []
               else (r, st') = cascade pf beh
                   \<lparr>ev_kind = (if et_get (es_tree st) uri = None then CREATED else UPDATED),
                    ev_uri = normalize_uri (et_local (es_tree st)) uri, ev_hash = Some (hsh e), ev_entity = Some e,
                    ev_previous_hash = et_get (es_tree st) uri, ev_context = ctx,
                    ev_cascade_depth = es_depth st\<rparr> (hsh e) st1)))"
proof (cases "SYSTEM_REFUSE_DEPTH \<le> es_depth st")
  case True
  then show ?thesis by (simp add: emit_def refusal_def SYSTEM_REFUSE_DEPTH_def)
next
  case False
  then have low: "\<not> 32 \<le> es_depth st" by (simp add: SYSTEM_REFUSE_DEPTH_def)
  let ?l = "et_local (es_tree st)" and ?full = "normalize_uri (et_local (es_tree st)) uri"
  let ?st1 = "st\<lparr>es_store := snd (cs_put hsh e (es_store st)), es_tree := et_set ?full (hsh e) (es_tree st)\<rparr>"
  have n: "et_get (es_tree st) ?full = et_get (es_tree st) uri"
    by (simp add: et_get_def normalize_uri_idem)
  have tree: "\<forall>p. et_get (es_tree ?st1) p
      = (if normalize_uri ?l p = ?full then Some (hsh e) else et_get (es_tree st) p)"
    by (simp add: et_get_set normalize_uri_idem)
  have store: "\<exists>e'. cs_get (es_store ?st1) (hsh e) = Some e' \<and> hsh e' = hsh e"
    using cs.present_after_put [OF assms, of e] by simp
  have verdict: "er_hash (fst (cascade pf beh ev (hsh e) s)) = Some (hsh e)
      \<and> er_status (fst (cascade pf beh ev (hsh e) s))
          = (if er_halted (fst (cascade pf beh ev (hsh e) s)) = None then 200 else 207)" for ev s
    by (auto simp: cascade_def cascade_result_def split: prod.splits)
  show ?thesis
  proof (cases "et_get (es_tree st) uri = Some (hsh e)")
    case True
    then have "emit pf beh hsh uri e ctx st = (unchanged (Some (hsh e)), ?st1)"
      using False n by (simp add: emit_def change_of_def Let_def split_beta)
    then show ?thesis
      using low tree store True by (simp add: unchanged_def)
  next
    case changed: False
    let ?ev = "\<lparr>ev_kind = (if et_get (es_tree st) uri = None then CREATED else UPDATED),
                ev_uri = ?full, ev_hash = Some (hsh e), ev_entity = Some e,
                ev_previous_hash = et_get (es_tree st) uri, ev_context = ctx, ev_cascade_depth = es_depth st\<rparr>"
    have "change_of (et_get (es_tree st) uri) (hsh e)
        = Some (if et_get (es_tree st) uri = None then CREATED else UPDATED)"
      using changed by (auto simp: change_of_def split: option.split)
    then have em: "emit pf beh hsh uri e ctx st = cascade pf beh ?ev (hsh e) ?st1"
      using False n by (simp add: emit_def Let_def split_beta)
    obtain r st' where c: "cascade pf beh ?ev (hsh e) ?st1 = (r, st')"
      by (cases "cascade pf beh ?ev (hsh e) ?st1")
    have v: "er_hash r = Some (hsh e) \<and> er_status r = (if er_halted r = None then 200 else 207)"
      using verdict [of ?ev ?st1] by (simp only: c fst_conv)
    have ex: "(\<forall>p. et_get (es_tree ?st1) p = (if normalize_uri ?l p = ?full then Some (hsh e) else et_get (es_tree st) p))
        \<and> (\<exists>e'. cs_get (es_store ?st1) (hsh e) = Some e' \<and> hsh e' = hsh e)
        \<and> (if et_get (es_tree st) uri = Some (hsh e) then st' = ?st1 \<and> er_completed r = []
           else (r, st') = cascade pf beh ?ev (hsh e) ?st1)"
      using tree store by (simp only: changed if_False c simp_thms)
    show ?thesis
      unfolding em c prod.case
      by (rule if_not_P [OF low, THEN iffD2], intro conjI)
        (use v in \<open>simp, simp\<close>, rule exI [of _ ?st1], rule ex)
  qed
qed

theorem emit_commits_then_cascades_witness:
  "er_status (fst (emit (perform echo spin_hash 1) echo spin_hash ''/a'' () plain_context
     (spin_state\<lparr>es_depth := 32\<rparr>))) = 503"
proof -
  have "cs_ok spin_hash (es_store (spin_state\<lparr>es_depth := 32\<rparr>))"
    by (simp add: spin_state_def cs_ok_def dict_ok_def spin_hash_def)
  from emit_commits_then_cascades [OF this, where pf = "perform echo spin_hash 1" and beh = echo and uri = "''/a''"
    and e = "()" and ctx = plain_context]
  show ?thesis by (simp add: spin_state_def split_beta del: perform.simps)
qed

text \<open>
  The consumers of an event are told in the order they registered: the matching hooks are the
  completed ones, then the one that halted (which raised, reported as 500, or answered outside 2xx),
  then the skipped ones. The listeners whose pattern matches get one task each, after every hook, and
  only when no hook halted, the depth is below the suppression depth and an event loop runs.
\<close>

theorem dispatch_in_order:
  "case dispatch (perform beh hsh n) beh ev st of ((completed, halted, skipped), st') \<Rightarrow>
     map he_name (matching_hooks st (ev_uri ev))
       = completed @ (case halted of None \<Rightarrow> [] | Some i \<Rightarrow> [hi_name i]) @ skipped
     \<and> (halted = None \<longrightarrow> skipped = [])
     \<and> (\<forall>i. halted = Some i \<longrightarrow> (hi_status i < 200 \<or> 300 \<le> hi_status i) \<and> (hi_intentional i \<or> hi_status i = 500))
     \<and> (let st1 = snd (run_hooks (perform beh hsh n) beh ev (matching_hooks st (ev_uri ev)) [] st) in
        st' = (if halted = None \<and> es_depth st < 8 \<and> es_loop st
               then st1\<lparr>es_tasks := es_tasks st1 @
                      map (\<lambda>(p, l). (l, ev)) (filter (\<lambda>(p, l). emit_pattern_matches p (ev_uri ev)) (es_subs st))\<rparr>
               else st1))"
proof -
  obtain c h s st1 where r: "run_hooks (perform beh hsh n) beh ev (matching_hooks st (ev_uri ev)) [] st = ((c, h, s), st1)"
    by (metis prod.collapse)
  have "kept hsh st st1"
    using performing.run_hooks_kept [of hsh st beh n beh ev "matching_hooks st (ev_uri ev)" "[]"] r by simp
  then have "es_depth st1 = es_depth st" "es_loop st1 = es_loop st" "es_subs st1 = es_subs st"
    by (simp_all add: kept_def)
  with run_hooks_order [OF r] show ?thesis
    by (auto simp: dispatch_def r deliver_def ok_status_def SUBSCRIPTION_SUPPRESS_DEPTH_def Let_def not_le)
qed

theorem dispatch_in_order_witness:
  "case dispatch (perform spin spin_hash 0) (\<lambda>_ _ _. Raise)
       \<lparr>ev_kind = DELETED, ev_uri = spin_uri, ev_hash = None, ev_entity = None, ev_previous_hash = Some [0],
        ev_context = plain_context, ev_cascade_depth = 0\<rparr> spin_state of
     ((completed, halted, skipped), st') \<Rightarrow>
       [''spin''] = completed @ (case halted of None \<Rightarrow> [] | Some i \<Rightarrow> [hi_name i]) @ skipped"
proof -
  let ?ev = "\<lparr>ev_kind = DELETED, ev_uri = spin_uri, ev_hash = None, ev_entity = None, ev_previous_hash = Some [0],
        ev_context = plain_context, ev_cascade_depth = 0\<rparr>"
  have m: "map he_name (matching_hooks spin_state spin_uri) = [''spin'']"
    by (simp add: matching_hooks_def spin_state_def)
  have "perform (\<lambda>_ _ _. Raise) spin_hash 0 = perform spin spin_hash 0" by simp
  then show ?thesis
    using dispatch_in_order [where beh = "\<lambda>_ _ _. Raise" and hsh = spin_hash and n = 0 and ev = ?ev and st = spin_state]
    by (auto simp: m split: prod.splits)
qed

text \<open>
  \<open>delete\<close> escapes the bound: it neither tests nor raises the depth, so one hook that writes a
  deleted path again and deletes it again nests as deep as the stack allows; the events announced grow
  with every level there is, although \<open>emit\<close> alone would stop at depth 32.
\<close>

theorem delete_cascade_unbounded:
  "2 * n < length (es_tasks (snd (perform spin spin_hash (Suc n) (ADelete spin_uri plain_context) spin_state)))"
  using spinning_delete [of spin_state n] by (simp add: spinning_def) (simp add: spin_state_def del: perform.simps)

end
