(* ===== verification/Snapshot_Trie.thy ===== *)
theory Snapshot_Trie
  imports Stores
begin

section \<open>Snapshot tries\<close>

text \<open>
  \<open>storage/trie.py\<close>: a hash array mapped trie of the bindings of a snapshot, kept in the content store.
  \<open>route\<close> is \<open>hash_bytes_of\<close>, the SHA-256 of the normalised key, and \<open>hsh\<close> the content hash of an
  entity. A store also holds entities that are no trie nodes. The 32 positions of a node are a 32-bit
  map; \<open>data\<close> lists the entries of the occupied ones in ascending order.
\<close>

definition BIT_WIDTH :: nat where "BIT_WIDTH = 5"
definition BUCKET_SIZE :: nat where "BUCKET_SIZE = 3"
definition HASH_BITS :: nat where "HASH_BITS = 256"
definition MAX_LEVELS :: nat where "MAX_LEVELS = HASH_BITS div BIT_WIDTH"

type_synonym tuples = "(string \<times> bytes) list"

datatype trie_entry = Bucket tuples | Link bytes

datatype trie_node = Node (nd_map: "32 word") (nd_data: "trie_entry list")

datatype 'x stored = TrieNode trie_node | OtherEntity 'x

definition join_path :: "string \<Rightarrow> string \<Rightarrow> string" where
  "join_path p s = (if p = [] then s else if s = [] then p else p @ ''/'' @ s)"

subsection \<open>Routing and bitmaps\<close>

text \<open>The 5-bit slice of the routing hash for a level, most significant bit first.\<close>

definition position_at_level :: "bytes \<Rightarrow> nat \<Rightarrow> nat result" where
  "position_at_level routing_hash level =
     (if MAX_LEVELS \<le> level then Inl ValueError
      else
        let bit_start = level * BIT_WIDTH; byte_idx = bit_start div 8; bit_offset = bit_start mod 8 in
        if bit_offset + BIT_WIDTH \<le> 8
        then bind_r (item_at routing_hash byte_idx)
               (\<lambda>b. Inr (drop_bit (8 - bit_offset - BIT_WIDTH) (unat b) AND 0x1F))
        else
          let high_bits = 8 - bit_offset; low_bits = BIT_WIDTH - high_bits in
          bind_r (item_at routing_hash byte_idx)
            (\<lambda>b. bind_r (item_at routing_hash (byte_idx + 1))
               (\<lambda>c. Inr (push_bit low_bits (unat b AND (2 ^ high_bits - 1)) OR drop_bit (8 - low_bits) (unat c)))))"

definition popcount :: "32 word \<Rightarrow> nat" where
  "popcount x = length (filter (bit x) [0..<32])"

definition data_index :: "32 word \<Rightarrow> nat \<Rightarrow> nat" where
  "data_index bitmap position = popcount (bitmap AND (push_bit position 1 - 1))"

fun bit_length :: "nat \<Rightarrow> nat" where
  "bit_length n = (if n = 0 then 0 else Suc (bit_length (n div 2)))"

declare bit_length.simps [simp del]

text \<open>The generator isolates the lowest set bit (\<open>bitmap & -bitmap\<close>), yields its index and clears it.\<close>

fun set_bits_from :: "nat \<Rightarrow> 32 word \<Rightarrow> nat list" where
  "set_bits_from 0 bitmap = []"
| "set_bits_from (Suc n) bitmap =
     (if bitmap = 0 then []
      else let lsb = bitmap AND - bitmap in
        (bit_length (unat lsb) - 1) # set_bits_from n (bitmap XOR lsb))"

text \<open>Every round clears a bit, so 32 rounds are the whole loop.\<close>

definition set_bits :: "32 word \<Rightarrow> nat list" where
  "set_bits bitmap = set_bits_from 32 bitmap"

definition empty_node :: trie_node where
  "empty_node = Node 0 []"

definition load_node :: "bytes \<Rightarrow> 'x stored content_store \<Rightarrow> trie_node" where
  "load_node node_hash cs =
     (case cs_get cs node_hash of
        Some (TrieNode node) \<Rightarrow> node
      | _ \<Rightarrow> empty_node)"

definition store_node :: "('x stored \<Rightarrow> bytes) \<Rightarrow> trie_node \<Rightarrow> 'x stored content_store \<Rightarrow> bytes \<times> 'x stored content_store" where
  "store_node hsh node cs = cs_put hsh (TrieNode node) cs"

subsection \<open>Insertion\<close>

fun group_tuples ::
  "(string \<Rightarrow> bytes) \<Rightarrow> nat \<Rightarrow> tuples \<Rightarrow> (nat, tuples) dict \<Rightarrow> (nat, tuples) dict result" where
  "group_tuples route level [] groups = Inr groups"
| "group_tuples route level ((k, v) # tuples) groups =
     bind_r (position_at_level (route k) level)
       (\<lambda>p. group_tuples route level tuples
              (AList.update p ((case map_of groups p of None \<Rightarrow> [] | Some g \<Rightarrow> g) @ [(k, v)]) groups))"

text \<open>
  \<open>build_entries\<close> is the second loop of \<open>_build_sub_node\<close>. Its level test is never false, for the first
  loop raises on the first tuple beyond the last level; it makes the recursion terminate.
\<close>

function (sequential) build_sub_node ::
    "(string \<Rightarrow> bytes) \<Rightarrow> ('x stored \<Rightarrow> bytes) \<Rightarrow> tuples \<Rightarrow> nat \<Rightarrow> 'x stored content_store
       \<Rightarrow> trie_node result \<times> 'x stored content_store"
  and build_entries ::
    "(string \<Rightarrow> bytes) \<Rightarrow> ('x stored \<Rightarrow> bytes) \<Rightarrow> (nat, tuples) dict \<Rightarrow> nat list \<Rightarrow> nat \<Rightarrow> trie_node
       \<Rightarrow> 'x stored content_store \<Rightarrow> trie_node result \<times> 'x stored content_store" where
  "build_sub_node route hsh tuples level cs =
     (case group_tuples route level tuples [] of
        Inl e \<Rightarrow> (Inl e, cs)
      | Inr groups \<Rightarrow> build_entries route hsh groups (sort (map fst groups)) level (Node 0 []) cs)"
| "build_entries route hsh groups [] level (Node bitmap data) cs = (Inr (Node bitmap data), cs)"
| "build_entries route hsh groups (p # ps) level (Node bitmap data) cs =
     (let group = the (map_of groups p); bitmap' = bitmap OR push_bit p 1 in
      if length group \<le> BUCKET_SIZE
      then build_entries route hsh groups ps level (Node bitmap' (data @ [Bucket (sort_key fst group)])) cs
      else if level < MAX_LEVELS
      then and_then (build_sub_node route hsh group (level + 1) cs)
             (\<lambda>sub cs1. let (sub_hash, cs2) = store_node hsh sub cs1 in
                build_entries route hsh groups ps level (Node bitmap' (data @ [Link sub_hash])) cs2)
      else (Inl ValueError, cs))"
  by pat_completeness auto
termination
  by (relation "measures [\<lambda>x. case x of Inl (_, _, _, level, _) \<Rightarrow> MAX_LEVELS - level
                            | Inr (_, _, _, _, level, _, _) \<Rightarrow> MAX_LEVELS - level,
                          \<lambda>x. case x of Inl _ \<Rightarrow> 1 | Inr _ \<Rightarrow> 0,
                          \<lambda>x. case x of Inl _ \<Rightarrow> 0 | Inr (_, _, _, ps, _, _, _) \<Rightarrow> length ps]") auto

function put_at ::
  "(string \<Rightarrow> bytes) \<Rightarrow> ('x stored \<Rightarrow> bytes) \<Rightarrow> trie_node \<Rightarrow> bytes \<Rightarrow> nat \<Rightarrow> string \<Rightarrow> bytes
     \<Rightarrow> 'x stored content_store \<Rightarrow> trie_node result \<times> 'x stored content_store" where
  "put_at route hsh node routing level key value_hash cs =
     (case position_at_level routing level of
        Inl e \<Rightarrow> (Inl e, cs)
      | Inr p \<Rightarrow>
          let idx = data_index (nd_map node) p in
          if nd_map node AND push_bit p 1 = 0
          then (Inr (Node (nd_map node OR push_bit p 1)
                       (insert_at idx (Bucket [(key, value_hash)]) (nd_data node))), cs)
          else
            (case item_at (nd_data node) idx of
               Inl e \<Rightarrow> (Inl e, cs)
             | Inr (Bucket bucket) \<Rightarrow>
                 (case map_of bucket key of
                    Some old \<Rightarrow>
                      if old = value_hash then (Inr node, cs)
                      else (Inr (Node (nd_map node)
                                   ((nd_data node)[idx := Bucket (AList.update key value_hash bucket)])), cs)
                  | None \<Rightarrow>
                      if length bucket < BUCKET_SIZE
                      then (Inr (Node (nd_map node)
                                   ((nd_data node)[idx := Bucket (sort_key fst (bucket @ [(key, value_hash)]))])), cs)
                      else and_then (build_sub_node route hsh (bucket @ [(key, value_hash)]) (level + 1) cs)
                             (\<lambda>sub cs1. let (sub_hash, cs2) = store_node hsh sub cs1 in
                                (Inr (Node (nd_map node) ((nd_data node)[idx := Link sub_hash])), cs2)))
             | Inr (Link h) \<Rightarrow>
                 let sub_node = load_node h cs in
                 and_then (put_at route hsh sub_node routing (level + 1) key value_hash cs)
                   (\<lambda>new_sub cs1.
                      if new_sub = sub_node then (Inr node, cs1)
                      else let (new_sub_hash, cs2) = store_node hsh new_sub cs1 in
                        (Inr (Node (nd_map node) ((nd_data node)[idx := Link new_sub_hash])), cs2))))"
  by pat_completeness auto
termination
  by (relation "measure (\<lambda>(_, _, _, _, level, _). MAX_LEVELS - level)")
    (auto simp: position_at_level_def split: if_splits)

declare build_sub_node.simps [simp del] put_at.simps [simp del]

definition empty_trie :: "('x stored \<Rightarrow> bytes) \<Rightarrow> 'x stored content_store \<Rightarrow> bytes \<times> 'x stored content_store" where
  "empty_trie hsh cs = store_node hsh empty_node cs"

definition trie_put ::
  "(string \<Rightarrow> bytes) \<Rightarrow> ('x stored \<Rightarrow> bytes) \<Rightarrow> bytes \<Rightarrow> string \<Rightarrow> bytes \<Rightarrow> 'x stored content_store
     \<Rightarrow> bytes result \<times> 'x stored content_store" where
  "trie_put route hsh root_hash relative_key value_hash cs =
     and_then (put_at route hsh (load_node root_hash cs) (route relative_key) 0 relative_key value_hash cs)
       (\<lambda>new_root cs1. map_prod Inr id (store_node hsh new_root cs1))"

fun put_all ::
  "(string \<Rightarrow> bytes) \<Rightarrow> ('x stored \<Rightarrow> bytes) \<Rightarrow> bytes \<Rightarrow> tuples \<Rightarrow> 'x stored content_store
     \<Rightarrow> bytes result \<times> 'x stored content_store" where
  "put_all route hsh root [] cs = (Inr root, cs)"
| "put_all route hsh root ((k, v) # bindings) cs =
     and_then (trie_put route hsh root k v cs) (\<lambda>root' cs1. put_all route hsh root' bindings cs1)"

definition build_trie ::
  "(string \<Rightarrow> bytes) \<Rightarrow> ('x stored \<Rightarrow> bytes) \<Rightarrow> tuples \<Rightarrow> 'x stored content_store
     \<Rightarrow> bytes result \<times> 'x stored content_store" where
  "build_trie route hsh bindings cs =
     (let (root, cs1) = empty_trie hsh cs in put_all route hsh root bindings cs1)"

subsection \<open>Collection\<close>

text \<open>
  The walks below follow links as far as there are any; their fuel is Python's recursion limit.
\<close>

primrec collect_reachable :: "nat \<Rightarrow> trie_node \<Rightarrow> 'x stored content_store \<Rightarrow> tuples result" where
  "collect_reachable 0 node cs = Inl RecursionError"
| "collect_reachable (Suc n) node cs =
     bind_r (map_r (\<lambda>p. bind_r (item_at (nd_data node) (data_index (nd_map node) p))
                          (\<lambda>entry. case entry of
                             Bucket bucket \<Rightarrow> Inr bucket
                           | Link h \<Rightarrow> collect_reachable n (load_node h cs) cs))
                   (set_bits (nd_map node)))
       (\<lambda>parts. Inr (concat parts))"

definition collect_all_bindings ::
  "nat \<Rightarrow> bytes \<Rightarrow> string \<Rightarrow> 'x stored content_store \<Rightarrow> tuples result" where
  "collect_all_bindings limit node_hash path_prefix cs =
     bind_r (collect_reachable limit (load_node node_hash cs) cs)
       (\<lambda>kvs. Inr (map (\<lambda>(k, v). (join_path path_prefix k, v)) kvs))"

text \<open>\<open>for i, _p in enumerate(_set_bits(bitmap)): entry = data_list[i]\<close>.\<close>

definition enumerated :: "trie_node \<Rightarrow> trie_entry list result" where
  "enumerated node = map_r (item_at (nd_data node)) [0..<length (set_bits (nd_map node))]"

primrec hashes_of_entries ::
  "(bytes \<Rightarrow> bytes set \<Rightarrow> bytes set result) \<Rightarrow> trie_entry list \<Rightarrow> bytes set \<Rightarrow> bytes set result" where
  "hashes_of_entries rec [] found = Inr found"
| "hashes_of_entries rec (entry # entries) found =
     bind_r (case entry of
               Link h \<Rightarrow> rec h found
             | Bucket bucket \<Rightarrow> Inr (found \<union> snd ` set bucket))
       (\<lambda>found'. hashes_of_entries rec entries found')"

primrec collect_hashes_recursive ::
  "nat \<Rightarrow> 'x stored content_store \<Rightarrow> bytes \<Rightarrow> bytes set \<Rightarrow> bytes set result" where
  "collect_hashes_recursive 0 cs node_hash found = Inl RecursionError"
| "collect_hashes_recursive (Suc n) cs node_hash found =
     (if node_hash \<in> found then Inr found
      else
        let found' = insert node_hash found in
        case cs_get cs node_hash of
          Some (TrieNode node) \<Rightarrow>
            bind_r (enumerated node)
              (\<lambda>entries. hashes_of_entries (collect_hashes_recursive n cs) entries found')
        | _ \<Rightarrow> Inr found')"

definition collect_trie_hashes :: "nat \<Rightarrow> bytes \<Rightarrow> 'x stored content_store \<Rightarrow> bytes set result" where
  "collect_trie_hashes limit node_hash cs = collect_hashes_recursive limit cs node_hash {}"

definition load_trie_node :: "bytes \<Rightarrow> 'x stored content_store \<Rightarrow> trie_node option" where
  "load_trie_node node_hash cs =
     (case cs_get cs node_hash of Some (TrieNode node) \<Rightarrow> Some node | _ \<Rightarrow> None)"

text \<open>What a bundle carries: every entity reached, except the skipped hashes and what is collected.\<close>

fun collect_bucket ::
  "bytes set \<Rightarrow> 'x stored content_store \<Rightarrow> tuples \<Rightarrow> (bytes, 'x stored) dict \<Rightarrow> (bytes, 'x stored) dict" where
  "collect_bucket skip cs [] collected = collected"
| "collect_bucket skip cs ((k, value_hash) # bucket) collected =
     (if value_hash \<in> skip \<or> map_of collected value_hash \<noteq> None then collect_bucket skip cs bucket collected
      else case cs_get cs value_hash of
        Some e \<Rightarrow> collect_bucket skip cs bucket (AList.update value_hash e collected)
      | None \<Rightarrow> collect_bucket skip cs bucket collected)"

primrec entities_of_entries ::
  "(bytes \<Rightarrow> (bytes, 'x stored) dict \<Rightarrow> (bytes, 'x stored) dict result) \<Rightarrow> bytes set \<Rightarrow> 'x stored content_store
     \<Rightarrow> trie_entry list \<Rightarrow> (bytes, 'x stored) dict \<Rightarrow> (bytes, 'x stored) dict result" where
  "entities_of_entries rec skip cs [] collected = Inr collected"
| "entities_of_entries rec skip cs (entry # entries) collected =
     bind_r (case entry of
               Link h \<Rightarrow> rec h collected
             | Bucket bucket \<Rightarrow> Inr (collect_bucket skip cs bucket collected))
       (\<lambda>collected'. entities_of_entries rec skip cs entries collected')"

primrec collect_trie_entities_except ::
  "nat \<Rightarrow> bytes set \<Rightarrow> 'x stored content_store \<Rightarrow> bytes \<Rightarrow> (bytes, 'x stored) dict
     \<Rightarrow> (bytes, 'x stored) dict result" where
  "collect_trie_entities_except 0 skip cs node_hash collected = Inl RecursionError"
| "collect_trie_entities_except (Suc n) skip cs node_hash collected =
     (if node_hash \<in> skip \<or> map_of collected node_hash \<noteq> None then Inr collected
      else case cs_get cs node_hash of
        None \<Rightarrow> Inr collected
      | Some e \<Rightarrow>
          let collected' = AList.update node_hash e collected in
          (case e of
             TrieNode node \<Rightarrow>
               bind_r (enumerated node)
                 (\<lambda>entries. entities_of_entries (collect_trie_entities_except n skip cs) skip cs entries collected')
           | OtherEntity x \<Rightarrow> Inr collected'))"

subsection \<open>Removal\<close>

text \<open>\<open>is_root\<close> is passed on by the source and never read; it is left out.\<close>

definition replace_link_with_canonical ::
  "('x stored \<Rightarrow> bytes) \<Rightarrow> nat \<Rightarrow> trie_node \<Rightarrow> nat \<Rightarrow> nat \<Rightarrow> trie_node \<Rightarrow> 'x stored content_store
     \<Rightarrow> trie_node result \<times> 'x stored content_store" where
  "replace_link_with_canonical hsh limit parent idx position new_sub cs =
     (case collect_reachable limit new_sub cs of
        Inl e \<Rightarrow> (Inl e, cs)
      | Inr reachable \<Rightarrow>
          if length reachable < BUCKET_SIZE + 1
          then
            let bucket = sort_key fst reachable in
            if bucket = []
            then (Inr (Node (nd_map parent AND NOT (push_bit position 1)) (delete_at idx (nd_data parent))), cs)
            else (Inr (Node (nd_map parent) ((nd_data parent)[idx := Bucket bucket])), cs)
          else let (new_hash, cs1) = store_node hsh new_sub cs in
            (Inr (Node (nd_map parent) ((nd_data parent)[idx := Link new_hash])), cs1))"

function remove_at ::
  "('x stored \<Rightarrow> bytes) \<Rightarrow> nat \<Rightarrow> trie_node \<Rightarrow> bytes \<Rightarrow> nat \<Rightarrow> string \<Rightarrow> 'x stored content_store
     \<Rightarrow> (trie_node \<times> bool) result \<times> 'x stored content_store" where
  "remove_at hsh limit node routing level key cs =
     (case position_at_level routing level of
        Inl e \<Rightarrow> (Inl e, cs)
      | Inr p \<Rightarrow>
          if nd_map node AND push_bit p 1 = 0 then (Inr (node, False), cs)
          else
            let idx = data_index (nd_map node) p in
            (case item_at (nd_data node) idx of
               Inl e \<Rightarrow> (Inl e, cs)
             | Inr (Bucket bucket) \<Rightarrow>
                 if map_of bucket key = None then (Inr (node, False), cs)
                 else
                   let i = length (takeWhile (\<lambda>(k, _). k \<noteq> key) bucket); new_bucket = delete_at i bucket in
                   if new_bucket = []
                   then (Inr (Node (nd_map node AND NOT (push_bit p 1)) (delete_at idx (nd_data node)), True), cs)
                   else (Inr (Node (nd_map node) ((nd_data node)[idx := Bucket new_bucket]), True), cs)
             | Inr (Link h) \<Rightarrow>
                 and_then (remove_at hsh limit (load_node h cs) routing (level + 1) key cs)
                   (\<lambda>(new_sub, changed) cs1.
                      if \<not> changed then (Inr (node, False), cs1)
                      else and_then (replace_link_with_canonical hsh limit node idx p new_sub cs1)
                             (\<lambda>new_node cs2. (Inr (new_node, True), cs2)))))"
  by pat_completeness auto
termination
  by (relation "measure (\<lambda>(_, _, _, _, level, _). MAX_LEVELS - level)")
    (auto simp: position_at_level_def split: if_splits)

declare remove_at.simps [simp del]

definition trie_remove ::
  "(string \<Rightarrow> bytes) \<Rightarrow> ('x stored \<Rightarrow> bytes) \<Rightarrow> nat \<Rightarrow> bytes \<Rightarrow> string \<Rightarrow> 'x stored content_store
     \<Rightarrow> bytes result \<times> 'x stored content_store" where
  "trie_remove route hsh limit root_hash relative_key cs =
     and_then (remove_at hsh limit (load_node root_hash cs) (route relative_key) 0 relative_key cs)
       (\<lambda>(new_root, _) cs1. map_prod Inr id (store_node hsh new_root cs1))"

subsection \<open>Difference\<close>

datatype change = Added string bytes | Removed string bytes | Changed string bytes bytes

text \<open>\<open>{k: v for k, v in a}\<close>: the last tuple of a key wins.\<close>

definition dict_of :: "tuples \<Rightarrow> (string, bytes) dict" where
  "dict_of a = fold (\<lambda>(k, v). AList.update k v) a []"

text \<open>
  The keys of the two sides come in the arbitrary order of a Python set; the results are sorted by key
  in the end. Here those of the first side come first.
\<close>

definition diff_buckets :: "tuples \<Rightarrow> tuples \<Rightarrow> change list" where
  "diff_buckets a b =
     (let map_a = dict_of a; map_b = dict_of b in
      concat (map (\<lambda>k. case (map_of map_a k, map_of map_b k) of
                        (Some v, None) \<Rightarrow> [Removed k v]
                      | (None, Some w) \<Rightarrow> [Added k w]
                      | (Some v, Some w) \<Rightarrow> if v \<noteq> w then [Changed k v w] else []
                      | (None, None) \<Rightarrow> [])
                (remdups (map fst map_a @ map fst map_b))))"

primrec walk_entry_collect ::
  "nat \<Rightarrow> (string \<Rightarrow> bytes \<Rightarrow> change) \<Rightarrow> trie_entry \<Rightarrow> 'x stored content_store \<Rightarrow> change list result" where
  "walk_entry_collect 0 kind entry cs = Inl RecursionError"
| "walk_entry_collect (Suc n) kind entry cs =
     (case entry of
        Bucket bucket \<Rightarrow> Inr (map (\<lambda>(k, v). kind k v) bucket)
      | Link h \<Rightarrow>
          let sub = load_node h cs in
          bind_r (map_r (\<lambda>p. bind_r (item_at (nd_data sub) (data_index (nd_map sub) p))
                               (\<lambda>sub_entry. walk_entry_collect n kind sub_entry cs))
                        (set_bits (nd_map sub)))
            (\<lambda>parts. Inr (concat parts)))"

definition walk_entry_collect_bindings :: "nat \<Rightarrow> trie_entry \<Rightarrow> 'x stored content_store \<Rightarrow> tuples result" where
  "walk_entry_collect_bindings limit entry cs =
     (case entry of
        Bucket bucket \<Rightarrow> Inr bucket
      | Link h \<Rightarrow> collect_reachable limit (load_node h cs) cs)"

definition entry_at :: "trie_node \<Rightarrow> nat \<Rightarrow> trie_entry option result" where
  "entry_at node p =
     (if nd_map node AND push_bit p 1 = 0 then Inr None
      else bind_r (item_at (nd_data node) (data_index (nd_map node) p)) (\<lambda>e. Inr (Some e)))"

primrec diff_nodes :: "nat \<Rightarrow> trie_node \<Rightarrow> trie_node \<Rightarrow> 'x stored content_store \<Rightarrow> change list result" where
  "diff_nodes 0 a b cs = Inl RecursionError"
| "diff_nodes (Suc n) a b cs =
     (if a = b then Inr []
      else
        bind_r (map_r (\<lambda>p.
            bind_r (entry_at a p) (\<lambda>entry_a. bind_r (entry_at b p) (\<lambda>entry_b.
              case (entry_a, entry_b) of
                (None, None) \<Rightarrow> Inr []
              | (None, Some eb) \<Rightarrow> walk_entry_collect n Added eb cs
              | (Some ea, None) \<Rightarrow> walk_entry_collect n Removed ea cs
              | (Some (Bucket ba), Some (Bucket bb)) \<Rightarrow> Inr (diff_buckets ba bb)
              | (Some (Link ha), Some (Link hb)) \<Rightarrow>
                  if ha = hb then Inr [] else diff_nodes n (load_node ha cs) (load_node hb cs) cs
              | (Some (Bucket ba), Some (Link hb)) \<Rightarrow>
                  bind_r (walk_entry_collect_bindings n (Link hb) cs) (\<lambda>bindings_b. Inr (diff_buckets ba bindings_b))
              | (Some (Link ha), Some (Bucket bb)) \<Rightarrow>
                  bind_r (walk_entry_collect_bindings n (Link ha) cs) (\<lambda>bindings_a. Inr (diff_buckets bindings_a bb)))))
          (set_bits (nd_map a OR nd_map b)))
          (\<lambda>parts. Inr (concat parts)))"

definition trie_diff ::
  "nat \<Rightarrow> bytes \<Rightarrow> bytes \<Rightarrow> 'x stored content_store
     \<Rightarrow> (tuples \<times> tuples \<times> (string \<times> bytes \<times> bytes) list) result" where
  "trie_diff limit base_root_hash target_root_hash cs =
     (if base_root_hash = target_root_hash then Inr ([], [], [])
      else
        bind_r (diff_nodes limit (load_node base_root_hash cs) (load_node target_root_hash cs) cs)
          (\<lambda>changes. Inr
             (sort_key fst (concat (map (\<lambda>c. case c of Added k v \<Rightarrow> [(k, v)] | _ \<Rightarrow> []) changes)),
              sort_key fst (concat (map (\<lambda>c. case c of Removed k v \<Rightarrow> [(k, v)] | _ \<Rightarrow> []) changes)),
              sort_key fst (concat (map (\<lambda>c. case c of Changed k v w \<Rightarrow> [(k, v, w)] | _ \<Rightarrow> []) changes)))))"

end
