(* ===== verification/Trie_Slots.thy ===== *)
theory Trie_Slots
  imports Snapshot_Trie
begin

section \<open>Trie nodes as functions of the position\<close>

text \<open>
  The loops over bitmaps do what their names say, and a node is a map from positions to entries: the
  compressed representation is read, extended, updated and shortened through it.
\<close>

subsection \<open>Bitmaps\<close>

lemma bit_length_power [simp]: "bit_length (2 ^ n) = Suc n"
proof (induction n)
  case 0
  have "bit_length (Suc 0) = Suc (bit_length 0)" by (subst bit_length.simps) simp
  also have "bit_length 0 = 0" by (subst bit_length.simps) simp
  finally show ?case by simp
next
  case (Suc n)
  then show ?case by (subst bit_length.simps) simp
qed

lemma lowest_bit:
  fixes w :: "32 word"
  assumes n: "bit w n" and least: "\<And>i. i < n \<Longrightarrow> \<not> bit w i"
  shows "w AND - w = push_bit n 1"
proof -
  define u where "u = w AND NOT (push_bit n 1)"
  have n32: "n < 32" using bit_imp_le_length [OF n] by simp
  have u: "bit u i \<longleftrightarrow> bit w i \<and> i \<noteq> n" for i
    using bit_imp_le_length [of w i] by (auto simp: u_def bit_simps)
  have "w = u OR push_bit n 1"
    by (rule bit_eqI) (use n n32 in \<open>auto simp: u bit_simps\<close>)
  also have "\<dots> = u + push_bit n 1"
    by (rule disjunctive_add [symmetric]) (auto simp: u bit_simps)
  finally have "w - 1 = u + (push_bit n 1 - 1)" by simp
  also have "push_bit n 1 - 1 = (mask n :: 32 word)" by (simp add: mask_eq_exp_minus_1)
  also have "u + mask n = u OR mask n"
    by (rule disjunctive_add) (use least in \<open>auto simp: u bit_simps\<close>)
  finally have "w - 1 = u OR mask n" .
  then show ?thesis
    by (intro bit_eqI) (use n least n32 in \<open>auto simp: bit_minus_iff u bit_simps\<close>)
qed

lemma filter_bit_lowest:
  fixes w :: "32 word"
  assumes n: "bit w n" and least: "\<And>i. i < n \<Longrightarrow> \<not> bit w i" and "n < m"
  shows "filter (bit w) [0..<m] = n # filter (bit (w XOR push_bit n 1)) [0..<m]"
proof -
  have "[0..<m] = [0..<n] @ n # [Suc n..<m]"
    using upt_add_eq_append [of 0 n "m - n"] assms(3) by (simp add: upt_conv_Cons)
  moreover have "filter (bit w) [0..<n] = []" "filter (bit (w XOR push_bit n 1)) [0..<n] = []"
    using least by (auto simp: filter_empty_conv bit_simps)
  moreover have "filter (bit (w XOR push_bit n 1)) [Suc n..<m] = filter (bit w) [Suc n..<m]"
    by (rule filter_cong) (auto simp: bit_simps)
  moreover have "\<not> bit (w XOR push_bit n 1) n" using n bit_imp_le_length [OF n] by (auto simp: bit_simps)
  ultimately show ?thesis using n by simp
qed

lemma set_bits_from_eq: "popcount w \<le> m \<Longrightarrow> set_bits_from m w = filter (bit w) [0..<32]"
proof (induction m arbitrary: w)
  case 0
  then show ?case by (simp add: popcount_def)
next
  case (Suc m)
  show ?case
  proof (cases "w = 0")
    case False
    then obtain i where "bit w i" using bit_eqI [of w 0] by auto
    then have "bit w (LEAST i. bit w i)" by (rule LeastI)
    then obtain n where n: "bit w n" and least: "\<And>i. i < n \<Longrightarrow> \<not> bit w i"
      using not_less_Least by blast
    have n32: "n < 32" using bit_imp_le_length [OF n] by simp
    have f: "filter (bit w) [0..<32] = n # filter (bit (w XOR push_bit n 1)) [0..<32]"
      by (rule filter_bit_lowest [OF n least n32])
    then have "popcount (w XOR push_bit n 1) \<le> m" using Suc.prems by (simp add: popcount_def)
    moreover have "unat (push_bit n 1 :: 32 word) = 2 ^ n"
    proof -
      have "(2 :: nat) ^ n < 2 ^ 32" by (rule power_strict_increasing) (use n32 in simp_all)
      then have "(2 :: nat) ^ n < 2 ^ LENGTH(32)" by simp
      from of_nat_inverse [OF refl this] show ?thesis by simp
    qed
    ultimately show ?thesis
      using False f Suc.IH by (simp add: lowest_bit [OF n least] Let_def)
  qed simp
qed

lemma set_bits_eq: "set_bits w = filter (bit w) [0..<32]"
proof -
  have "popcount w \<le> length [0..<32::nat]" unfolding popcount_def by (rule length_filter_le)
  then show ?thesis unfolding set_bits_def by (intro set_bits_from_eq) simp
qed

lemma occupied_iff: "p < 32 \<Longrightarrow> w AND push_bit p 1 = 0 \<longleftrightarrow> \<not> bit (w :: 32 word) p"
proof -
  assume p: "p < 32"
  have "bit (w AND push_bit p 1) i \<longleftrightarrow> i = p \<and> bit w p" for i
    using p by (auto simp: bit_simps)
  then show ?thesis by (metis bit_0_eq bit_eqI bot_apply bot_bool_def)
qed

lemma data_index_eq: "p < 32 \<Longrightarrow> data_index w p = length (filter (bit w) [0..<p])"
proof -
  assume p: "p < 32"
  have "push_bit p 1 - 1 = (mask p :: 32 word)" by (simp add: mask_eq_exp_minus_1)
  then have b: "bit (w AND (push_bit p 1 - 1)) i \<longleftrightarrow> bit w i \<and> i < p" for i
    using bit_imp_le_length [of w i] by (auto simp: bit_simps)
  have "[0..<32::nat] = [0..<p] @ [p..<32]"
    using upt_add_eq_append [of 0 p "32 - p"] p by simp
  moreover have "filter (bit (w AND (push_bit p 1 - 1))) [0..<p] = filter (bit w) [0..<p]"
    by (rule filter_cong) (simp_all only: b, auto)
  moreover have "filter (bit (w AND (push_bit p 1 - 1))) [p..<32] = []"
    by (simp only: b filter_empty_conv) auto
  ultimately show ?thesis
    unfolding data_index_def popcount_def by (simp del: push_bit_of_1)
qed

lemma nat_less_exp_iff: "(\<And>i. bit x i \<Longrightarrow> i < n) \<Longrightarrow> x < 2 ^ n" for x :: nat
proof -
  assume "\<And>i. bit x i \<Longrightarrow> i < n"
  then have "take_bit n x = x" by (auto intro!: bit_eqI simp: bit_simps)
  then show ?thesis by (metis take_bit_nat_less_exp)
qed

lemma position_less: "position_at_level rt l = Inr p \<Longrightarrow> p < 32"
proof -
  assume r: "position_at_level rt l = Inr p"
  have byte: "bit (unat (b :: byte)) i \<Longrightarrow> i < 8" for b i
    using bit_imp_le_length [of b i] by (simp add: bit_unsigned_iff)
  have low_mask: "drop_bit k (unat (b :: byte)) AND 0x1F < 2 ^ 5" for k b
  proof -
    have "(0x1F :: nat) = mask 5" by (simp add: mask_eq_exp_minus_1)
    then show ?thesis by (metis take_bit_eq_mask take_bit_nat_less_exp)
  qed
  have high_low: "push_bit low (unat b AND (2 ^ high - 1)) OR drop_bit (8 - low) (unat (c :: byte)) < 2 ^ 5"
    if "high + low = 5" for high low and b c :: byte
  proof (rule nat_less_exp_iff)
    fix i
    have "(2 ^ high - 1 :: nat) = mask high" by (simp add: mask_eq_exp_minus_1)
    moreover assume "bit (push_bit low (unat b AND (2 ^ high - 1)) OR drop_bit (8 - low) (unat c)) i"
    ultimately show "i < 5"
      using that byte [of c "8 - low + i"] by (auto simp: bit_simps)
  qed
  from r consider
      b where "p = drop_bit (8 - l * 5 mod 8 - 5) (unat (b :: byte)) AND 0x1F"
    | b c where "\<not> l * 5 mod 8 + 5 \<le> 8"
        "p = push_bit (5 - (8 - l * 5 mod 8)) (unat (b :: byte) AND (2 ^ (8 - l * 5 mod 8) - 1))
           OR drop_bit (8 - (5 - (8 - l * 5 mod 8))) (unat (c :: byte))"
    unfolding position_at_level_def Let_def BIT_WIDTH_def
    by (cases "MAX_LEVELS \<le> l"; cases "l * 5 mod 8 + 5 \<le> 8")
      (auto simp only: if_True if_False bind_r_Inr_iff sum.inject sum.distinct)
  then show ?thesis
  proof cases
    case 1
    with low_mask show ?thesis by simp
  next
    case 2
    then have "8 - l * 5 mod 8 + (5 - (8 - l * 5 mod 8)) = 5" by simp
    from high_low [OF this] 2 show ?thesis by simp
  qed
qed


lemma position_total:
  assumes "l < MAX_LEVELS" "length rt = 32"
  shows "\<exists>p. position_at_level rt l = Inr p"
proof -
  have "l < 51" using assms(1) by (simp add: MAX_LEVELS_def HASH_BITS_def BIT_WIDTH_def)
  moreover have "l * 5 div 8 + 1 < 32" if "\<not> l * 5 mod 8 + 5 \<le> 8"
    using that \<open>l < 51\<close> by (cases "l = 50") auto
  ultimately show ?thesis
    using assms by (auto simp: position_at_level_def item_at_def Let_def BIT_WIDTH_def)
qed

subsection \<open>Slots\<close>

definition slot_node :: "(nat \<Rightarrow> trie_entry option) \<Rightarrow> trie_node" where
  "slot_node f = Node (horner_sum of_bool 2 (map (\<lambda>p. f p \<noteq> None) [0..<32]))
                      (map (the \<circ> f) (filter (\<lambda>p. f p \<noteq> None) [0..<32]))"

lemma slot_node_cong: "(\<And>p. p < 32 \<Longrightarrow> f p = g p) \<Longrightarrow> slot_node f = slot_node g"
proof -
  assume eq: "\<And>p. p < 32 \<Longrightarrow> f p = g p"
  then have "map (\<lambda>p. f p \<noteq> None) [0..<32] = map (\<lambda>p. g p \<noteq> None) [0..<32]" by simp
  moreover have "filter (\<lambda>p. f p \<noteq> None) [0..<32] = filter (\<lambda>p. g p \<noteq> None) [0..<32]"
    by (rule filter_cong) (auto simp: eq)
  ultimately show ?thesis by (simp only: slot_node_def) (auto simp: eq)
qed

lemma bit_slot: "bit (nd_map (slot_node f)) p \<longleftrightarrow> p < 32 \<and> f p \<noteq> None"
  by (auto simp: slot_node_def bit_horner_sum_bit_iff)

lemma node_eqI: "nd_data n = nd_data m \<Longrightarrow> (\<And>p. p < 32 \<Longrightarrow> bit (nd_map n) p = bit (nd_map m) p) \<Longrightarrow> n = m"
  by (cases n; cases m) (auto intro: bit_word_eqI)

lemma set_bits_slot: "set_bits (nd_map (slot_node f)) = filter (\<lambda>p. f p \<noteq> None) [0..<32]"
  by (simp add: set_bits_eq) (rule filter_cong, auto simp: bit_slot)

definition slots_below :: "(nat \<Rightarrow> trie_entry option) \<Rightarrow> nat \<Rightarrow> trie_entry list" where
  "slots_below f p = map (the \<circ> f) (filter (\<lambda>q. f q \<noteq> None) [0..<p])"

definition slots_above :: "(nat \<Rightarrow> trie_entry option) \<Rightarrow> nat \<Rightarrow> trie_entry list" where
  "slots_above f p = map (the \<circ> f) (filter (\<lambda>q. f q \<noteq> None) [Suc p..<32])"

lemma slots_upd [simp]:
  "slots_below (f(p := x)) p = slots_below f p" "slots_above (f(p := x)) p = slots_above f p"
proof -
  have "filter (\<lambda>q. (f(p := x)) q \<noteq> None) [0..<p] = filter (\<lambda>q. f q \<noteq> None) [0..<p]"
    by (rule filter_cong) auto
  then show "slots_below (f(p := x)) p = slots_below f p" by (auto simp: slots_below_def)
  have "filter (\<lambda>q. (f(p := x)) q \<noteq> None) [Suc p..<32] = filter (\<lambda>q. f q \<noteq> None) [Suc p..<32]"
    by (rule filter_cong) auto
  then show "slots_above (f(p := x)) p = slots_above f p" by (auto simp: slots_above_def)
qed

lemma slot_data:
  assumes "p < 32"
  shows "nd_data (slot_node f) = slots_below f p @ (case f p of None \<Rightarrow> [] | Some e \<Rightarrow> [e]) @ slots_above f p"
proof -
  have "[0..<32] = [0..<p] @ p # [Suc p..<32]"
    using upt_add_eq_append [of 0 p "32 - p"] assms by (simp add: upt_conv_Cons)
  then show ?thesis
    by (simp add: slot_node_def slots_below_def slots_above_def split: option.split)
qed

lemma slot_index: "p < 32 \<Longrightarrow> data_index (nd_map (slot_node f)) p = length (slots_below f p)"
proof -
  assume p: "p < 32"
  then have "filter (bit (nd_map (slot_node f))) [0..<p] = filter (\<lambda>q. f q \<noteq> None) [0..<p]"
    by (intro filter_cong) (auto simp: bit_slot)
  with p show ?thesis by (simp add: data_index_eq slots_below_def)
qed

lemma slot_free: "p < 32 \<Longrightarrow> nd_map (slot_node f) AND push_bit p 1 = 0 \<longleftrightarrow> f p = None"
  by (simp only: occupied_iff) (simp add: bit_slot)

lemma slot_item:
  "p < 32 \<Longrightarrow> f p = Some e \<Longrightarrow> item_at (nd_data (slot_node f)) (data_index (nd_map (slot_node f)) p) = Inr e"
  by (simp add: slot_index slot_data [of p] item_at_def nth_append)

lemma slot_insert:
  assumes "p < 32" "f p = None"
  shows "Node (nd_map (slot_node f) OR push_bit p 1)
     (insert_at (data_index (nd_map (slot_node f)) p) e (nd_data (slot_node f))) = slot_node (f(p \<mapsto> e))"
proof (rule node_eqI)
  show "nd_data (Node (nd_map (slot_node f) OR push_bit p 1)
      (insert_at (data_index (nd_map (slot_node f)) p) e (nd_data (slot_node f)))) = nd_data (slot_node (f(p \<mapsto> e)))"
    using assms by (simp add: slot_index slot_data [of p] insert_at_def)
qed (use assms in \<open>auto simp: bit_slot bit_simps\<close>)

lemma slot_update:
  assumes "p < 32" "f p \<noteq> None"
  shows "Node (nd_map (slot_node f)) ((nd_data (slot_node f))[data_index (nd_map (slot_node f)) p := e])
     = slot_node (f(p \<mapsto> e))"
proof (rule node_eqI)
  show "nd_data (Node (nd_map (slot_node f)) ((nd_data (slot_node f))[data_index (nd_map (slot_node f)) p := e]))
      = nd_data (slot_node (f(p \<mapsto> e)))"
    using assms by (auto simp: slot_index slot_data [of p])
qed (use assms in \<open>auto simp: bit_slot\<close>)

lemma slot_delete:
  assumes "p < 32" "f p \<noteq> None"
  shows "Node (nd_map (slot_node f) AND NOT (push_bit p 1))
     (delete_at (data_index (nd_map (slot_node f)) p) (nd_data (slot_node f))) = slot_node (f(p := None))"
proof (rule node_eqI)
  show "nd_data (Node (nd_map (slot_node f) AND NOT (push_bit p 1))
      (delete_at (data_index (nd_map (slot_node f)) p) (nd_data (slot_node f)))) = nd_data (slot_node (f(p := None)))"
    using assms by (auto simp: slot_index slot_data [of p] delete_at_def)
qed (use assms in \<open>auto simp: bit_slot bit_simps\<close>)

lemma slot_append:
  assumes "p < 32" "\<And>q. p \<le> q \<Longrightarrow> f q = None"
  shows "Node (nd_map (slot_node f) OR push_bit p 1) (nd_data (slot_node f) @ [e]) = slot_node (f(p \<mapsto> e))"
proof -
  have "slots_above f p = []" using assms(2) by (simp add: slots_above_def filter_empty_conv)
  then have "nd_data (slot_node f) @ [e] = insert_at (data_index (nd_map (slot_node f)) p) e (nd_data (slot_node f))"
    using assms by (simp add: slot_index slot_data [of p] insert_at_def)
  with slot_insert [of p f e] assms show ?thesis by simp
qed

lemma empty_node_slots: "empty_node = slot_node (\<lambda>p. None)"
proof (rule node_eqI)
  show "nd_data empty_node = nd_data (slot_node (\<lambda>p. None))"
    by (simp add: empty_node_def slot_node_def)
qed (simp add: empty_node_def bit_slot)

end
