(* ===== verification/Trie_Canonical.thy ===== *)
theory Trie_Canonical
  imports Trie_Slots "HOL-Library.Multiset"
begin

section \<open>The canonical trie of a set of bindings\<close>

text \<open>
  The node that a set of bindings has, whatever its history: a position with at most three of them
  holds their bucket, one with more a link to their own canonical node. Insertion and removal are shown
  to lead from canonical node to canonical node, so the root hash is a function of the bindings.
\<close>

subsection \<open>Bindings sorted by key\<close>

definition keyed :: "tuples \<Rightarrow> bool" where
  "keyed xs \<longleftrightarrow> sorted (map fst xs) \<and> distinct (map fst xs)"

definition ins :: "string \<Rightarrow> bytes \<Rightarrow> tuples \<Rightarrow> tuples" where
  "ins k v xs = sort_key fst (AList.update k v xs)"

lemma keyed_sort: "distinct (map fst xs) \<Longrightarrow> keyed (sort_key fst xs)"
proof -
  assume d: "distinct (map fst xs)"
  have "mset (map fst (sort_key fst xs)) = mset (map fst xs)" by simp
  then have "distinct (map fst (sort_key fst xs))" using d mset_eq_imp_distinct_iff by blast
  then show ?thesis by (simp add: keyed_def)
qed

lemma keyed_ins: "keyed xs \<Longrightarrow> keyed (ins k v xs)"
  unfolding ins_def by (rule keyed_sort) (simp add: keyed_def distinct_update)

lemma keyed_filter: "keyed xs \<Longrightarrow> keyed (filter P xs)"
proof -
  assume k: "keyed xs"
  then have "sorted (map fst (filter P xs))" by (simp add: keyed_def sorted_filter)
  with k show ?thesis by (simp add: keyed_def distinct_map_filter)
qed

lemma keyed_Nil [simp]: "keyed []"
  by (simp add: keyed_def)

lemma sort_key_Nil_iff [simp]: "sort_key f xs = [] \<longleftrightarrow> xs = []"
  by (metis length_0_conv length_sort)

lemma sort_keyed: "keyed xs \<Longrightarrow> sort_key fst xs = xs"
  by (simp add: keyed_def sort_key_id_if_sorted)

lemma keyed_unique: "keyed xs \<Longrightarrow> keyed ys \<Longrightarrow> set xs = set ys \<Longrightarrow> xs = ys"
proof -
  assume x: "keyed xs" and y: "keyed ys" and eq: "set xs = set ys"
  then have "mset xs = mset ys"
    by (metis distinct_map keyed_def set_eq_iff_mset_eq_distinct)
  then have "sort_key fst xs = sort_key fst ys"
    using x y by (intro sort_key_inj_key_eq) (auto simp: keyed_def distinct_map eq)
  with x y show ?thesis by (simp add: sort_keyed)
qed

lemma sort_mset_unique: "keyed xs \<Longrightarrow> mset ys = mset xs \<Longrightarrow> sort_key fst ys = xs"
proof -
  assume k: "keyed xs" and m: "mset ys = mset xs"
  have "mset (map fst ys) = mset (map fst xs)" using m by (metis mset_map)
  from mset_eq_imp_distinct_iff [OF this] have "distinct (map fst ys)" using k by (simp add: keyed_def)
  moreover have "set (sort_key fst ys) = set xs" using mset_eq_setD [OF m] by simp
  ultimately show ?thesis using k keyed_sort keyed_unique by blast
qed

lemma set_ins: "keyed xs \<Longrightarrow> set (ins k v xs) = insert (k, v) {b \<in> set xs. fst b \<noteq> k}"
proof -
  assume "keyed xs"
  then have d: "distinct (map fst xs)" by (simp add: keyed_def)
  then have "set (AList.update k v xs) = insert (k, v) {b \<in> set xs. fst b \<noteq> k}"
    by (induction xs) (auto intro: rev_image_eqI)
  then show ?thesis by (simp add: ins_def)
qed

lemma map_of_ins: "keyed xs \<Longrightarrow> map_of (ins k v xs) = (map_of xs)(k \<mapsto> v)"
proof -
  assume k: "keyed xs"
  then have d: "distinct (map fst (AList.update k v xs))" by (simp add: keyed_def distinct_update)
  have "set (sort_key fst (AList.update k v xs)) = set (AList.update k v xs)" by simp
  then have "map_of (ins k v xs) = map_of (AList.update k v xs)"
    unfolding ins_def using d keyed_sort [OF d] by (intro map_of_inject_set [THEN iffD2]) (simp_all add: keyed_def)
  then show ?thesis by (simp add: update_conv')
qed

lemma map_of_keyed_inj: "keyed xs \<Longrightarrow> keyed ys \<Longrightarrow> map_of xs = map_of ys \<Longrightarrow> xs = ys"
  by (rule keyed_unique) (simp_all add: keyed_def map_of_inject_set)

lemma ins_same: "keyed xs \<Longrightarrow> map_of xs k = Some v \<Longrightarrow> ins k v xs = xs"
  by (rule map_of_keyed_inj) (auto simp: keyed_ins map_of_ins)

lemma ins_filter:
  "filter (\<lambda>b. P (fst b)) (ins k v xs) = (if P k then ins k v (filter (\<lambda>b. P (fst b)) xs) else filter (\<lambda>b. P (fst b)) xs)"
  if "keyed xs"
proof (rule keyed_unique)
  show "keyed (filter (\<lambda>b. P (fst b)) (ins k v xs))" by (intro keyed_filter keyed_ins that)
  show "keyed (if P k then ins k v (filter (\<lambda>b. P (fst b)) xs) else filter (\<lambda>b. P (fst b)) xs)"
    by (simp add: keyed_filter keyed_ins that)
  show "set (filter (\<lambda>b. P (fst b)) (ins k v xs))
      = set (if P k then ins k v (filter (\<lambda>b. P (fst b)) xs) else filter (\<lambda>b. P (fst b)) xs)"
    by (auto simp: set_ins that keyed_filter)
qed

lemma ins_not_empty [simp]: "ins k v xs \<noteq> []"
proof -
  have "length (ins k v xs) = length (AList.update k v xs)" by (simp add: ins_def)
  moreover have "AList.update k v xs \<noteq> []" by (cases xs) auto
  ultimately show ?thesis by auto
qed

lemma update_new: "map_of xs k = None \<Longrightarrow> AList.update k v xs = xs @ [(k, v)]"
  by (induction xs) auto

lemma ins_new: "map_of xs k = None \<Longrightarrow> ins k v xs = sort_key fst (xs @ [(k, v)])"
  by (simp add: ins_def update_new)

lemma ins_known: "keyed xs \<Longrightarrow> map_of xs k \<noteq> None \<Longrightarrow> ins k v xs = AList.update k v xs"
proof -
  assume k: "keyed xs" and m: "map_of xs k \<noteq> None"
  then have "map fst (AList.update k v xs) = map fst xs"
    by (induction xs) (auto simp: keyed_def split: if_splits)
  with k have "keyed (AList.update k v xs)" by (simp add: keyed_def)
  then show ?thesis by (simp add: ins_def sort_keyed)
qed

subsection \<open>Groups and room\<close>

definition pos :: "(string \<Rightarrow> bytes) \<Rightarrow> nat \<Rightarrow> string \<Rightarrow> nat" where
  "pos route l k = (case position_at_level (route k) l of Inr p \<Rightarrow> p | Inl _ \<Rightarrow> 0)"

lemma pos_less [simp]: "pos route l k < 32"
  using position_less by (auto simp: pos_def split: sum.split)

lemma position_pos: "length (route k) = 32 \<Longrightarrow> l < MAX_LEVELS \<Longrightarrow> position_at_level (route k) l = Inr (pos route l k)"
  using position_total [of l "route k"] by (auto simp: pos_def)

definition grp :: "(string \<Rightarrow> bytes) \<Rightarrow> nat \<Rightarrow> tuples \<Rightarrow> nat \<Rightarrow> tuples" where
  "grp route l xs p = filter (\<lambda>b. pos route l (fst b) = p) xs"

lemma keyed_group: "keyed xs \<Longrightarrow> keyed (grp route l xs p)"
  by (simp add: grp_def keyed_filter)

lemma group_ins:
  "keyed xs \<Longrightarrow> grp route l (ins k v xs) p
     = (if p = pos route l k then ins k v (grp route l xs p) else grp route l xs p)"
  unfolding grp_def using ins_filter [of xs "\<lambda>k. pos route l k = p" k v] by auto

text \<open>
  Room for the bindings from level \<open>l\<close> on: no four keys share all the positions that are left.
\<close>

definition roomy :: "(string \<Rightarrow> bytes) \<Rightarrow> nat \<Rightarrow> tuples \<Rightarrow> bool" where
  "roomy route l xs \<longleftrightarrow>
     (\<forall>(k, _) \<in> set xs.
        length (filter (\<lambda>b. \<forall>i \<in> {l..<MAX_LEVELS}. pos route i (fst b) = pos route i k) xs) \<le> BUCKET_SIZE)"

lemma roomy_group:
  assumes "roomy route l xs"
  shows "roomy route (Suc l) (grp route l xs p)"
proof (cases "l < MAX_LEVELS")
  case True
  show ?thesis
    unfolding roomy_def
  proof (clarify)
    fix k v assume kv: "(k, v) \<in> set (grp route l xs p)"
    then have "(k, v) \<in> set xs" and k: "pos route l k = p" by (auto simp: grp_def)
    then have "length (filter (\<lambda>b. \<forall>i \<in> {l..<MAX_LEVELS}. pos route i (fst b) = pos route i k) xs) \<le> BUCKET_SIZE"
      using assms by (auto simp: roomy_def)
    moreover have "{l..<MAX_LEVELS} = insert l {Suc l..<MAX_LEVELS}" using True by auto
    then have "filter (\<lambda>b. \<forall>i \<in> {l..<MAX_LEVELS}. pos route i (fst b) = pos route i k) xs
        = filter (\<lambda>b. \<forall>i \<in> {Suc l..<MAX_LEVELS}. pos route i (fst b) = pos route i k) (grp route l xs p)"
      by (auto simp: grp_def k intro: filter_cong)
    ultimately show "length (filter (\<lambda>b. \<forall>i \<in> {Suc l..<MAX_LEVELS}. pos route i (fst b) = pos route i k)
        (grp route l xs p)) \<le> BUCKET_SIZE" by simp
  qed
next
  case False
  then have "grp route l xs p = [] \<or> length xs \<le> BUCKET_SIZE"
    using assms by (cases xs) (auto simp: roomy_def grp_def)
  moreover have "length (grp route l xs p) \<le> length xs" by (simp add: grp_def)
  ultimately show ?thesis
    by (auto simp: roomy_def intro: order_trans [OF length_filter_le] order_trans)
qed

lemma roomy_last: "roomy route l xs \<Longrightarrow> MAX_LEVELS \<le> l \<Longrightarrow> length xs \<le> BUCKET_SIZE"
  by (cases xs) (auto simp: roomy_def)

lemma roomy_next: "roomy route l xs \<Longrightarrow> BUCKET_SIZE < length (grp route l xs p) \<Longrightarrow> Suc l < MAX_LEVELS"
  using roomy_last [OF roomy_group] by (metis leD linorder_not_less)

lemma roomy_subset:
  assumes "roomy route l ys" "distinct (map fst xs)" "fst ` set xs \<subseteq> fst ` set ys"
  shows "roomy route l xs"
  unfolding roomy_def
proof clarify
  fix k v assume "(k, v) \<in> set xs"
  then obtain v' where kv: "(k, v') \<in> set ys" using assms(3) by force
  let ?P = "\<lambda>b. \<forall>i \<in> {l..<MAX_LEVELS}. pos route i (fst b) = pos route i k"
  have d: "distinct (map fst (filter ?P xs))" using assms(2) by (simp add: distinct_map_filter)
  have "length (filter ?P xs) = length (map fst (filter ?P xs))" by simp
  also have "\<dots> = card (set (map fst (filter ?P xs)))" using distinct_card [OF d] by simp
  also have "\<dots> \<le> card (set (map fst (filter ?P ys)))"
  proof (rule card_mono)
    show "set (map fst (filter ?P xs)) \<subseteq> set (map fst (filter ?P ys))"
    proof
      fix x assume "x \<in> set (map fst (filter ?P xs))"
      then obtain b where b: "b \<in> set xs" "?P b" "x = fst b" by auto
      from b(1) assms(3) have "fst b \<in> fst ` set ys" by blast
      then obtain b' where "b' \<in> set ys" "fst b' = fst b" by auto
      with b have "b' \<in> set (filter ?P ys)" "x = fst b'" by simp_all
      then show "x \<in> set (map fst (filter ?P ys))" by auto
    qed
  qed simp
  also have "\<dots> \<le> length (map fst (filter ?P ys))" by (rule card_length)
  also have "\<dots> \<le> BUCKET_SIZE" using assms(1) kv by (auto simp: roomy_def)
  finally show "length (filter ?P xs) \<le> BUCKET_SIZE" .
qed

subsection \<open>Canonical nodes\<close>

function canon :: "(string \<Rightarrow> bytes) \<Rightarrow> ('x stored \<Rightarrow> bytes) \<Rightarrow> nat \<Rightarrow> tuples \<Rightarrow> trie_node" where
  "canon route hsh l xs = slot_node (\<lambda>p.
     let g = grp route l xs p in
     if g = [] then None
     else if length g \<le> BUCKET_SIZE then Some (Bucket g)
     else if l < MAX_LEVELS then Some (Link (hsh (TrieNode (canon route hsh (Suc l) g))))
     else None)"
  by pat_completeness auto
termination by (relation "measure (\<lambda>(_, _, l, _). MAX_LEVELS - l)") auto

declare canon.simps [simp del]

definition canon_slot :: "(string \<Rightarrow> bytes) \<Rightarrow> ('x stored \<Rightarrow> bytes) \<Rightarrow> nat \<Rightarrow> tuples \<Rightarrow> nat \<Rightarrow> trie_entry option" where
  "canon_slot route hsh l xs p =
     (let g = grp route l xs p in
      if g = [] then None
      else if length g \<le> BUCKET_SIZE then Some (Bucket g)
      else Some (Link (hsh (TrieNode (canon route hsh (Suc l) g)))))"

lemma canon_slots: "roomy route l xs \<Longrightarrow> canon route hsh l xs = slot_node (canon_slot route hsh l xs)"
proof -
  assume "roomy route l xs"
  then have "l < MAX_LEVELS" if "BUCKET_SIZE < length (grp route l xs p)" for p
    using roomy_next [OF _ that] by fastforce
  then show ?thesis
    by (subst canon.simps) (rule slot_node_cong, auto simp: canon_slot_def Let_def not_le)
qed

text \<open>The nodes below a canonical node are stored.\<close>

function present :: "(string \<Rightarrow> bytes) \<Rightarrow> ('x stored \<Rightarrow> bytes) \<Rightarrow> 'x stored content_store \<Rightarrow> nat \<Rightarrow> tuples \<Rightarrow> bool" where
  "present route hsh cs l xs \<longleftrightarrow>
     (\<forall>p. BUCKET_SIZE < length (grp route l xs p) \<and> l < MAX_LEVELS \<longrightarrow>
        cs_get cs (hsh (TrieNode (canon route hsh (Suc l) (grp route l xs p))))
          = Some (TrieNode (canon route hsh (Suc l) (grp route l xs p)))
        \<and> present route hsh cs (Suc l) (grp route l xs p))"
  by pat_completeness auto
termination by (relation "measure (\<lambda>(_, _, _, l, _). MAX_LEVELS - l)") auto

declare present.simps [simp del]

lemma present_group:
  assumes "present route hsh cs l xs" "roomy route l xs" "BUCKET_SIZE < length (grp route l xs p)"
  shows "cs_get cs (hsh (TrieNode (canon route hsh (Suc l) (grp route l xs p))))
          = Some (TrieNode (canon route hsh (Suc l) (grp route l xs p)))"
    and "present route hsh cs (Suc l) (grp route l xs p)"
  using assms(1) roomy_next [OF assms(2,3)] assms(3) by (subst (asm) present.simps, simp)+

lemma present_grows: "present route hsh cs l xs \<Longrightarrow> cs.grows cs cs' \<Longrightarrow> present route hsh cs' l xs"
proof (induction route hsh cs l xs rule: present.induct)
  case (1 route hsh cs l xs)
  then show ?case
    by (subst present.simps) (subst (asm) (2) present.simps, auto simp: cs.grows_def)
qed

lemma presentI:
  assumes "\<And>p. BUCKET_SIZE < length (grp route l xs p) \<Longrightarrow>
     cs_get cs (hsh (TrieNode (canon route hsh (Suc l) (grp route l xs p))))
          = Some (TrieNode (canon route hsh (Suc l) (grp route l xs p)))
     \<and> present route hsh cs (Suc l) (grp route l xs p)"
  shows "present route hsh cs l xs"
  using assms by (subst present.simps) blast


subsection \<open>Building a node\<close>

lemma group_tuples_from:
  assumes routed: "\<And>k. length (route k) = 32" and l: "l < MAX_LEVELS"
    and "distinct (map fst acc)" "\<And>p. map_of acc p = (let g = grp route l done p in if g = [] then None else Some g)"
  shows "\<exists>groups. group_tuples route l ts acc = Inr groups \<and> distinct (map fst groups)
    \<and> (\<forall>p. map_of groups p = (let g = grp route l (done @ ts) p in if g = [] then None else Some g))"
  using assms(3,4)
proof (induction ts arbitrary: acc "done")
  case Nil
  then show ?case by simp
next
  case (Cons b ts)
  obtain k v where b: "b = (k, v)" by (cases b)
  let ?p = "pos route l k"
  let ?acc = "AList.update ?p ((case map_of acc ?p of None \<Rightarrow> [] | Some g \<Rightarrow> g) @ [(k, v)]) acc"
  have "(case map_of acc ?p of None \<Rightarrow> [] | Some g \<Rightarrow> g) = grp route l done ?p"
    using Cons.prems(2) [of ?p] by (simp add: Let_def)
  then have "map_of ?acc p = (let g = grp route l (done @ [b]) p in if g = [] then None else Some g)" for p
    using Cons.prems(2) [of p] by (simp add: update_conv' b grp_def Let_def)
  moreover have "distinct (map fst ?acc)" using Cons.prems(1) by (simp add: distinct_update)
  moreover have "group_tuples route l (b # ts) acc = group_tuples route l ts ?acc"
    by (simp add: b position_pos routed l)
  ultimately show ?case using Cons.IH [of ?acc "done @ [b]"] by simp
qed

lemma group_tuples_groups:
  assumes "\<And>k. length (route k) = 32" "l < MAX_LEVELS"
  obtains groups where "group_tuples route l ts [] = Inr groups" "distinct (map fst groups)"
    and "\<And>p. map_of groups p = (let g = grp route l ts p in if g = [] then None else Some g)"
  using group_tuples_from [of route l "[]" "[]" ts] assms by (auto simp: grp_def)

lemma group_sort: "grp route l (sort_key fst ts) p = sort_key fst (grp route l ts p)"
  by (simp add: grp_def filter_sort)

lemma roomy_sort: "roomy route l (sort_key fst ts) \<longleftrightarrow> roomy route l ts"
proof -
  have "length (filter P (sort_key fst ts)) = length (filter P ts)" for P
    by (simp add: filter_sort)
  then show ?thesis by (simp add: roomy_def)
qed

text \<open>What an operation on canonical nodes leaves: a canonical node, stored below, in a grown store.\<close>

definition leads_to ::
  "(string \<Rightarrow> bytes) \<Rightarrow> ('x stored \<Rightarrow> bytes) \<Rightarrow> nat \<Rightarrow> 'x stored content_store
     \<Rightarrow> trie_node result \<times> 'x stored content_store \<Rightarrow> tuples \<Rightarrow> bool" where
  "leads_to route hsh l cs r xs \<longleftrightarrow>
     fst r = Inr (canon route hsh l xs) \<and> present route hsh (snd r) l xs \<and> cs_ok hsh (snd r) \<and> cs.grows cs (snd r)"

lemma store_node_found:
  assumes "inj hsh" "cs_ok hsh cs"
  shows "cs_get (snd (store_node hsh node cs)) (hsh (TrieNode node)) = Some (TrieNode node)"
proof -
  obtain e where "cs_get (snd (store_node hsh node cs)) (hsh (TrieNode node)) = Some e" "hsh e = hsh (TrieNode node)"
    using cs.present_after_put [OF assms(2), of "TrieNode node"] by (auto simp: store_node_def)
  with assms(1) show ?thesis by (auto dest: injD)
qed

lemma store_node_grows: "cs_ok hsh cs \<Longrightarrow> cs.grows cs (snd (store_node hsh node cs)) \<and> cs_ok hsh (snd (store_node hsh node cs))"
  by (simp add: store_node_def cs.grows_put cs_ok_put)

lemma store_node_fst [simp]: "fst (store_node hsh node cs) = hsh (TrieNode node)"
  by (simp add: store_node_def)


text \<open>
  The loop over the sorted positions: what is built so far is the canonical node cut off at the
  positions that are left.
\<close>

definition built ::
  "(string \<Rightarrow> bytes) \<Rightarrow> ('x stored \<Rightarrow> bytes) \<Rightarrow> nat \<Rightarrow> tuples \<Rightarrow> nat list \<Rightarrow> 'x stored content_store \<Rightarrow> bool" where
  "built route hsh l xs ps cs \<longleftrightarrow> cs_ok hsh cs \<and>
     (\<forall>p. p \<notin> set ps \<and> BUCKET_SIZE < length (grp route l xs p) \<longrightarrow>
        cs_get cs (hsh (TrieNode (canon route hsh (Suc l) (grp route l xs p))))
          = Some (TrieNode (canon route hsh (Suc l) (grp route l xs p)))
        \<and> present route hsh cs (Suc l) (grp route l xs p))"

definition cut :: "(nat \<Rightarrow> trie_entry option) \<Rightarrow> nat list \<Rightarrow> nat \<Rightarrow> trie_entry option" where
  "cut f ps q = (if q \<in> set ps then None else f q)"

lemma built_grows: "built route hsh l xs ps cs \<Longrightarrow> cs.grows cs cs' \<Longrightarrow> cs_ok hsh cs' \<Longrightarrow> built route hsh l xs ps cs'"
  unfolding built_def using present_grows cs.grows_def by metis

lemma built_extend:
  assumes "built route hsh l xs (p # ps) cs"
    and "BUCKET_SIZE < length (grp route l xs p) \<Longrightarrow>
        cs_get cs (hsh (TrieNode (canon route hsh (Suc l) (grp route l xs p))))
          = Some (TrieNode (canon route hsh (Suc l) (grp route l xs p)))
        \<and> present route hsh cs (Suc l) (grp route l xs p)"
  shows "built route hsh l xs ps cs"
  unfolding built_def
proof (intro conjI allI impI)
  show "cs_ok hsh cs" using assms(1) by (simp add: built_def)
next
  fix q assume q: "q \<notin> set ps \<and> BUCKET_SIZE < length (grp route l xs q)"
  have "cs_get cs (hsh (TrieNode (canon route hsh (Suc l) (grp route l xs q))))
          = Some (TrieNode (canon route hsh (Suc l) (grp route l xs q)))
        \<and> present route hsh cs (Suc l) (grp route l xs q)"
  proof (cases "q = p")
    case True
    with q assms(2) show ?thesis by blast
  next
    case False
    with q assms(1) show ?thesis by (simp add: built_def)
  qed
  then show "cs_get cs (hsh (TrieNode (canon route hsh (Suc l) (grp route l xs q))))
          = Some (TrieNode (canon route hsh (Suc l) (grp route l xs q)))"
    and "present route hsh cs (Suc l) (grp route l xs q)" by blast+
qed

lemma cut_step:
  assumes "p < 32" "sorted (p # ps)" "distinct (p # ps)" "\<And>q. f q \<noteq> None \<Longrightarrow> q \<notin> set (p # ps) \<Longrightarrow> q < p"
  shows "Node (nd_map (slot_node (cut f (p # ps))) OR push_bit p 1) (nd_data (slot_node (cut f (p # ps))) @ [e])
     = slot_node ((cut f ps)(p \<mapsto> e))"
proof -
  have "cut f (p # ps) q = None" if "p \<le> q" for q
    using assms(4) [of q] that by (cases "f q") (auto simp: cut_def)
  from slot_append [OF assms(1) this]
  have "Node (nd_map (slot_node (cut f (p # ps))) OR push_bit p 1) (nd_data (slot_node (cut f (p # ps))) @ [e])
      = slot_node ((cut f (p # ps))(p \<mapsto> e))" .
  also have "(cut f (p # ps))(p \<mapsto> e) = (cut f ps)(p \<mapsto> e)" by (auto simp: cut_def)
  finally show ?thesis .
qed

lemma build_entries_canon:
  assumes inj: "inj hsh" and l: "l < MAX_LEVELS" and d: "distinct (map fst ts)" and room: "roomy route l ts"
    and groups: "\<And>p. map_of groups p = (let g = grp route l ts p in if g = [] then None else Some g)"
    and sub: "\<And>g cs. Suc l < MAX_LEVELS \<Longrightarrow> distinct (map fst g) \<Longrightarrow> roomy route (Suc l) g \<Longrightarrow> cs_ok hsh cs
        \<Longrightarrow> leads_to route hsh (Suc l) cs (build_sub_node route hsh g (Suc l) cs) (sort_key fst g)"
  defines "xs \<equiv> sort_key fst ts"
  defines "F \<equiv> canon_slot route hsh l xs"
  shows "sorted ps \<Longrightarrow> distinct ps \<Longrightarrow> (\<And>p. p \<in> set ps \<Longrightarrow> p < 32 \<and> grp route l ts p \<noteq> [])
    \<Longrightarrow> (\<And>p q. F q \<noteq> None \<Longrightarrow> q \<notin> set ps \<Longrightarrow> p \<in> set ps \<Longrightarrow> q < p)
    \<Longrightarrow> built route hsh l xs ps cs
    \<Longrightarrow> leads_to route hsh l cs (build_entries route hsh groups ps l (slot_node (cut F ps)) cs) xs"
proof (induction ps arbitrary: cs)
  case Nil
  have "cut F [] = F" by (auto simp: cut_def)
  moreover have "present route hsh cs l xs"
    using Nil(5) by (intro presentI) (auto simp: built_def)
  ultimately show ?case
    using Nil(5) room
    by (cases "slot_node F")
      (simp add: leads_to_def canon_slots roomy_sort xs_def F_def built_def cs.grows_refl)
next
  case (Cons p ps)
  let ?g = "grp route l ts p"
  have p: "p < 32" "?g \<noteq> []" using Cons.prems(3) by auto
  have gxs: "grp route l xs p = sort_key fst ?g" by (simp add: xs_def group_sort)
  have g_len: "length (grp route l xs p) = length ?g" by (simp add: gxs)
  have map_g: "the (map_of groups p) = ?g" using p(2) by (simp add: groups Let_def)
  obtain bm dt where node: "slot_node (cut F (p # ps)) = Node bm dt" by (cases "slot_node (cut F (p # ps))")
  have step: "Node (bm OR 2 ^ p) (dt @ [e]) = slot_node ((cut F ps)(p \<mapsto> e))" for e
    using cut_step [OF p(1), of ps F e] Cons.prems by (simp add: node)
  have below: "\<And>p' q. F q \<noteq> None \<Longrightarrow> q \<notin> set ps \<Longrightarrow> p' \<in> set ps \<Longrightarrow> q < p'"
  proof -
    fix p' q assume "F q \<noteq> None" "q \<notin> set ps" "p' \<in> set ps"
    then show "q < p'"
      using Cons.prems(1,2) Cons.prems(4) [of q p'] by (cases "q = p") (auto simp: order_less_le)
  qed
  show ?case
  proof (cases "length ?g \<le> BUCKET_SIZE")
    case True
    have "F p = Some (Bucket (sort_key fst ?g))"
      using True p(2) g_len by (auto simp: F_def canon_slot_def gxs Let_def)
    then have cut: "(cut F ps)(p \<mapsto> Bucket (sort_key fst ?g)) = cut F ps"
      using Cons.prems(2) by (auto simp: cut_def)
    have "built route hsh l xs ps cs"
      by (rule built_extend [OF Cons.prems(5)]) (use True g_len in simp)
    from Cons.IH [OF _ _ _ below this] Cons.prems
    show ?thesis by (simp add: node map_g True step cut Let_def)
  next
    case False
    then have big: "BUCKET_SIZE < length (grp route l ts p)" by simp
    have next_l: "Suc l < MAX_LEVELS" by (rule roomy_next [OF room big])
    have dg: "distinct (map fst ?g)" using d by (simp add: grp_def distinct_map_filter)
    have ok: "cs_ok hsh cs" using Cons.prems(5) by (simp add: built_def)
    obtain r cs1 where sub_r: "build_sub_node route hsh ?g (Suc l) cs = (r, cs1)"
      by (cases "build_sub_node route hsh ?g (Suc l) cs")
    let ?node = "canon route hsh (Suc l) (sort_key fst ?g)"
    have s: "r = Inr ?node" "present route hsh cs1 (Suc l) (sort_key fst ?g)" "cs_ok hsh cs1" "cs.grows cs cs1"
      using sub [OF next_l dg roomy_group [OF room] ok] by (simp_all add: sub_r leads_to_def)
    define cs2 where "cs2 = snd (store_node hsh ?node cs1)"
    have store: "store_node hsh ?node cs1 = (hsh (TrieNode ?node), cs2)"
      by (rule prod_eqI) (simp_all add: cs2_def)
    have s2: "cs_get cs2 (hsh (TrieNode ?node)) = Some (TrieNode ?node)" "cs_ok hsh cs2" "cs.grows cs1 cs2"
      using store_node_found [OF inj s(3)] store_node_grows [OF s(3)] by (simp_all add: cs2_def)
    have grow: "cs.grows cs cs2" by (rule cs.grows_trans [OF s(4) s2(3)])
    have "F p = Some (Link (hsh (TrieNode ?node)))"
      using False p(2) by (auto simp: F_def canon_slot_def gxs Let_def)
    then have cut: "(cut F ps)(p \<mapsto> Link (hsh (TrieNode ?node))) = cut F ps"
      using Cons.prems(2) by (auto simp: cut_def)
    have "built route hsh l xs (p # ps) cs2"
      by (rule built_grows [OF Cons.prems(5) grow s2(2)])
    then have "built route hsh l xs ps cs2"
      by (rule built_extend) (use s2(1) present_grows [OF s(2) s2(3)] in \<open>simp only: gxs\<close>)
    from Cons.IH [OF _ _ _ below this] Cons.prems grow
    show ?thesis
      by (auto simp: node map_g False step cut Let_def l sub_r s store leads_to_def intro: cs.grows_trans)
  qed
qed

lemma build_canon:
  assumes routed: "\<And>k. length (route k) = 32" and inj: "inj hsh"
  shows "l < MAX_LEVELS \<Longrightarrow> distinct (map fst ts) \<Longrightarrow> roomy route l ts \<Longrightarrow> cs_ok hsh cs
    \<Longrightarrow> leads_to route hsh l cs (build_sub_node route hsh ts l cs) (sort_key fst ts)"
proof (induction "MAX_LEVELS - l" arbitrary: l ts cs rule: less_induct)
  case less
  obtain groups where g: "group_tuples route l ts [] = Inr groups" "distinct (map fst groups)"
    and map_g: "\<And>p. map_of groups p = (let g = grp route l ts p in if g = [] then None else Some g)"
    by (rule group_tuples_groups [of route l ts]) (use routed less.prems(1) that in auto)
  let ?ps = "sort (map fst groups)"
  let ?F = "canon_slot route hsh l (sort_key fst ts)"
  have ps: "p \<in> set ?ps \<longleftrightarrow> grp route l ts p \<noteq> []" for p
  proof -
    have "p \<in> set ?ps \<longleftrightarrow> map_of groups p \<noteq> None" by (simp add: map_of_eq_None_iff)
    then show ?thesis by (simp add: map_g Let_def)
  qed
  have bound: "p < 32" if "grp route l ts p \<noteq> []" for p
    using that by (auto simp: grp_def filter_empty_conv)
  have none: "?F q = None" if "q \<notin> set ?ps" for q
  proof -
    have "grp route l ts q = []" using that ps by blast
    then have "grp route l (sort_key fst ts) q = []" by (simp only: group_sort) simp
    then show ?thesis by (simp add: canon_slot_def)
  qed
  have "cut ?F ?ps q = None" for q using none by (simp add: cut_def)
  then have "cut ?F ?ps = (\<lambda>q. None)" by blast
  then have start: "slot_node (cut ?F ?ps) = Node 0 []"
    by (simp flip: empty_node_slots add: empty_node_def)
  have "grp route l (sort_key fst ts) p = []" if "p \<notin> set ?ps" for p
    using that ps group_sort [of route l ts p] by auto
  then have "built route hsh l (sort_key fst ts) ?ps cs"
    using less.prems(4) by (auto simp: built_def)
  then have "leads_to route hsh l cs (build_entries route hsh groups ?ps l (slot_node (cut ?F ?ps)) cs) (sort_key fst ts)"
    using g(2) ps bound none less.hyps
    by (intro build_entries_canon [OF inj less.prems(1-3) map_g]) auto
  then show ?case
    by (simp add: build_sub_node.simps(1) g(1) start)
qed


subsection \<open>Insertion\<close>

lemma leads_to_slot:
  assumes "roomy route l xs" "roomy route l ys" "present route hsh cs l xs"
    and others: "\<And>q. q \<noteq> p \<Longrightarrow> grp route l ys q = grp route l xs q"
    and "canon_slot route hsh l ys p = x" and ok: "cs_ok hsh cs'" and grow: "cs.grows cs cs'"
    and big: "BUCKET_SIZE < length (grp route l ys p) \<Longrightarrow>
        cs_get cs' (hsh (TrieNode (canon route hsh (Suc l) (grp route l ys p))))
          = Some (TrieNode (canon route hsh (Suc l) (grp route l ys p)))
        \<and> present route hsh cs' (Suc l) (grp route l ys p)"
  shows "leads_to route hsh l cs (Inr (slot_node ((canon_slot route hsh l xs)(p := x))), cs') ys"
proof -
  have "(canon_slot route hsh l xs)(p := x) = canon_slot route hsh l ys"
    using assms(5) others by (auto simp: canon_slot_def)
  then have node: "slot_node ((canon_slot route hsh l xs)(p := x)) = canon route hsh l ys"
    by (simp add: canon_slots [OF assms(2)])
  have "present route hsh cs' l ys"
  proof (rule presentI)
    fix q assume q: "BUCKET_SIZE < length (grp route l ys q)"
    show "cs_get cs' (hsh (TrieNode (canon route hsh (Suc l) (grp route l ys q))))
          = Some (TrieNode (canon route hsh (Suc l) (grp route l ys q)))
        \<and> present route hsh cs' (Suc l) (grp route l ys q)"
    proof (cases "q = p")
      case True
      with q big show ?thesis by blast
    next
      case False
      with q others have q': "BUCKET_SIZE < length (grp route l xs q)" by simp
      note pr = present_group [OF assms(3,1) q']
      show ?thesis
        using pr(1) present_grows [OF pr(2) grow] grow False others by (simp add: cs.grows_def)
    qed
  qed
  with node ok grow show ?thesis by (simp add: leads_to_def)
qed

lemma map_of_grp: "map_of (grp route l xs (pos route l k)) k = map_of xs k"
  by (induction xs) (auto simp: grp_def)

lemma length_ins: "length (ins k v xs) = (if map_of xs k = None then Suc (length xs) else length xs)"
proof -
  have "length (AList.update k v xs) = (if map_of xs k = None then Suc (length xs) else length xs)"
    by (induction xs) auto
  then show ?thesis by (simp add: ins_def)
qed

lemma keys_ins: "keyed xs \<Longrightarrow> fst ` set xs \<subseteq> fst ` set (ins k v xs)"
  by (force simp: set_ins)

lemma load_canon:
  "cs_get cs (hsh (TrieNode n)) = Some (TrieNode n) \<Longrightarrow> load_node (hsh (TrieNode n)) cs = n"
  by (simp add: load_node_def)

text \<open>Storing a node that leads on keeps everything below it.\<close>

lemma stored_leads:
  assumes "inj hsh" "leads_to route hsh l cs (Inr n, cs1) ys"
  shows "n = canon route hsh l ys" "fst (store_node hsh n cs1) = hsh (TrieNode n)"
    and "cs_get (snd (store_node hsh n cs1)) (hsh (TrieNode (canon route hsh l ys))) = Some (TrieNode (canon route hsh l ys))"
    and "present route hsh (snd (store_node hsh n cs1)) l ys"
    and "cs_ok hsh (snd (store_node hsh n cs1))" "cs.grows cs (snd (store_node hsh n cs1))"
proof -
  have lt: "n = canon route hsh l ys" "present route hsh cs1 l ys" "cs_ok hsh cs1" "cs.grows cs cs1"
    using assms(2) by (simp_all add: leads_to_def)
  note gr = store_node_grows [OF lt(3), of n]
  show "n = canon route hsh l ys" by (rule lt(1))
  show "fst (store_node hsh n cs1) = hsh (TrieNode n)" by simp
  show "cs_get (snd (store_node hsh n cs1)) (hsh (TrieNode (canon route hsh l ys))) = Some (TrieNode (canon route hsh l ys))"
    using store_node_found [OF assms(1) lt(3), of n] lt(1) by simp
  show "present route hsh (snd (store_node hsh n cs1)) l ys"
    using present_grows [OF lt(2)] gr by blast
  show "cs_ok hsh (snd (store_node hsh n cs1))" using gr by blast
  show "cs.grows cs (snd (store_node hsh n cs1))" using cs.grows_trans [OF lt(4)] gr by blast
qed

lemma put_canon:
  assumes routed: "\<And>k. length (route k) = 32" and inj: "inj hsh"
  shows "l < MAX_LEVELS \<Longrightarrow> keyed xs \<Longrightarrow> roomy route l (ins k v xs) \<Longrightarrow> present route hsh cs l xs \<Longrightarrow> cs_ok hsh cs
    \<Longrightarrow> leads_to route hsh l cs (put_at route hsh (canon route hsh l xs) (route k) l k v cs) (ins k v xs)"
proof (induction "MAX_LEVELS - l" arbitrary: l xs cs rule: less_induct)
  case less
  let ?p = "pos route l k" and ?F = "canon_slot route hsh l xs" and ?ys = "ins k v xs"
  let ?g = "grp route l xs ?p"
  note l = less.prems(1) and keyed = less.prems(2) and room = less.prems(3) and ok = less.prems(5)
  have kg: "keyed ?g" using keyed by (rule keyed_group)
  have room_xs: "roomy route l xs"
    by (rule roomy_subset [OF room]) (use keyed keys_ins in \<open>auto simp: keyed_def\<close>)
  have node: "canon route hsh l xs = slot_node ?F" by (rule canon_slots [OF room_xs])
  have gys: "grp route l ?ys ?p = ins k v ?g" and others: "\<And>q. q \<noteq> ?p \<Longrightarrow> grp route l ?ys q = grp route l xs q"
    using group_ins [OF keyed] by simp_all
  have room_g: "roomy route (Suc l) (ins k v ?g)" using roomy_group [OF room, of ?p] by (simp add: gys)
  have pos: "position_at_level (route k) l = Inr ?p" using routed l by (simp add: position_pos)
  note finish = leads_to_slot [OF room_xs room less.prems(4) others]
  note here = put_at.simps [of route hsh "canon route hsh l xs" "route k" l k v cs]
  have item: "item_at (nd_data (slot_node ?F)) (data_index (nd_map (slot_node ?F)) ?p) = Inr e" if "?F ?p = Some e" for e
    using that by (rule slot_item [OF pos_less])
  show ?case
  proof (cases "?g = []")
    case True
    then have F: "?F ?p = None" by (simp add: canon_slot_def)
    have one: "ins k v [] = [(k, v)]" by (simp add: ins_def)
    have "put_at route hsh (canon route hsh l xs) (route k) l k v cs
        = (Inr (slot_node (?F(?p \<mapsto> Bucket [(k, v)]))), cs)"
      by (simp add: here [unfolded pos sum.case node Let_def slot_free [OF pos_less]] node F
          slot_insert [where f = ?F, OF pos_less F, simplified])
    then show ?thesis
      using finish [of ?p "Some (Bucket [(k, v)])" cs] True ok
      by (simp add: gys canon_slot_def one BUCKET_SIZE_def cs.grows_refl)
  next
    case g: False
    show ?thesis
    proof (cases "length ?g \<le> BUCKET_SIZE")
      case small: True
      then have F: "?F ?p = Some (Bucket ?g)" using g by (simp add: canon_slot_def)
      then have occupied: "?F ?p \<noteq> None" by simp
      note upd = slot_update [where f = ?F, OF pos_less occupied]
      note here' = here [unfolded pos sum.case node Let_def slot_free [OF pos_less] item [OF F] trie_entry.case]
      show ?thesis
      proof (cases "map_of ?g k")
        case (Some old)
        then have ys: "ins k v ?g = AList.update k v ?g" using ins_known [OF kg] by simp
        have len: "length (ins k v ?g) = length ?g" using Some by (simp add: length_ins)
        show ?thesis
        proof (cases "old = v")
          case True
          then have "?ys = xs" using ins_same [OF keyed] Some by (simp add: map_of_grp)
          then show ?thesis
            using True Some less.prems(4) ok F by (simp add: here' node leads_to_def cs.grows_refl)
        next
          case False
          then have "put_at route hsh (canon route hsh l xs) (route k) l k v cs
              = (Inr (slot_node (?F(?p \<mapsto> Bucket (AList.update k v ?g)))), cs)"
            using Some F by (simp add: here' node upd)
          then show ?thesis
            using finish [of ?p "Some (Bucket (AList.update k v ?g))" cs] small ok len
            by (simp add: gys canon_slot_def Let_def flip: ys) (simp add: cs.grows_refl)
        qed
      next
        case None
        then have ys: "ins k v ?g = sort_key fst (?g @ [(k, v)])" by (rule ins_new)
        have len: "length (ins k v ?g) = Suc (length ?g)" using None by (simp add: length_ins)
        show ?thesis
        proof (cases "length ?g < BUCKET_SIZE")
          case True
          then have "put_at route hsh (canon route hsh l xs) (route k) l k v cs
              = (Inr (slot_node (?F(?p \<mapsto> Bucket (ins k v ?g)))), cs)"
            using None F by (simp add: here' node upd ys)
          then show ?thesis
            using finish [of ?p "Some (Bucket (ins k v ?g))" cs] True ok len
            by (simp add: gys canon_slot_def Let_def cs.grows_refl)
        next
          case full: False
          with len have big: "BUCKET_SIZE < length (grp route l ?ys ?p)" by (simp add: gys)
          have d: "distinct (map fst (?g @ [(k, v)]))"
            using kg None by (auto simp: keyed_def map_of_eq_None_iff)
          obtain r cs1 where b: "build_sub_node route hsh (?g @ [(k, v)]) (Suc l) cs = (r, cs1)"
            by (cases "build_sub_node route hsh (?g @ [(k, v)]) (Suc l) cs")
          have "leads_to route hsh (Suc l) cs (r, cs1) (ins k v ?g)"
            unfolding ys b [symmetric]
            by (rule build_canon [OF routed inj roomy_next [OF room big] d _ ok]) (use room_g in \<open>simp add: ys roomy_sort\<close>)
          moreover from this obtain n where n: "r = Inr n" by (auto simp: leads_to_def)
          ultimately have lt: "leads_to route hsh (Suc l) cs (Inr n, cs1) (ins k v ?g)" by simp
          note st = stored_leads [OF inj lt]
          obtain cs2 where store: "store_node hsh n cs1 = (hsh (TrieNode n), cs2)"
            using st(2) by (metis prod.collapse)
          have "put_at route hsh (canon route hsh l xs) (route k) l k v cs
              = (Inr (slot_node (?F(?p \<mapsto> Link (hsh (TrieNode n))))), cs2)"
            using None F full by (simp add: here' node upd b n store)
          then show ?thesis
            using finish [of ?p "Some (Link (hsh (TrieNode n)))" cs2] big st(1) st(3-6) [unfolded store snd_conv]
            by (simp add: gys canon_slot_def Let_def)
        qed
      qed
    next
      case big: False
      then have big_g: "BUCKET_SIZE < length ?g" by simp
      have F: "?F ?p = Some (Link (hsh (TrieNode (canon route hsh (Suc l) ?g))))"
        using g big by (simp add: canon_slot_def)
      then have occupied: "?F ?p \<noteq> None" by simp
      note upd = slot_update [where f = ?F, OF pos_less occupied]
      note pr = present_group [OF less.prems(4) room_xs big_g]
      have big_ys: "BUCKET_SIZE < length (grp route l ?ys ?p)" using big_g by (simp add: gys length_ins)
      note here' = here [unfolded pos sum.case node Let_def slot_free [OF pos_less] item [OF F] trie_entry.case
          load_canon [where cs = cs and hsh = hsh, OF pr(1)]]
      obtain r cs1 where b: "put_at route hsh (canon route hsh (Suc l) ?g) (route k) (Suc l) k v cs = (r, cs1)"
        by (cases "put_at route hsh (canon route hsh (Suc l) ?g) (route k) (Suc l) k v cs")
      have "leads_to route hsh (Suc l) cs (r, cs1) (ins k v ?g)"
        unfolding b [symmetric] using less.hyps [of "Suc l" ?g cs] l roomy_next [OF room big_ys] kg room_g pr(2) ok by simp
      moreover from this obtain n where n: "r = Inr n" by (auto simp: leads_to_def)
      ultimately have lt: "leads_to route hsh (Suc l) cs (Inr n, cs1) (ins k v ?g)" by simp
      note st = stored_leads [OF inj lt]
      obtain cs2 where store: "store_node hsh n cs1 = (hsh (TrieNode n), cs2)"
        using st(2) by (metis prod.collapse)
      show ?thesis
      proof (cases "n = canon route hsh (Suc l) ?g")
        case True
        have res: "put_at route hsh (canon route hsh l xs) (route k) l k v cs = (Inr (slot_node ?F), cs1)"
          using F by (simp add: here' node b n True)
        have "?F(?p := Some (Link (hsh (TrieNode n)))) = ?F" using F True by auto
        then show ?thesis
          using finish [of ?p "Some (Link (hsh (TrieNode n)))" cs1] big_ys lt True pr(1) st(1)
          by (simp add: res gys canon_slot_def Let_def leads_to_def cs.grows_def)
      next
        case False
        then have "put_at route hsh (canon route hsh l xs) (route k) l k v cs
            = (Inr (slot_node (?F(?p \<mapsto> Link (hsh (TrieNode n))))), cs2)"
          using F by (simp add: here' node upd b n store)
        then show ?thesis
          using finish [of ?p "Some (Link (hsh (TrieNode n)))" cs2] big_ys st(1) st(3-6) [unfolded store snd_conv]
          by (simp add: gys canon_slot_def Let_def)
      qed
    qed
  qed
qed

end
