(* ===== verification/Trie_Ops.thy ===== *)
theory Trie_Ops
  imports Trie_Canonical
begin

section \<open>Reading, shrinking and comparing canonical tries\<close>

text \<open>
  Collection returns exactly the bindings, whatever order the positions give them; removal leads to the
  canonical node of what is left; the difference of two tries is the difference of their bindings. One
  level of fuel per trie level is enough, so 52 levels of recursion always are.
\<close>

subsection \<open>Collection\<close>

lemma map_r_parts:
  assumes "\<And>p. p \<in> set ps \<Longrightarrow> \<exists>y. f p = Inr y \<and> Q p y"
  shows "\<exists>ys. map_r f ps = Inr ys \<and> list_all2 Q ps ys"
  using assms
proof (induction ps)
  case (Cons p ps)
  then obtain y ys where "f p = Inr y" "Q p y" "map_r f ps = Inr ys" "list_all2 Q ps ys"
    by (meson list.set_intros)
  then show ?case by auto
qed simp

lemma mset_concat_parts:
  "list_all2 (\<lambda>p y. mset y = mset (g p)) ps ys \<Longrightarrow> mset (concat ys) = mset (concat (map g ps))"
  by (induction rule: list_all2_induct) auto

lemma mset_groups:
  assumes "distinct ps" "\<And>b. b \<in> set xs \<Longrightarrow> f b \<in> set ps"
  shows "mset (concat (map (\<lambda>p. filter (\<lambda>b. f b = p) xs) ps)) = mset xs"
  using assms(2)
proof (induction xs)
  case Nil
  have "concat (map (\<lambda>p. []) ps) = []" by (induction ps) auto
  then show ?case by simp
next
  case (Cons b xs)
  have "mset (concat (map (\<lambda>p. filter (\<lambda>c. f c = p) (b # xs)) qs))
      = (if f b \<in> set qs then {#b#} else {#}) + mset (concat (map (\<lambda>p. filter (\<lambda>c. f c = p) xs) qs))"
    if "distinct qs" for qs
    using that by (induction qs) auto
  from this [OF assms(1)] show ?case using Cons by simp
qed

lemma concat_filter_nonempty: "concat (map g (filter (\<lambda>p. g p \<noteq> []) ps)) = concat (map g ps)"
  by (induction ps) auto

lemma mset_grps:
  "mset (concat (map (grp route l xs) (filter (\<lambda>p. grp route l xs p \<noteq> []) [0..<32]))) = mset xs"
  unfolding concat_filter_nonempty using mset_groups [of "[0..<32]" xs "\<lambda>b. pos route l (fst b)"] by (simp add: grp_def [abs_def])

lemma occupied_grps: "(\<lambda>p. canon_slot route hsh l xs p \<noteq> None) = (\<lambda>p. grp route l xs p \<noteq> [])"
  by (auto simp: canon_slot_def Let_def)

lemma collect_canon:
  "MAX_LEVELS - l < n \<Longrightarrow> roomy route l xs \<Longrightarrow> present route hsh cs l xs
    \<Longrightarrow> \<exists>zs. collect_reachable n (canon route hsh l xs) cs = Inr zs \<and> mset zs = mset xs"
proof (induction n arbitrary: l xs)
  case (Suc n)
  let ?F = "canon_slot route hsh l xs"
  let ?node = "slot_node ?F"
  let ?part = "\<lambda>p. bind_r (item_at (nd_data ?node) (data_index (nd_map ?node) p))
                 (\<lambda>entry. case entry of Bucket bucket \<Rightarrow> Inr bucket
                           | Link h \<Rightarrow> collect_reachable n (load_node h cs) cs)"
  let ?ps = "filter (\<lambda>p. grp route l xs p \<noteq> []) [0..<32]"
  have "\<exists>y. ?part p = Inr y \<and> mset y = mset (grp route l xs p)" if p: "p \<in> set ?ps" for p
  proof (cases "length (grp route l xs p) \<le> BUCKET_SIZE")
    case True
    then have "?F p = Some (Bucket (grp route l xs p))" using p by (simp add: canon_slot_def)
    from slot_item [where f = ?F, OF _ this] p show ?thesis by simp
  next
    case False
    then have big: "BUCKET_SIZE < length (grp route l xs p)" by simp
    have "?F p = Some (Link (hsh (TrieNode (canon route hsh (Suc l) (grp route l xs p)))))"
      using p False by (simp add: canon_slot_def)
    note item = slot_item [where f = ?F, OF _ this]
    note pr = present_group [OF Suc.prems(3,2) big]
    have "MAX_LEVELS - Suc l < n" using Suc.prems(1) roomy_next [OF Suc.prems(2) big] by simp
    from Suc.IH [OF this roomy_group [OF Suc.prems(2)] pr(2)] item p load_canon [where cs = cs and hsh = hsh, OF pr(1)]
    show ?thesis by simp
  qed
  from map_r_parts [of ?ps ?part "\<lambda>p y. mset y = mset (grp route l xs p)", OF this]
  obtain ys where ys: "map_r ?part ?ps = Inr ys" "list_all2 (\<lambda>p y. mset y = mset (grp route l xs p)) ?ps ys"
    by blast
  have "collect_reachable (Suc n) (canon route hsh l xs) cs = Inr (concat ys)"
    using ys(1) by (simp add: canon_slots [OF Suc.prems(2)] set_bits_slot [of ?F, unfolded occupied_grps])
  moreover have "mset (concat ys) = mset xs"
    using mset_concat_parts [OF ys(2)] mset_grps by metis
  ultimately show ?case by blast
qed simp

text \<open>So a canonical node determines its bindings.\<close>

lemma canon_inj:
  assumes "roomy route l xs" "present route hsh cs l xs" "keyed xs"
    and "roomy route l ys" "present route hsh cs l ys" "keyed ys"
    and "canon route hsh l xs = canon route hsh l ys"
  shows "xs = ys"
proof -
  have "MAX_LEVELS - l < Suc (MAX_LEVELS - l)" by simp
  from collect_canon [OF this assms(1,2)] collect_canon [OF this assms(4,5)]
  have "mset xs = mset ys" using assms(7) by auto
  then show ?thesis using keyed_unique [OF assms(3,6)] mset_eq_setD by blast
qed

subsection \<open>Removal\<close>

definition del :: "string \<Rightarrow> tuples \<Rightarrow> tuples" where
  "del k xs = filter (\<lambda>b. fst b \<noteq> k) xs"

lemma keyed_del: "keyed xs \<Longrightarrow> keyed (del k xs)"
  by (simp add: del_def keyed_filter)

lemma del_absent: "map_of xs k = None \<Longrightarrow> del k xs = xs"
  by (induction xs) (auto simp: del_def split: if_splits)

lemma map_of_del: "map_of (del k xs) = (map_of xs)(k := None)"
  by (induction xs) (auto simp: del_def)

lemma grp_del: "grp route l (del k xs) p = (if p = pos route l k then del k (grp route l xs p) else grp route l xs p)"
  by (auto simp: grp_def del_def intro: filter_cong)

lemma roomy_del: "keyed xs \<Longrightarrow> roomy route l xs \<Longrightarrow> roomy route l (del k xs)"
  by (erule roomy_subset) (auto simp: del_def keyed_def distinct_map_filter)

lemma length_del: "keyed xs \<Longrightarrow> length (del k xs) = (if map_of xs k = None then length xs else length xs - 1)"
proof (induction xs)
  case (Cons b xs)
  then have xs: "keyed xs" "fst b \<notin> fst ` set xs" by (auto simp: keyed_def)
  show ?case
  proof (cases "fst b = k")
    case True
    then have "map_of xs k = None" using xs(2) by (simp add: map_of_eq_None_iff)
    from del_absent [OF this] True show ?thesis by (cases b) (simp add: del_def)
  next
    case False
    have "xs \<noteq> []" if "map_of xs k \<noteq> None" using that by auto
    with Cons.IH [OF xs(1)] False show ?thesis by (cases b; cases xs) (auto simp: del_def)
  qed
qed (simp add: del_def)

lemma delete_key:
  "keyed xs \<Longrightarrow> map_of xs k \<noteq> None \<Longrightarrow> delete_at (length (takeWhile (\<lambda>(k', _). k' \<noteq> k) xs)) xs = del k xs"
proof (induction xs)
  case (Cons b xs)
  then have xs: "keyed xs" "fst b \<notin> fst ` set xs" by (auto simp: keyed_def)
  show ?case
  proof (cases "fst b = k")
    case True
    then have "map_of xs k = None" using xs(2) by (simp add: map_of_eq_None_iff)
    from del_absent [OF this] True show ?thesis by (cases b) (simp add: del_def delete_at_def)
  next
    case False
    then have "map_of xs k \<noteq> None" using Cons.prems(2) by (cases b) auto
    from Cons.IH [OF xs(1) this] False show ?thesis by (cases b) (simp add: del_def delete_at_def)
  qed
qed simp

text \<open>\<open>_remove_at\<close> reports whether the key was there.\<close>

lemma remove_canon:
  assumes routed: "\<And>k. length (route k) = 32" and inj: "inj hsh"
  shows "l < MAX_LEVELS \<Longrightarrow> keyed xs \<Longrightarrow> roomy route l xs \<Longrightarrow> present route hsh cs l xs \<Longrightarrow> cs_ok hsh cs
    \<Longrightarrow> MAX_LEVELS - l < limit
    \<Longrightarrow> \<exists>node cs'. remove_at hsh limit (canon route hsh l xs) (route k) l k cs = (Inr (node, map_of xs k \<noteq> None), cs')
          \<and> leads_to route hsh l cs (Inr node, cs') (del k xs)"
proof (induction "MAX_LEVELS - l" arbitrary: l xs cs rule: less_induct)
  case less
  let ?p = "pos route l k" and ?F = "canon_slot route hsh l xs" and ?ys = "del k xs"
  let ?g = "grp route l xs ?p"
  note l = less.prems(1) and keyed = less.prems(2) and room = less.prems(3) and ok = less.prems(5)
  have kg: "keyed ?g" using keyed by (rule keyed_group)
  have room_ys: "roomy route l ?ys" by (rule roomy_del [OF keyed room])
  have node: "canon route hsh l xs = slot_node ?F" by (rule canon_slots [OF room])
  have gys: "grp route l ?ys ?p = del k ?g" and others: "\<And>q. q \<noteq> ?p \<Longrightarrow> grp route l ?ys q = grp route l xs q"
    by (simp_all add: grp_del)
  have here_k: "map_of ?g k = map_of xs k" by (rule map_of_grp)
  have pos: "position_at_level (route k) l = Inr ?p" using routed l by (simp add: position_pos)
  note finish = leads_to_slot [OF room room_ys less.prems(4) others]
  note here = remove_at.simps [of hsh limit "canon route hsh l xs" "route k" l k cs,
      unfolded pos sum.case node Let_def slot_free [OF pos_less]]
  have absent: ?case
    if "map_of xs k = None" "remove_at hsh limit (canon route hsh l xs) (route k) l k cs = (Inr (canon route hsh l xs, False), cs')"
      "cs_ok hsh cs'" "cs.grows cs cs'" for cs'
    using that del_absent [OF that(1)] present_grows [OF less.prems(4) that(4)] by (simp add: leads_to_def)
  show ?case
  proof (cases "?g = []")
    case True
    then have "?F ?p = None" "map_of xs k = None" using here_k by (simp_all add: canon_slot_def)
    then show ?thesis
      using absent [of cs] ok by (simp add: here node cs.grows_refl)
  next
    case g: False
    show ?thesis
    proof (cases "length ?g \<le> BUCKET_SIZE")
      case small: True
      then have F: "?F ?p = Some (Bucket ?g)" using g by (simp add: canon_slot_def)
      then have occupied: "?F ?p \<noteq> None" by simp
      note here' = here [unfolded slot_item [where f = ?F, OF pos_less F] sum.case trie_entry.case]
      show ?thesis
      proof (cases "map_of ?g k")
        case None
        then show ?thesis
          using absent [of cs] ok F here_k by (simp add: here' node cs.grows_refl)
      next
        case (Some v)
        then have del_g: "delete_at (length (takeWhile (\<lambda>(k', _). k' \<noteq> k) ?g)) ?g = del k ?g"
          by (intro delete_key [OF kg]) simp
        have len: "length (del k ?g) \<le> BUCKET_SIZE" unfolding del_def by (rule order_trans [OF length_filter_le small])
        show ?thesis
        proof (cases "del k ?g = []")
          case True
          then have "remove_at hsh limit (canon route hsh l xs) (route k) l k cs = (Inr (slot_node (?F(?p := None)), True), cs)"
            using Some F by (simp add: here' node del_g slot_delete [where f = ?F, OF pos_less occupied, simplified])
          moreover have "leads_to route hsh l cs (Inr (slot_node (?F(?p := None))), cs) ?ys"
            using finish [of ?p None cs] True ok by (simp add: gys canon_slot_def cs.grows_refl)
          ultimately show ?thesis using Some here_k by simp
        next
          case False
          then have "remove_at hsh limit (canon route hsh l xs) (route k) l k cs
              = (Inr (slot_node (?F(?p \<mapsto> Bucket (del k ?g))), True), cs)"
            using Some F by (simp add: here' node del_g slot_update [where f = ?F, OF pos_less occupied])
          moreover have "leads_to route hsh l cs (Inr (slot_node (?F(?p \<mapsto> Bucket (del k ?g)))), cs) ?ys"
            using finish [of ?p "Some (Bucket (del k ?g))" cs] False len ok
            by (simp add: gys canon_slot_def Let_def cs.grows_refl)
          ultimately show ?thesis using Some here_k by simp
        qed
      qed
    next
      case big: False
      then have big_g: "BUCKET_SIZE < length ?g" by simp
      have F: "?F ?p = Some (Link (hsh (TrieNode (canon route hsh (Suc l) ?g))))"
        using g big by (simp add: canon_slot_def)
      then have occupied: "?F ?p \<noteq> None" by simp
      note pr = present_group [OF less.prems(4) room big_g]
      note here' = here [unfolded slot_item [where f = ?F, OF pos_less F] sum.case trie_entry.case
          load_canon [where cs = cs and hsh = hsh, OF pr(1)]]
      have l': "Suc l < MAX_LEVELS" by (rule roomy_next [OF room big_g])
      have lim: "MAX_LEVELS - Suc l < limit" using less.prems(6) by simp
      obtain sub cs1 where sub: "remove_at hsh limit (canon route hsh (Suc l) ?g) (route k) (Suc l) k cs
            = (Inr (sub, map_of ?g k \<noteq> None), cs1)"
        and lt: "leads_to route hsh (Suc l) cs (Inr sub, cs1) (del k ?g)"
        using less.hyps [OF _ l' kg roomy_group [OF room] pr(2) ok lim] l by fastforce
      have cs1: "cs_ok hsh cs1" "cs.grows cs cs1" "sub = canon route hsh (Suc l) (del k ?g)"
        "present route hsh cs1 (Suc l) (del k ?g)"
        using lt by (simp_all add: leads_to_def)
      show ?thesis
      proof (cases "map_of ?g k")
        case None
        then show ?thesis
          using absent [of cs1] F here_k cs1 by (simp add: here' node sub)
      next
        case (Some v)
        obtain reach where reach: "collect_reachable limit sub cs1 = Inr reach" "mset reach = mset (del k ?g)"
          using collect_canon [OF lim roomy_del [OF kg roomy_group [OF room]] cs1(4)] cs1(3) by blast
        have sorted: "sort_key fst reach = del k ?g" by (rule sort_mset_unique [OF keyed_del [OF kg] reach(2)])
        have len: "length reach = length (del k ?g)" using mset_eq_length [OF reach(2)] .
        have still: "del k ?g \<noteq> []"
          using big_g length_del [OF kg, of k] by (cases "map_of ?g k") (auto simp: BUCKET_SIZE_def)
        show ?thesis
        proof (cases "length (del k ?g) \<le> BUCKET_SIZE")
          case True
          then have "remove_at hsh limit (canon route hsh l xs) (route k) l k cs
              = (Inr (slot_node (?F(?p \<mapsto> Bucket (del k ?g))), True), cs1)"
            using Some F still
            by (simp add: here' node sub replace_link_with_canonical_def reach len sorted Let_def
                slot_update [where f = ?F, OF pos_less occupied])
          moreover have "leads_to route hsh l cs (Inr (slot_node (?F(?p \<mapsto> Bucket (del k ?g)))), cs1) ?ys"
            using finish [of ?p "Some (Bucket (del k ?g))" cs1] still True cs1
            by (simp add: gys canon_slot_def Let_def)
          ultimately show ?thesis using Some here_k by simp
        next
          case False
          note st = stored_leads [OF inj lt]
          obtain cs2 where store: "store_node hsh sub cs1 = (hsh (TrieNode sub), cs2)"
            using st(2) by (metis prod.collapse)
          have "remove_at hsh limit (canon route hsh l xs) (route k) l k cs
              = (Inr (slot_node (?F(?p \<mapsto> Link (hsh (TrieNode sub)))), True), cs2)"
            using Some F False
            by (simp add: here' node sub replace_link_with_canonical_def reach len store Let_def
                slot_update [where f = ?F, OF pos_less occupied])
          moreover have "leads_to route hsh l cs (Inr (slot_node (?F(?p \<mapsto> Link (hsh (TrieNode sub))))), cs2) ?ys"
            using finish [of ?p "Some (Link (hsh (TrieNode sub)))" cs2] still False
              st(1) st(3-6) [unfolded store snd_conv]
            by (simp add: gys canon_slot_def Let_def)
          ultimately show ?thesis using Some here_k by simp
        qed
      qed
    qed
  qed
qed


subsection \<open>Difference\<close>

text \<open>The changes from one map to another.\<close>

definition changes :: "(string \<Rightarrow> bytes option) \<Rightarrow> (string \<Rightarrow> bytes option) \<Rightarrow> change set" where
  "changes m m' =
     {c. case c of
           Added k w \<Rightarrow> m k = None \<and> m' k = Some w
         | Removed k v \<Rightarrow> m k = Some v \<and> m' k = None
         | Changed k v w \<Rightarrow> m k = Some v \<and> m' k = Some w \<and> v \<noteq> w}"

primrec ckey :: "change \<Rightarrow> string" where
  "ckey (Added k w) = k"
| "ckey (Removed k v) = k"
| "ckey (Changed k v w) = k"

lemma changes_same [simp]: "changes m m = {}"
  by (auto simp: changes_def split: change.splits)

lemma changes_key: "c \<in> changes m m' \<Longrightarrow> m (ckey c) \<noteq> None \<or> m' (ckey c) \<noteq> None"
  by (cases c) (auto simp: changes_def)

lemma map_of_dict_of: "map_of (dict_of xs) k = map_of (rev xs) k \<and> distinct (map fst (dict_of xs))"
proof -
  have "distinct (map fst acc) \<Longrightarrow>
      map_of (fold (\<lambda>(k, v). AList.update k v) xs acc) k = map_of (rev xs @ acc) k
      \<and> distinct (map fst (fold (\<lambda>(k, v). AList.update k v) xs acc))" for acc
  proof (induction xs arbitrary: acc)
    case (Cons b xs)
    obtain a v where b: "b = (a, v)" by (cases b)
    have "distinct (map fst (AList.update a v acc))" using Cons.prems by (simp add: distinct_update)
    from Cons.IH [OF this] show ?case by (simp add: b update_conv' map_add_assoc)
  qed simp
  from this [of "[]"] show ?thesis by (simp add: dict_of_def)
qed

lemma map_of_rev: "distinct (map fst xs) \<Longrightarrow> map_of (rev xs) = map_of xs"
  by (intro map_of_inject_set [THEN iffD2]) (simp_all flip: rev_map)

lemma map_of_mset: "keyed xs \<Longrightarrow> mset ys = mset xs \<Longrightarrow> map_of ys = map_of xs \<and> distinct (map fst ys)"
proof -
  assume k: "keyed xs" and m: "mset ys = mset xs"
  have "mset (map fst ys) = mset (map fst xs)" using m by (metis mset_map)
  from mset_eq_imp_distinct_iff [OF this] have d: "distinct (map fst ys)" using k by (simp add: keyed_def)
  with k mset_eq_setD [OF m] show ?thesis by (auto simp: keyed_def map_of_inject_set)
qed

definition diff_part :: "tuples \<Rightarrow> tuples \<Rightarrow> change list \<Rightarrow> bool" where
  "diff_part xs ys out \<longleftrightarrow> set out = changes (map_of xs) (map_of ys) \<and> distinct (map ckey out)"

lemma diff_buckets_part:
  assumes "keyed gx" "mset xs = mset gx" "keyed gy" "mset ys = mset gy"
  shows "diff_part gx gy (diff_buckets xs ys)"
proof -
  define f where "f = (\<lambda>k. case (map_of gx k, map_of gy k) of
                        (Some v, None) \<Rightarrow> [Removed k v]
                      | (None, Some w) \<Rightarrow> [Added k w]
                      | (Some v, Some w) \<Rightarrow> if v \<noteq> w then [Changed k v w] else []
                      | (None, None) \<Rightarrow> [])"
  have x: "map_of (dict_of xs) = map_of gx" and y: "map_of (dict_of ys) = map_of gy"
  proof -
    have dict: "map_of (dict_of zs) = map_of zs" if "distinct (map fst zs)" for zs
      using map_of_rev [OF that] map_of_dict_of [of zs] by (simp add: fun_eq_iff)
    show "map_of (dict_of xs) = map_of gx" "map_of (dict_of ys) = map_of gy"
      using map_of_mset [OF assms(1,2)] map_of_mset [OF assms(3,4)] dict by simp_all
  qed
  let ?ks = "remdups (map fst (dict_of xs) @ map fst (dict_of ys))"
  have out: "diff_buckets xs ys = concat (map f ?ks)"
    unfolding diff_buckets_def Let_def x y f_def ..
  have key: "map ckey (f k) = (if f k = [] then [] else [k])" for k
    by (auto simp: f_def split: option.split)
  have "distinct (map ckey (concat (map f ks)))" if "distinct ks" for ks
  proof -
    have "set (map ckey (concat (map f ks))) \<subseteq> set ks \<and> distinct (map ckey (concat (map f ks)))"
      using that
    proof (induction ks)
      case (Cons k ks)
      then show ?case by (auto simp: key)
    qed simp
    then show ?thesis by blast
  qed
  then have "distinct (map ckey (diff_buckets xs ys))" unfolding out by simp
  moreover have "c \<in> set (f k) \<longleftrightarrow> c \<in> changes (map_of gx) (map_of gy) \<and> ckey c = k" for c k
    by (cases c) (auto simp: f_def changes_def split: option.split)
  then have "set (diff_buckets xs ys) = {c \<in> changes (map_of gx) (map_of gy). ckey c \<in> set ?ks}"
    unfolding out by auto
  moreover have "ckey c \<in> set ?ks" if "c \<in> changes (map_of gx) (map_of gy)" for c
  proof -
    have "map_of (dict_of xs) (ckey c) \<noteq> None \<or> map_of (dict_of ys) (ckey c) \<noteq> None"
      using changes_key [OF that] by (simp only: x y)
    then show ?thesis by (simp only: map_of_eq_None_iff) auto
  qed
  ultimately show ?thesis unfolding diff_part_def by blast
qed

lemma in_map_change:
  "c \<in> set (map (\<lambda>(k, v). Added k v) zs) \<longleftrightarrow> (case c of Added k v \<Rightarrow> (k, v) \<in> set zs | _ \<Rightarrow> False)"
  "c \<in> set (map (\<lambda>(k, v). Removed k v) zs) \<longleftrightarrow> (case c of Removed k v \<Rightarrow> (k, v) \<in> set zs | _ \<Rightarrow> False)"
  by (induction zs) (auto split: change.splits)

lemma diff_part_only:
  assumes "keyed ys" "mset zs = mset ys"
  shows "diff_part [] ys (map (\<lambda>(k, v). Added k v) zs)" "diff_part ys [] (map (\<lambda>(k, v). Removed k v) zs)"
proof -
  note m = map_of_mset [OF assms]
  have z: "(k, v) \<in> set zs \<longleftrightarrow> map_of ys k = Some v" for k v
    using m by (metis map_of_eq_Some_iff)
  have "map ckey (map (\<lambda>(k, v). Added k v) zs) = map fst zs" "map ckey (map (\<lambda>(k, v). Removed k v) zs) = map fst zs"
    by (auto simp: split_beta)
  moreover have "set (map (\<lambda>(k, v). Added k v) zs) = changes (map_of []) (map_of ys)"
    by (intro set_eqI) (simp add: in_map_change z changes_def del: set_map split: change.split)
  moreover have "set (map (\<lambda>(k, v). Removed k v) zs) = changes (map_of ys) (map_of [])"
    by (intro set_eqI) (simp add: in_map_change z changes_def del: set_map split: change.split)
  ultimately show "diff_part [] ys (map (\<lambda>(k, v). Added k v) zs)" "diff_part ys [] (map (\<lambda>(k, v). Removed k v) zs)"
    using m unfolding diff_part_def by (metis map_of.simps(1))+
qed

lemma walk_canon:
  "MAX_LEVELS - l < n \<Longrightarrow> roomy route l xs \<Longrightarrow> present route hsh cs l xs \<Longrightarrow> canon_slot route hsh l xs p = Some e
    \<Longrightarrow> \<exists>zs. walk_entry_collect n kind e cs = Inr (map (\<lambda>(k, v). kind k v) zs) \<and> mset zs = mset (grp route l xs p)"
proof (induction n arbitrary: l xs p e)
  case (Suc n)
  let ?g = "grp route l xs p"
  have g: "?g \<noteq> []" using Suc.prems(4) by (auto simp: canon_slot_def Let_def)
  show ?case
  proof (cases "length ?g \<le> BUCKET_SIZE")
    case True
    then have "e = Bucket ?g" using Suc.prems(4) g by (simp add: canon_slot_def Let_def)
    then show ?thesis by auto
  next
    case False
    then have big: "BUCKET_SIZE < length ?g" by simp
    have e: "e = Link (hsh (TrieNode (canon route hsh (Suc l) ?g)))"
      using Suc.prems(4) g False by (simp add: canon_slot_def Let_def)
    note pr = present_group [OF Suc.prems(3,2) big]
    have fuel: "MAX_LEVELS - Suc l < n" using Suc.prems(1) roomy_next [OF Suc.prems(2) big] by simp
    let ?F = "canon_slot route hsh (Suc l) ?g"
    let ?node = "slot_node ?F"
    let ?part = "\<lambda>q. bind_r (item_at (nd_data ?node) (data_index (nd_map ?node) q))
                   (\<lambda>sub_entry. walk_entry_collect n kind sub_entry cs)"
    let ?ps = "filter (\<lambda>q. grp route (Suc l) ?g q \<noteq> []) [0..<32]"
    have "\<exists>y. ?part q = Inr y \<and> (\<exists>zs. y = map (\<lambda>(k, v). kind k v) zs \<and> mset zs = mset (grp route (Suc l) ?g q))"
      if q: "q \<in> set ?ps" for q
    proof -
      from q have "?F q \<noteq> None" by (simp add: canon_slot_def Let_def)
      then obtain e' where e': "?F q = Some e'" by blast
      from slot_item [where f = ?F, OF _ e'] q Suc.IH [OF fuel roomy_group [OF Suc.prems(2)] pr(2) e']
      show ?thesis by auto
    qed
    from map_r_parts [of ?ps ?part "\<lambda>q y. \<exists>zs. y = map (\<lambda>(k, v). kind k v) zs \<and> mset zs = mset (grp route (Suc l) ?g q)", OF this]
    obtain ys where ys: "map_r ?part ?ps = Inr ys"
      "list_all2 (\<lambda>q y. \<exists>zs. y = map (\<lambda>(k, v). kind k v) zs \<and> mset zs = mset (grp route (Suc l) ?g q)) ?ps ys"
      by blast
    from ys(2) have "\<exists>zs. concat ys = map (\<lambda>(k, v). kind k v) zs \<and> mset zs = mset (concat (map (grp route (Suc l) ?g) ?ps))"
    proof (induction rule: list_all2_induct)
      case (Cons q qs y ys)
      then obtain zs zs' where "y = map (\<lambda>(k, v). kind k v) zs" "mset zs = mset (grp route (Suc l) ?g q)"
        "concat ys = map (\<lambda>(k, v). kind k v) zs'" "mset zs' = mset (concat (map (grp route (Suc l) ?g) qs))" by blast
      then show ?case by (intro exI [of _ "zs @ zs'"]) simp
    qed simp
    then obtain zs where zs: "concat ys = map (\<lambda>(k, v). kind k v) zs"
      "mset zs = mset (concat (map (grp route (Suc l) ?g) ?ps))" by blast
    have "load_node (hsh (TrieNode (slot_node ?F))) cs = slot_node ?F"
      using load_canon [where cs = cs and hsh = hsh, OF pr(1)] by (simp add: canon_slots [OF roomy_group [OF Suc.prems(2)]])
    then have "walk_entry_collect (Suc n) kind e cs = Inr (concat ys)"
      using ys(1) by (simp add: e Let_def
          canon_slots [OF roomy_group [OF Suc.prems(2)]] set_bits_slot [of ?F, unfolded occupied_grps])
    moreover have "mset zs = mset ?g" using zs(2) mset_grps by metis
    ultimately show ?thesis using zs(1) by auto
  qed
qed simp


lemma map_of_grp_at: "map_of (grp route l xs p) k = (if pos route l k = p then map_of xs k else None)"
  by (induction xs) (auto simp: grp_def)

lemma changes_grp:
  "c \<in> changes (map_of (grp route l xs p)) (map_of (grp route l ys p))
     \<longleftrightarrow> c \<in> changes (map_of xs) (map_of ys) \<and> pos route l (ckey c) = p"
  by (cases c) (auto simp: changes_def map_of_grp_at)

lemma diff_parts_concat:
  assumes "list_all2 (\<lambda>p out. diff_part (grp route l xs p) (grp route l ys p) out) ps outs" "distinct ps"
  shows "set (concat outs) = {c \<in> changes (map_of xs) (map_of ys). pos route l (ckey c) \<in> set ps}
    \<and> distinct (map ckey (concat outs))"
  using assms
proof (induction rule: list_all2_induct)
  case (Cons p ps out outs)
  have p: "p \<notin> set ps" "distinct ps" using Cons.prems by simp_all
  have ih: "set (concat outs) = {c \<in> changes (map_of xs) (map_of ys). pos route l (ckey c) \<in> set ps}"
    "distinct (map ckey (concat outs))" using Cons.IH [OF p(2)] by (simp_all only: simp_thms)
  have out: "set out = {c \<in> changes (map_of xs) (map_of ys). pos route l (ckey c) = p}" "distinct (map ckey out)"
    using Cons.hyps(1) unfolding diff_part_def by (simp_all only: changes_grp set_eq_iff mem_Collect_eq simp_thms)
  have apart: "ckey c \<noteq> ckey c'" if "c \<in> set out" "c' \<in> set (concat outs)" for c c'
    using that p unfolding ih(1) out(1) by auto
  have "set (map ckey out) \<inter> set (map ckey (concat outs)) = {}"
  proof (rule equals0I)
    fix k assume "k \<in> set (map ckey out) \<inter> set (map ckey (concat outs))"
    then obtain c c' where "c \<in> set out" "k = ckey c" "c' \<in> set (concat outs)" "k = ckey c'"
      unfolding set_map by blast
    with apart show False by blast
  qed
  then have "distinct (map ckey (out @ concat outs))"
    using ih(2) out(2) by (simp only: map_append distinct_append simp_thms)
  moreover have "set (out @ concat outs) = {c \<in> changes (map_of xs) (map_of ys). pos route l (ckey c) \<in> set (p # ps)}"
    unfolding set_append ih(1) out(1) by auto
  ultimately show ?case by simp
qed simp

lemma entry_at_slot: "p < 32 \<Longrightarrow> entry_at (slot_node f) p = Inr (f p)"
  unfolding entry_at_def slot_free by (cases "f p") (simp_all add: slot_item)

lemma diff_canon:
  assumes inj: "inj hsh"
  shows "Suc (MAX_LEVELS - l) < n
    \<Longrightarrow> roomy route l xs \<Longrightarrow> present route hsh cs l xs \<Longrightarrow> keyed xs
    \<Longrightarrow> roomy route l ys \<Longrightarrow> present route hsh cs l ys \<Longrightarrow> keyed ys
    \<Longrightarrow> \<exists>out. diff_nodes n (canon route hsh l xs) (canon route hsh l ys) cs = Inr out \<and> diff_part xs ys out"
proof (induction n arbitrary: l xs ys)
  case (Suc n)
  note xs = Suc.prems(2-4) and ys = Suc.prems(5-7)
  let ?F = "canon_slot route hsh l xs" and ?G = "canon_slot route hsh l ys"
  have fuel: "MAX_LEVELS - l < n" using Suc.prems(1) by simp
  show ?case
  proof (cases "canon route hsh l xs = canon route hsh l ys")
    case True
    then have "xs = ys" by (rule canon_inj [OF xs ys])
    then show ?thesis by (simp add: diff_part_def)
  next
    case False
    let ?part = "\<lambda>p. bind_r (entry_at (slot_node ?F) p) (\<lambda>entry_a. bind_r (entry_at (slot_node ?G) p) (\<lambda>entry_b.
              case (entry_a, entry_b) of
                (None, None) \<Rightarrow> Inr []
              | (None, Some eb) \<Rightarrow> walk_entry_collect n Added eb cs
              | (Some ea, None) \<Rightarrow> walk_entry_collect n Removed ea cs
              | (Some (Bucket ba), Some (Bucket bb)) \<Rightarrow> Inr (diff_buckets ba bb)
              | (Some (Link ha), Some (Link hb)) \<Rightarrow>
                  if ha = hb then Inr [] else diff_nodes n (load_node ha cs) (load_node hb cs) cs
              | (Some (Bucket ba), Some (Link hb)) \<Rightarrow>
                  bind_r (walk_entry_collect_bindings n (Link hb) cs) (\<lambda>bindings_b. Inr (diff_buckets ba bindings_b))
              | (Some (Link ha), Some (Bucket bb)) \<Rightarrow>
                  bind_r (walk_entry_collect_bindings n (Link ha) cs) (\<lambda>bindings_a. Inr (diff_buckets bindings_a bb))))"
    let ?ps = "filter (\<lambda>p. ?F p \<noteq> None \<or> ?G p \<noteq> None) [0..<32]"
    have "\<exists>out. ?part p = Inr out \<and> diff_part (grp route l xs p) (grp route l ys p) out" if p: "p \<in> set ?ps" for p
    proof -
      let ?gx = "grp route l xs p" and ?gy = "grp route l ys p"
      have p32: "p < 32" using p by simp
      note at = entry_at_slot [OF p32]
      have kx: "keyed ?gx" and ky: "keyed ?gy" by (simp_all add: keyed_group xs ys)
      have links: "\<exists>zs. collect_reachable n (load_node h cs) cs = Inr zs \<and> mset zs = mset (grp route l zz p)
            \<and> load_node h cs = canon route hsh (Suc l) (grp route l zz p) \<and> BUCKET_SIZE < length (grp route l zz p)
            \<and> h = hsh (TrieNode (canon route hsh (Suc l) (grp route l zz p)))"
        if "canon_slot route hsh l zz p = Some (Link h)" "roomy route l zz" "present route hsh cs l zz" for zz h
      proof -
        have big: "BUCKET_SIZE < length (grp route l zz p)"
          and h: "h = hsh (TrieNode (canon route hsh (Suc l) (grp route l zz p)))"
          using that(1) by (auto simp: canon_slot_def Let_def split: if_splits)
        note pr = present_group [OF that(3,2) big]
        have "MAX_LEVELS - Suc l < n" using fuel by simp
        from collect_canon [OF this roomy_group [OF that(2)] pr(2)] h load_canon [where cs = cs and hsh = hsh, OF pr(1)] big
        show ?thesis by simp
      qed
      have bucket: "b = grp route l zz p" if "canon_slot route hsh l zz p = Some (Bucket b)" for zz b
        using that by (auto simp: canon_slot_def Let_def split: if_splits)
      have empty: "grp route l zz p = []" if "canon_slot route hsh l zz p = None" for zz
        using that by (auto simp: canon_slot_def Let_def split: if_splits)
      show ?thesis
      proof (cases "?F p")
        case None
        then obtain eb where eb: "?G p = Some eb" using p by auto
        from walk_canon [OF fuel ys(1,2) eb, of Added] obtain zs
          where "walk_entry_collect n Added eb cs = Inr (map (\<lambda>(k, v). Added k v) zs)" "mset zs = mset ?gy" by blast
        then show ?thesis
          using None eb diff_part_only(1) [OF ky] empty [OF None] by (simp add: at)
      next
        case ea: (Some ea)
        show ?thesis
        proof (cases "?G p")
          case None
          from walk_canon [OF fuel xs(1,2) ea, of Removed] obtain zs
            where "walk_entry_collect n Removed ea cs = Inr (map (\<lambda>(k, v). Removed k v) zs)" "mset zs = mset ?gx" by blast
          then show ?thesis
            using None ea diff_part_only(2) [OF kx] empty [OF None] by (cases ea) (simp_all add: at)
        next
          case eb: (Some eb)
          show ?thesis
          proof (cases ea)
            case a: (Bucket ba)
            note ba = bucket [OF ea [unfolded a]]
            show ?thesis
            proof (cases eb)
              case b: (Bucket bb)
              note bb = bucket [OF eb [unfolded b]]
              show ?thesis
                using ea eb a b ba bb diff_buckets_part [OF kx refl ky refl] by (simp add: at)
            next
              case b: (Link hb)
              obtain zs where "collect_reachable n (load_node hb cs) cs = Inr zs" "mset zs = mset ?gy"
                using links [OF eb [unfolded b] ys(1,2)] by blast
              then show ?thesis
                using ea eb a b ba diff_buckets_part [OF kx refl ky] by (simp add: at walk_entry_collect_bindings_def)
            qed
          next
            case a: (Link ha)
            obtain zs where za: "collect_reachable n (load_node ha cs) cs = Inr zs" "mset zs = mset ?gx"
              and la: "load_node ha cs = canon route hsh (Suc l) ?gx" "BUCKET_SIZE < length ?gx"
                "ha = hsh (TrieNode (canon route hsh (Suc l) ?gx))"
              using links [OF ea [unfolded a] xs(1,2)] by blast
            show ?thesis
            proof (cases eb)
              case b: (Bucket bb)
              note bb = bucket [OF eb [unfolded b]]
              show ?thesis
                using ea eb a b bb za diff_buckets_part [OF kx _ ky refl] by (simp add: at walk_entry_collect_bindings_def)
            next
              case b: (Link hb)
              obtain lb: "load_node hb cs = canon route hsh (Suc l) ?gy" "BUCKET_SIZE < length ?gy"
                "hb = hsh (TrieNode (canon route hsh (Suc l) ?gy))"
                using links [OF eb [unfolded b] ys(1,2)] by blast
              note px = present_group(2) [OF xs(2,1) la(2)] and py = present_group(2) [OF ys(2,1) lb(2)]
              note rx = roomy_group [OF xs(1), of p] and ry = roomy_group [OF ys(1), of p]
              show ?thesis
              proof (cases "ha = hb")
                case True
                then have "canon route hsh (Suc l) ?gx = canon route hsh (Suc l) ?gy"
                  using la(3) lb(3) inj by (simp add: inj_eq)
                then have "?gx = ?gy" by (rule canon_inj [OF rx px kx ry py ky])
                then show ?thesis using ea eb a b True by (simp add: at diff_part_def)
              next
                case False
                have "Suc (MAX_LEVELS - Suc l) < n"
                  using Suc.prems(1) roomy_next [OF xs(1) la(2)] by simp
                from Suc.IH [OF this rx px kx ry py ky] show ?thesis
                  using ea eb a b False la lb by (simp add: at)
              qed
            qed
          qed
        qed
      qed
    qed
    from map_r_parts [of ?ps ?part "\<lambda>p out. diff_part (grp route l xs p) (grp route l ys p) out", OF this]
    obtain outs where outs: "map_r ?part ?ps = Inr outs"
      "list_all2 (\<lambda>p out. diff_part (grp route l xs p) (grp route l ys p) out) ?ps outs" by blast
    have "set_bits (nd_map (slot_node ?F) OR nd_map (slot_node ?G)) = ?ps"
      unfolding set_bits_eq by (rule filter_cong) (auto simp: bit_slot bit_or_iff)
    then have "diff_nodes (Suc n) (canon route hsh l xs) (canon route hsh l ys) cs = Inr (concat outs)"
      using outs(1) False unfolding canon_slots [OF xs(1)] canon_slots [OF ys(1)] by simp
    moreover have "pos route l (ckey c) \<in> set ?ps" if "c \<in> changes (map_of xs) (map_of ys)" for c
    proof -
      have "grp route l xs (pos route l (ckey c)) \<noteq> [] \<or> grp route l ys (pos route l (ckey c)) \<noteq> []"
        using changes_key [OF that] map_of_grp [of route l _ "ckey c"] by (metis map_of.simps(1))
      then show ?thesis by (auto simp: canon_slot_def Let_def)
    qed
    then have "diff_part xs ys (concat outs)"
      using diff_parts_concat [OF outs(2)] unfolding diff_part_def by auto
    ultimately show ?thesis by blast
  qed
qed simp

end
