(* ===== verification/Snapshots.thy ===== *)
theory Snapshots
  imports Trie_Ops
begin

section \<open>Snapshots refine maps\<close>

text \<open>
  A root hash in a store stands for a finite map of keys to hashes; the operations of the trie implement
  the operations of the map, and roots and maps determine each other. The routing hash is any function
  to 32 bytes and the content hash any injective function; an instance of both is given for the
  witnesses.
\<close>

definition snapshot ::
  "(string \<Rightarrow> bytes) \<Rightarrow> ('x stored \<Rightarrow> bytes) \<Rightarrow> 'x stored content_store \<Rightarrow> bytes \<Rightarrow> (string \<Rightarrow> bytes option) \<Rightarrow> bool" where
  "snapshot route hsh cs root m \<longleftrightarrow>
     (\<exists>xs. keyed xs \<and> map_of xs = m \<and> roomy route 0 xs \<and> present route hsh cs 0 xs \<and> cs_ok hsh cs
        \<and> root = hsh (TrieNode (canon route hsh 0 xs))
        \<and> cs_get cs root = Some (TrieNode (canon route hsh 0 xs)))"

text \<open>No four keys of a set are routed alike.\<close>

definition spread :: "(string \<Rightarrow> bytes) \<Rightarrow> string set \<Rightarrow> bool" where
  "spread route K \<longleftrightarrow>
     (\<forall>k \<in> K. card {k' \<in> K. \<forall>i < MAX_LEVELS. pos route i k' = pos route i k} \<le> BUCKET_SIZE)"

lemma spread_roomy: "keyed xs \<Longrightarrow> spread route (dom (map_of xs)) \<longleftrightarrow> roomy route 0 xs"
proof -
  assume k: "keyed xs"
  have "length (filter (\<lambda>b. \<forall>i \<in> {0..<MAX_LEVELS}. pos route i (fst b) = pos route i k) xs)
      = card {k' \<in> dom (map_of xs). \<forall>i < MAX_LEVELS. pos route i k' = pos route i k}" for k
  proof -
    let ?f = "filter (\<lambda>b. \<forall>i \<in> {0..<MAX_LEVELS}. pos route i (fst b) = pos route i k) xs"
    have "distinct (map fst ?f)" using \<open>keyed xs\<close> by (simp add: keyed_def distinct_map_filter)
    then have "length ?f = card (set (map fst ?f))" using distinct_card by fastforce
    also have "set (map fst ?f) = {k' \<in> dom (map_of xs). \<forall>i < MAX_LEVELS. pos route i k' = pos route i k}"
      by (auto simp: dom_map_of_conv_image_fst)
    finally show ?thesis .
  qed
  moreover have "(\<forall>(k, _) \<in> set xs. P k) \<longleftrightarrow> (\<forall>k \<in> dom (map_of xs). P k)" for P
    by (force simp: dom_map_of_conv_image_fst)
  ultimately show ?thesis by (simp add: spread_def roomy_def)
qed

lemma max_positive: "0 < MAX_LEVELS"
  by (simp add: MAX_LEVELS_def HASH_BITS_def BIT_WIDTH_def)

lemma snapshot_load:
  "cs_get cs root = Some (TrieNode n) \<Longrightarrow> load_node root cs = n"
  by (simp add: load_node_def)

lemma snapshot_stored:
  assumes "inj hsh" "leads_to route hsh 0 cs (Inr n, cs1) ys" "keyed ys" "roomy route 0 ys"
  shows "snapshot route hsh (snd (store_node hsh n cs1)) (hsh (TrieNode n)) (map_of ys)"
  using stored_leads [OF assms(1,2)] assms(3,4) unfolding snapshot_def by (metis)

lemma snapshot_grows: "snapshot route hsh cs root m \<Longrightarrow> cs.grows cs cs' \<Longrightarrow> cs_ok hsh cs' \<Longrightarrow> snapshot route hsh cs' root m"
  unfolding snapshot_def using present_grows cs.grows_def by metis

lemma put_snapshot:
  assumes "\<And>k. length (route k) = 32" "inj hsh" "snapshot route hsh cs root m" "spread route (insert k (dom m))"
  obtains root' cs' where "trie_put route hsh root k v cs = (Inr root', cs')"
    "snapshot route hsh cs' root' (m(k \<mapsto> v))" "cs.grows cs cs'" "cs_ok hsh cs'"
proof -
  from assms(3) obtain xs where xs: "keyed xs" "map_of xs = m" "roomy route 0 xs" "present route hsh cs 0 xs" "cs_ok hsh cs"
    "cs_get cs root = Some (TrieNode (canon route hsh 0 xs))" by (auto simp: snapshot_def)
  have "insert k (dom m) = dom (map_of (ins k v xs))" using xs by (simp add: map_of_ins)
  then have room: "roomy route 0 (ins k v xs)"
    using assms(4) spread_roomy [OF keyed_ins [OF xs(1)]] by simp
  obtain r cs1 where r: "put_at route hsh (canon route hsh 0 xs) (route k) 0 k v cs = (r, cs1)"
    by (cases "put_at route hsh (canon route hsh 0 xs) (route k) 0 k v cs")
  have lt: "leads_to route hsh 0 cs (r, cs1) (ins k v xs)"
    using put_canon [where route = route and hsh = hsh, OF assms(1,2) max_positive xs(1) room xs(4,5)] by (simp add: r)
  then obtain n where n: "r = Inr n" by (auto simp: leads_to_def)
  have res: "trie_put route hsh root k v cs = (Inr (hsh (TrieNode n)), snd (store_node hsh n cs1))"
    by (simp add: trie_put_def snapshot_load [OF xs(6)] r n map_prod_def split_beta)
  show ?thesis
    using that [OF res] snapshot_stored [OF assms(2) lt [unfolded n] keyed_ins [OF xs(1)] room]
      stored_leads(5,6) [OF assms(2) lt [unfolded n]] xs by (simp add: map_of_ins)
qed

lemma remove_snapshot:
  assumes "\<And>k. length (route k) = 32" "inj hsh" "snapshot route hsh cs root m" "MAX_LEVELS < limit"
  obtains root' cs' where "trie_remove route hsh limit root k cs = (Inr root', cs')"
    "snapshot route hsh cs' root' (m(k := None))" "cs.grows cs cs'" "cs_ok hsh cs'"
proof -
  from assms(3) obtain xs where xs: "keyed xs" "map_of xs = m" "roomy route 0 xs" "present route hsh cs 0 xs" "cs_ok hsh cs"
    "cs_get cs root = Some (TrieNode (canon route hsh 0 xs))" by (auto simp: snapshot_def)
  have "MAX_LEVELS - 0 < limit" using assms(4) by simp
  from remove_canon [where route = route and hsh = hsh, OF assms(1,2) max_positive xs(1,3,4,5) this]
  obtain n cs1 where r: "remove_at hsh limit (canon route hsh 0 xs) (route k) 0 k cs = (Inr (n, map_of xs k \<noteq> None), cs1)"
    and lt: "leads_to route hsh 0 cs (Inr n, cs1) (del k xs)" by blast
  have res: "trie_remove route hsh limit root k cs = (Inr (hsh (TrieNode n)), snd (store_node hsh n cs1))"
    by (simp add: trie_remove_def snapshot_load [OF xs(6)] r map_prod_def split_beta)
  show ?thesis
    using that [OF res] snapshot_stored [OF assms(2) lt keyed_del [OF xs(1)] roomy_del [OF xs(1,3)]]
      stored_leads(5,6) [OF assms(2) lt] xs by (simp add: map_of_del)
qed

lemma collect_snapshot:
  assumes "snapshot route hsh cs root m" "MAX_LEVELS < limit"
  obtains kvs where "collect_reachable limit (load_node root cs) cs = Inr kvs" "map_of kvs = m" "distinct (map fst kvs)"
proof -
  from assms(1) obtain xs where xs: "keyed xs" "map_of xs = m" "roomy route 0 xs" "present route hsh cs 0 xs"
    "cs_get cs root = Some (TrieNode (canon route hsh 0 xs))" by (auto simp: snapshot_def)
  have "MAX_LEVELS - 0 < limit" using assms(2) by simp
  from collect_canon [OF this xs(3,4)] obtain kvs where "collect_reachable limit (canon route hsh 0 xs) cs = Inr kvs"
    "mset kvs = mset xs" by blast
  with map_of_mset [OF xs(1)] xs show ?thesis by (intro that [of kvs]) (simp_all add: snapshot_load [OF xs(5)])
qed

lemma snapshot_root:
  assumes "snapshot route hsh cs root m" "snapshot route hsh cs' root' m"
  shows "root = root'"
proof -
  from assms obtain xs ys where "keyed xs" "map_of xs = m" "root = hsh (TrieNode (canon route hsh 0 xs))"
    "keyed ys" "map_of ys = m" "root' = hsh (TrieNode (canon route hsh 0 ys))"
    unfolding snapshot_def by blast
  with map_of_keyed_inj [of xs ys] show ?thesis by simp
qed

lemma snapshot_map:
  assumes "snapshot route hsh cs root m" "snapshot route hsh cs root m'"
  shows "m = m'"
proof -
  obtain kvs where "collect_reachable (Suc MAX_LEVELS) (load_node root cs) cs = Inr kvs" "map_of kvs = m"
    by (rule collect_snapshot [OF assms(1), of "Suc MAX_LEVELS"]) simp_all
  moreover obtain kvs' where "collect_reachable (Suc MAX_LEVELS) (load_node root cs) cs = Inr kvs'" "map_of kvs' = m'"
    by (rule collect_snapshot [OF assms(2), of "Suc MAX_LEVELS"]) simp_all
  ultimately show ?thesis by simp
qed

lemma spread_subset: "spread route K \<Longrightarrow> K' \<subseteq> K \<Longrightarrow> finite K \<Longrightarrow> spread route K'"
  unfolding spread_def
proof
  fix k assume s: "\<forall>k \<in> K. card {k' \<in> K. \<forall>i < MAX_LEVELS. pos route i k' = pos route i k} \<le> BUCKET_SIZE"
    and sub: "K' \<subseteq> K" and fin: "finite K" and k: "k \<in> K'"
  have "card {k' \<in> K'. \<forall>i < MAX_LEVELS. pos route i k' = pos route i k}
      \<le> card {k' \<in> K. \<forall>i < MAX_LEVELS. pos route i k' = pos route i k}"
    using sub fin by (intro card_mono) auto
  also have "\<dots> \<le> BUCKET_SIZE" using s sub k by blast
  finally show "card {k' \<in> K'. \<forall>i < MAX_LEVELS. pos route i k' = pos route i k} \<le> BUCKET_SIZE" .
qed

lemma empty_snapshot:
  assumes "inj hsh" "cs_ok hsh cs"
  shows "snapshot route hsh (snd (empty_trie hsh cs)) (fst (empty_trie hsh cs)) Map.empty"
proof -
  have c: "canon route hsh 0 [] = empty_node"
    unfolding empty_node_slots by (subst canon.simps) (simp add: grp_def)
  have "present route hsh cs' 0 []" for cs' by (rule presentI) (simp add: grp_def)
  moreover have "roomy route 0 []" by (simp add: roomy_def)
  ultimately show ?thesis
    using store_node_found [OF assms, of empty_node] store_node_grows [OF assms(2), of empty_node]
    unfolding snapshot_def empty_trie_def by (intro exI [of _ "[]"]) (simp add: c)
qed


lemma snapshot_finite: "snapshot route hsh cs root m \<Longrightarrow> finite (dom m)"
  by (auto simp: snapshot_def finite_dom_map_of)

lemma put_all_snapshot:
  assumes "\<And>k. length (route k) = 32" "inj hsh"
  shows "snapshot route hsh cs root m \<Longrightarrow> cs_ok hsh cs \<Longrightarrow> spread route (dom m \<union> fst ` set kvs)
    \<Longrightarrow> \<exists>root' cs'. put_all route hsh root kvs cs = (Inr root', cs')
          \<and> snapshot route hsh cs' root' (m ++ map_of (rev kvs)) \<and> cs.grows cs cs' \<and> cs_ok hsh cs'"
proof (induction kvs arbitrary: cs root m)
  case Nil
  then show ?case by (simp add: cs.grows_refl)
next
  case (Cons b kvs)
  obtain k v where b: "b = (k, v)" by (cases b)
  have fin: "finite (dom m \<union> fst ` set (b # kvs))" using snapshot_finite [OF Cons.prems(1)] by simp
  have "spread route (insert k (dom m))"
    by (rule spread_subset [OF Cons.prems(3) _ fin]) (auto simp: b)
  from put_snapshot [where route = route and hsh = hsh, OF assms Cons.prems(1) this, of v]
  obtain root' cs' where put: "trie_put route hsh root k v cs = (Inr root', cs')"
    "snapshot route hsh cs' root' (m(k \<mapsto> v))" "cs.grows cs cs'" "cs_ok hsh cs'" .
  have "dom (m(k \<mapsto> v)) \<union> fst ` set kvs = dom m \<union> fst ` set (b # kvs)" by (auto simp: b)
  with Cons.prems(3) have sp: "spread route (dom (m(k \<mapsto> v)) \<union> fst ` set kvs)" by simp
  from Cons.IH [OF put(2,4) sp] obtain root'' cs'' where
    all: "put_all route hsh root' kvs cs' = (Inr root'', cs'')"
      "snapshot route hsh cs'' root'' (m(k \<mapsto> v) ++ map_of (rev kvs))" "cs.grows cs' cs''" "cs_ok hsh cs''" by blast
  have "m ++ map_of (rev (b # kvs)) = m(k \<mapsto> v) ++ map_of (rev kvs)" by (simp add: b map_add_assoc)
  then show ?case
    using put all cs.grows_trans [OF put(3) all(3)] by (simp add: b)
qed

lemma build_snapshot:
  assumes "\<And>k. length (route k) = 32" "inj hsh" "cs_ok hsh cs" "spread route (fst ` set kvs)"
  shows "\<exists>root cs'. build_trie route hsh kvs cs = (Inr root, cs')
    \<and> snapshot route hsh cs' root (map_of (rev kvs)) \<and> cs.grows cs cs' \<and> cs_ok hsh cs'"
proof -
  obtain root cs1 where e: "empty_trie hsh cs = (root, cs1)" by (cases "empty_trie hsh cs")
  have "snd (empty_trie hsh cs) = cs1" "fst (empty_trie hsh cs) = root" by (simp_all add: e)
  then have s: "snapshot route hsh cs1 root Map.empty" "cs.grows cs cs1" "cs_ok hsh cs1"
    using empty_snapshot [OF assms(2,3), of route] store_node_grows [OF assms(3), of empty_node]
    by (auto simp: empty_trie_def)
  have "spread route (dom (Map.empty :: string \<Rightarrow> bytes option) \<union> fst ` set kvs)" using assms(4) by simp
  from put_all_snapshot [where route = route and hsh = hsh, OF assms(1,2) s(1,3) this]
  obtain root' cs' where "put_all route hsh root kvs cs1 = (Inr root', cs')"
    "snapshot route hsh cs' root' (map_of (rev kvs))" "cs.grows cs1 cs'" "cs_ok hsh cs'" by auto
  then show ?thesis using cs.grows_trans [OF s(2)] by (auto simp: build_trie_def e)
qed

subsection \<open>Keys that are routed alike\<close>

lemma group_tuples_alike:
  assumes "l < MAX_LEVELS" "length rt = 32" "\<forall>(k, v) \<in> set ts. route k = rt"
  shows "\<exists>p. \<forall>acc. group_tuples route l ts [(p, acc)] = Inr [(p, acc @ ts)] \<and> position_at_level rt l = Inr p"
proof -
  obtain p where p: "position_at_level rt l = Inr p" using position_total [OF assms(1,2)] by blast
  have "group_tuples route l ts [(p, acc)] = Inr [(p, acc @ ts)]" for acc
    using assms(3)
  proof (induction ts arbitrary: acc)
    case (Cons b ts)
    obtain k v where "b = (k, v)" by (cases b)
    with Cons p show ?case by simp
  qed simp
  with p show ?thesis by blast
qed

lemma build_alike_raises:
  assumes "length rt = 32"
  shows "\<forall>(k, v) \<in> set ts. route k = rt \<Longrightarrow> BUCKET_SIZE < length ts
    \<Longrightarrow> fst (build_sub_node route hsh ts l cs) = Inl ValueError"
proof (induction "MAX_LEVELS - l" arbitrary: l cs rule: less_induct)
  case less
  obtain k v ts' where ts: "ts = (k, v) # ts'" using less.prems(2) by (cases ts) auto
  show ?case
  proof (cases "l < MAX_LEVELS")
    case False
    then have "position_at_level (route k) l = Inl ValueError" by (simp add: position_at_level_def)
    then show ?thesis by (simp add: build_sub_node.simps(1) ts)
  next
    case True
    have "\<forall>(k, v) \<in> set ts'. route k = rt" using less.prems(1) ts by simp
    from group_tuples_alike [OF True assms this] obtain p where
      p: "\<And>acc. group_tuples route l ts' [(p, acc)] = Inr [(p, acc @ ts')]" "position_at_level rt l = Inr p" by blast
    have "group_tuples route l ts [] = Inr [(p, ts)]"
      using p less.prems(1) by (simp add: ts)
    moreover obtain r cs' where sub: "build_sub_node route hsh ts (Suc l) cs = (r, cs')"
      by (cases "build_sub_node route hsh ts (Suc l) cs")
    moreover have "r = Inl ValueError" using less.hyps [of "Suc l" cs] True less.prems sub by simp
    ultimately show ?thesis
      using less.prems(2) True by (simp add: build_sub_node.simps(1) Let_def)
  qed
qed

lemma put_alike_raises:
  assumes routed: "\<And>k. length (route k) = 32" and s: "snapshot route hsh cs root m"
    and alike: "\<forall>k' \<in> dom m. route k' = route k" and full: "card (dom m) = BUCKET_SIZE" and new: "m k = None"
  shows "fst (trie_put route hsh root k v cs) = Inl ValueError"
proof -
  from s obtain xs where xs: "keyed xs" "map_of xs = m" "roomy route 0 xs"
    "cs_get cs root = Some (TrieNode (canon route hsh 0 xs))" by (auto simp: snapshot_def)
  let ?p = "pos route 0 k" and ?F = "canon_slot route hsh 0 xs"
  have d: "dom m = set (map fst xs)" by (simp add: dom_map_of_conv_image_fst flip: xs(2))
  have len: "length xs = BUCKET_SIZE"
    using full distinct_card [of "map fst xs"] xs(1) by (simp add: d keyed_def)
  have all: "grp route 0 xs ?p = xs"
    using alike d by (auto simp: grp_def pos_def filter_id_conv)
  have p: "position_at_level (route k) 0 = Inr ?p" using routed by (simp add: position_pos max_positive)
  have F: "?F ?p = Some (Bucket xs)" using len by (auto simp: canon_slot_def all Let_def BUCKET_SIZE_def)
  have none: "map_of xs k = None" using new xs(2) by simp
  obtain r cs1 where b: "build_sub_node route hsh (xs @ [(k, v)]) (Suc 0) cs = (r, cs1)"
    by (cases "build_sub_node route hsh (xs @ [(k, v)]) (Suc 0) cs")
  have "\<forall>(k', v) \<in> set (xs @ [(k, v)]). route k' = route k" using alike d by auto
  from build_alike_raises [OF routed [of k] this, of hsh "Suc 0" cs] have r: "r = Inl ValueError" using len b by simp
  have "put_at route hsh (slot_node ?F) (route k) 0 k v cs = (Inl ValueError, cs1)"
    unfolding put_at.simps [of route hsh "slot_node ?F" "route k" 0 k v cs] p sum.case Let_def slot_free [OF pos_less]
      slot_item [where f = ?F, OF pos_less F] trie_entry.case
    using F none len b r by simp
  then show ?thesis
    by (simp add: trie_put_def snapshot_load [OF xs(4)] canon_slots [OF xs(3)])
qed

lemma build_trie_snoc:
  assumes "build_trie route hsh kvs cs = (Inr root, cs')"
  shows "build_trie route hsh (kvs @ [(k, v)]) cs = trie_put route hsh root k v cs'"
proof -
  have "put_all route hsh r kvs cs0 = (Inr root, cs') \<Longrightarrow>
      put_all route hsh r (kvs @ [(k, v)]) cs0 = trie_put route hsh root k v cs'" for r cs0
  proof (induction kvs arbitrary: r cs0)
    case Nil
    obtain x y where "trie_put route hsh root k v cs' = (x, y)" by fastforce
    with Nil show ?case by (cases x) auto
  next
    case (Cons b kvs)
    obtain k' v' where b: "b = (k', v')" by (cases b)
    obtain x y where t: "trie_put route hsh r k' v' cs0 = (x, y)" by fastforce
    with Cons b show ?case by (cases x) auto
  qed
  then show ?thesis using assms by (auto simp: build_trie_def split: prod.splits)
qed

lemma part_keys:
  assumes "\<And>c. map fst (f c) = [] \<or> map fst (f c) = [ckey c]"
  shows "set (map fst (concat (map f out))) \<subseteq> set (map ckey out)
    \<and> (distinct (map ckey out) \<longrightarrow> distinct (map fst (concat (map f out))))"
proof (induction out)
  case (Cons c out)
  let ?rest = "concat (map f out)"
  from assms [of c] have "map fst (concat (map f (c # out))) = map fst ?rest
      \<or> map fst (concat (map f (c # out))) = ckey c # map fst ?rest" by auto
  then show ?case
    using Cons by (elim disjE) (simp_all only: list.map set_simps distinct.simps, auto)
qed simp

lemma distinct_sort_keys: "distinct (map fst xs) \<Longrightarrow> distinct (map fst (sort_key fst xs))"
proof -
  have "mset (map fst (sort_key fst xs)) = mset (map fst xs)" by simp
  then show "distinct (map fst xs) \<Longrightarrow> distinct (map fst (sort_key fst xs))"
    using mset_eq_imp_distinct_iff by blast
qed

lemma sorted_changes:
  assumes out: "set out = changes m m'" and keys: "distinct (map ckey out)"
  defines "added \<equiv> sort_key fst (concat (map (\<lambda>c. case c of Added k v \<Rightarrow> [(k, v)] | _ \<Rightarrow> []) out))"
    and "removed \<equiv> sort_key fst (concat (map (\<lambda>c. case c of Removed k v \<Rightarrow> [(k, v)] | _ \<Rightarrow> []) out))"
    and "changed \<equiv> sort_key fst (concat (map (\<lambda>c. case c of Changed k v w \<Rightarrow> [(k, v, w)] | _ \<Rightarrow> []) out))"
  shows "set added = {(k, w). m k = None \<and> m' k = Some w}
    \<and> set removed = {(k, v). m k = Some v \<and> m' k = None}
    \<and> set changed = {(k, v, w). m k = Some v \<and> m' k = Some w \<and> v \<noteq> w}
    \<and> sorted (map fst added) \<and> distinct (map fst added)
    \<and> sorted (map fst removed) \<and> distinct (map fst removed)
    \<and> sorted (map fst changed) \<and> distinct (map fst changed)"
proof -
  let ?added = "concat (map (\<lambda>c. case c of Added k v \<Rightarrow> [(k, v)] | _ \<Rightarrow> []) out)"
  let ?removed = "concat (map (\<lambda>c. case c of Removed k v \<Rightarrow> [(k, v)] | _ \<Rightarrow> []) out)"
  let ?changed = "concat (map (\<lambda>c. case c of Changed k v w \<Rightarrow> [(k, v, w)] | _ \<Rightarrow> []) out)"
  have sub: "distinct (map fst ?added)" "distinct (map fst ?removed)" "distinct (map fst ?changed)"
    by ((rule part_keys [THEN conjunct2, THEN mp, OF _ keys], simp split: change.split)+)
  have "(k, w) \<in> set ?added \<longleftrightarrow> Added k w \<in> set out" "(k, w) \<in> set ?removed \<longleftrightarrow> Removed k w \<in> set out"
    "(k, v, w) \<in> set ?changed \<longleftrightarrow> Changed k v w \<in> set out" for k v w
    by (induction out) (auto split: change.splits)
  then have mem: "(k, w) \<in> set ?added \<longleftrightarrow> m k = None \<and> m' k = Some w"
    "(k, w) \<in> set ?removed \<longleftrightarrow> m k = Some w \<and> m' k = None"
    "(k, v, w) \<in> set ?changed \<longleftrightarrow> m k = Some v \<and> m' k = Some w \<and> v \<noteq> w" for k v w
    by (simp_all only: out) (simp_all add: changes_def)
  have "set added = {(k, w). m k = None \<and> m' k = Some w}"
    unfolding added_def set_sort by (intro set_eqI) (simp only: mem split_paired_all mem_Collect_eq prod.case)
  moreover have "set removed = {(k, v). m k = Some v \<and> m' k = None}"
    unfolding removed_def set_sort by (intro set_eqI) (simp only: mem split_paired_all mem_Collect_eq prod.case)
  moreover have "set changed = {(k, v, w). m k = Some v \<and> m' k = Some w \<and> v \<noteq> w}"
    unfolding changed_def set_sort by (intro set_eqI) (simp only: mem split_paired_all mem_Collect_eq prod.case)
  ultimately show ?thesis using distinct_sort_keys [OF sub(1)] distinct_sort_keys [OF sub(2)] distinct_sort_keys [OF sub(3)]
    by (simp add: added_def removed_def changed_def)
qed

subsection \<open>An instance\<close>

text \<open>Every entity as bytes, each part told apart from what follows it.\<close>

definition prefix_free :: "('a \<Rightarrow> bytes) \<Rightarrow> bool" where
  "prefix_free f \<longleftrightarrow> (\<forall>x y r r'. f x @ r = f y @ r' \<longrightarrow> x = y \<and> r = r')"

definition put_nat :: "nat \<Rightarrow> bytes" where "put_nat n = replicate n 1 @ [0]"

definition put_list :: "('a \<Rightarrow> bytes) \<Rightarrow> 'a list \<Rightarrow> bytes" where
  "put_list f xs = put_nat (length xs) @ concat (map f xs)"

definition put_bytes :: "bytes \<Rightarrow> bytes" where "put_bytes = put_list (\<lambda>b. [b])"

definition put_tuple :: "string \<times> bytes \<Rightarrow> bytes" where
  "put_tuple b = put_list (\<lambda>c. put_nat (of_char c)) (fst b) @ put_bytes (snd b)"

definition put_entry :: "trie_entry \<Rightarrow> bytes" where
  "put_entry e = (case e of Bucket b \<Rightarrow> 0 # put_list put_tuple b | Link h \<Rightarrow> 1 # put_bytes h)"

definition toy_hash :: "unit stored \<Rightarrow> bytes" where
  "toy_hash s = (case s of
      TrieNode n \<Rightarrow> put_nat (unat (nd_map n)) @ put_list put_entry (nd_data n)
    | OtherEntity x \<Rightarrow> [2])"

definition toy_route :: "string \<Rightarrow> bytes" where
  "toy_route k = take 32 (map (\<lambda>c. of_nat (of_char c)) k @ replicate 32 0)"

lemma prefix_freeD: "prefix_free f \<Longrightarrow> f x @ r = f y @ r' \<Longrightarrow> x = y \<and> r = r'"
  unfolding prefix_free_def by blast

lemma prefix_free_nat: "prefix_free put_nat"
proof -
  have "put_nat n @ r = put_nat m @ r' \<Longrightarrow> n = m \<and> r = r'" for n m r r'
  proof (induction n arbitrary: m)
    case 0
    then show ?case by (cases m) (auto simp: put_nat_def)
  next
    case (Suc n)
    then show ?case by (cases m) (auto simp: put_nat_def)
  qed
  then show ?thesis unfolding prefix_free_def by blast
qed

lemma prefix_free_list: "prefix_free f \<Longrightarrow> prefix_free (put_list f)"
proof -
  assume f: "prefix_free f"
  have same: "length xs = length ys \<Longrightarrow> concat (map f xs) @ r = concat (map f ys) @ r' \<Longrightarrow> xs = ys \<and> r = r'"
    for xs ys :: "'a list" and r r'
  proof (induction xs ys rule: list_induct2)
    case (Cons x xs y ys)
    then have "f x @ concat (map f xs) @ r = f y @ concat (map f ys) @ r'" by simp
    from prefix_freeD [OF f this] Cons.IH show ?case by simp
  qed simp
  show ?thesis
    unfolding prefix_free_def
  proof (intro allI impI)
    fix xs ys :: "'a list" and r r' assume "put_list f xs @ r = put_list f ys @ r'"
    then have "put_nat (length xs) @ concat (map f xs) @ r = put_nat (length ys) @ concat (map f ys) @ r'"
      by (simp add: put_list_def)
    from prefix_freeD [OF prefix_free_nat this] same show "xs = ys \<and> r = r'" by blast
  qed
qed

lemma prefix_free_bytes: "prefix_free put_bytes"
  unfolding put_bytes_def by (rule prefix_free_list) (simp add: prefix_free_def)

lemma prefix_free_char: "prefix_free (\<lambda>c. put_nat (of_char c))"
  unfolding prefix_free_def
proof (intro allI impI)
  fix c d :: char and r r' assume "put_nat (of_char c) @ r = put_nat (of_char d) @ r'"
  from prefix_freeD [OF prefix_free_nat this] show "c = d \<and> r = r'" by simp
qed

lemma prefix_free_tuple: "prefix_free put_tuple"
  unfolding prefix_free_def
proof (intro allI impI)
  fix a b r r' assume "put_tuple a @ r = put_tuple b @ r'"
  then have "put_list (\<lambda>c. put_nat (of_char c)) (fst a) @ put_bytes (snd a) @ r
      = put_list (\<lambda>c. put_nat (of_char c)) (fst b) @ put_bytes (snd b) @ r'"
    by (simp add: put_tuple_def)
  from prefix_freeD [OF prefix_free_list [OF prefix_free_char] this]
  have "fst a = fst b" and bytes: "put_bytes (snd a) @ r = put_bytes (snd b) @ r'" by blast+
  with prefix_freeD [OF prefix_free_bytes bytes] show "a = b \<and> r = r'" by (simp add: prod_eq_iff)
qed

lemma prefix_free_entry: "prefix_free put_entry"
  unfolding prefix_free_def
proof (intro allI impI)
  fix a b r r' assume "put_entry a @ r = put_entry b @ r'"
  then show "a = b \<and> r = r'"
  proof (cases a)
    case a: (Bucket xs)
    assume eq: "put_entry a @ r = put_entry b @ r'"
    then obtain ys where b: "b = Bucket ys" using a by (cases b) (auto simp: put_entry_def)
    with eq a have "put_list put_tuple xs @ r = put_list put_tuple ys @ r'" by (simp add: put_entry_def)
    from prefix_freeD [OF prefix_free_list [OF prefix_free_tuple] this] show ?thesis by (simp add: a b)
  next
    case a: (Link h)
    assume eq: "put_entry a @ r = put_entry b @ r'"
    then obtain h' where b: "b = Link h'" using a by (cases b) (auto simp: put_entry_def)
    with eq a have "put_bytes h @ r = put_bytes h' @ r'" by (simp add: put_entry_def)
    from prefix_freeD [OF prefix_free_bytes this] show ?thesis by (simp add: a b)
  qed
qed

lemma inj_toy_hash: "inj toy_hash"
proof (rule injI)
  fix s t :: "unit stored" assume eq: "toy_hash s = toy_hash t"
  have two: "put_nat n @ r \<noteq> [2]" for n r by (cases n) (auto simp: put_nat_def)
  show "s = t"
  proof (cases s)
    case s: (TrieNode n)
    show ?thesis
    proof (cases t)
      case (TrieNode m)
      with eq s have "put_nat (unat (nd_map n)) @ put_list put_entry (nd_data n)
          = put_nat (unat (nd_map m)) @ put_list put_entry (nd_data m)" by (simp add: toy_hash_def)
      from prefix_freeD [OF prefix_free_nat this]
      have "nd_map n = nd_map m" "put_list put_entry (nd_data n) @ [] = put_list put_entry (nd_data m) @ []"
        by (simp_all add: word_unat_eq_iff)
      with prefix_freeD [OF prefix_free_list [OF prefix_free_entry]] have "n = m"
        by (metis trie_node.expand)
      then show ?thesis by (simp add: s TrieNode)
    next
      case (OtherEntity x)
      then show ?thesis using eq two s by (auto simp: toy_hash_def)
    qed
  next
    case s: (OtherEntity x)
    show ?thesis
    proof (cases t)
      case (TrieNode m)
      then have "put_nat (unat (nd_map m)) @ put_list put_entry (nd_data m) = [2]"
        using eq s by (simp add: toy_hash_def)
      with two show ?thesis by blast
    qed (simp add: s)
  qed
qed

lemma length_toy_route: "length (toy_route k) = 32"
  by (simp add: toy_route_def)


subsection \<open>Properties\<close>

text \<open>
  C7. Snapshot tries refine finite maps: from a root that stands for a map, insertion returns a root that
  stands for the updated map, provided no four keys are routed alike, removal one for the map without the
  key, and collection returns each binding once; every root that stood for a map before still does, so
  older snapshots stay readable. 52 nested calls are always enough.
\<close>

theorem trie_refines_map:
  assumes "\<And>k. length (route k) = 32" "inj hsh" "snapshot route hsh cs root m" "52 \<le> limit"
  shows "(spread route (insert k (dom m)) \<longrightarrow>
       (\<exists>root' cs'. trie_put route hsh root k v cs = (Inr root', cs') \<and> snapshot route hsh cs' root' (m(k \<mapsto> v))
          \<and> (\<forall>old m'. snapshot route hsh cs old m' \<longrightarrow> snapshot route hsh cs' old m')))
    \<and> (\<exists>root' cs'. trie_remove route hsh limit root k cs = (Inr root', cs') \<and> snapshot route hsh cs' root' (m(k := None))
          \<and> (\<forall>old m'. snapshot route hsh cs old m' \<longrightarrow> snapshot route hsh cs' old m'))
    \<and> (\<exists>kvs. collect_all_bindings limit root [] cs = Inr kvs \<and> map_of kvs = m \<and> distinct (map fst kvs))"
proof -
  have lim: "MAX_LEVELS < limit" using assms(4) by (simp add: MAX_LEVELS_def HASH_BITS_def BIT_WIDTH_def)
  have "\<exists>root' cs'. trie_put route hsh root k v cs = (Inr root', cs') \<and> snapshot route hsh cs' root' (m(k \<mapsto> v))
          \<and> (\<forall>old m'. snapshot route hsh cs old m' \<longrightarrow> snapshot route hsh cs' old m')"
    if "spread route (insert k (dom m))"
    by (rule put_snapshot [where route = route and hsh = hsh, OF assms(1-3) that, of v])
      (use snapshot_grows in blast)
  moreover have "\<exists>root' cs'. trie_remove route hsh limit root k cs = (Inr root', cs') \<and> snapshot route hsh cs' root' (m(k := None))
          \<and> (\<forall>old m'. snapshot route hsh cs old m' \<longrightarrow> snapshot route hsh cs' old m')"
    by (rule remove_snapshot [where route = route and hsh = hsh, OF assms(1-3) lim, of k])
      (use snapshot_grows in blast)
  moreover have "\<exists>kvs. collect_all_bindings limit root [] cs = Inr kvs \<and> map_of kvs = m \<and> distinct (map fst kvs)"
  proof -
    obtain kvs where kvs: "collect_reachable limit (load_node root cs) cs = Inr kvs" "map_of kvs = m" "distinct (map fst kvs)"
      by (rule collect_snapshot [OF assms(3) lim])
    have "map (\<lambda>(k, v). (join_path [] k, v)) kvs = kvs" by (simp add: join_path_def)
    with kvs show ?thesis by (simp add: collect_all_bindings_def)
  qed
  ultimately show ?thesis by blast
qed

theorem trie_refines_map_witness:
  "\<exists>root' cs'. trie_put toy_route toy_hash (fst (empty_trie toy_hash [])) ''a'' [7] (snd (empty_trie toy_hash [])) = (Inr root', cs')
     \<and> snapshot toy_route toy_hash cs' root' [''a'' \<mapsto> [7]]"
proof -
  have ok: "cs_ok toy_hash []" by (simp add: cs_ok_def)
  have "card {k' \<in> {''a''}. P k'} \<le> 3" for P
    by (rule order_trans [OF card_mono [of "{''a''}"]]) auto
  then have "spread toy_route (insert ''a'' (dom (Map.empty :: string \<Rightarrow> bytes option)))"
    unfolding spread_def BUCKET_SIZE_def by simp
  with trie_refines_map [where route = toy_route and hsh = toy_hash and limit = 52,
      OF length_toy_route inj_toy_hash empty_snapshot [OF inj_toy_hash ok], of "''a''" "[7]"]
  show ?thesis by auto
qed

text \<open>
  C8. The root hash is independent of history: building a trie from two lists of bindings that come to the
  same map, in any order and with any overwritten values, gives the same root, whatever the stores held
  before; and in one store the same root means the same map.
\<close>

theorem trie_history_independent:
  assumes "\<And>k. length (route k) = 32" "inj hsh" "cs_ok hsh cs" "cs_ok hsh ds"
    and "map_of (rev kvs) = map_of (rev kvs')" "spread route (fst ` set kvs)"
  shows "\<exists>root cs' ds'. build_trie route hsh kvs cs = (Inr root, cs') \<and> build_trie route hsh kvs' ds = (Inr root, ds')
    \<and> snapshot route hsh cs' root (map_of (rev kvs))
    \<and> (\<forall>m. snapshot route hsh cs' root m \<longrightarrow> m = map_of (rev kvs))"
proof -
  have "fst ` set kvs = fst ` set kvs'" using assms(5) by (metis dom_map_of_conv_image_fst set_rev)
  with assms(6) have sp: "spread route (fst ` set kvs')" by simp
  obtain r cs' where r: "build_trie route hsh kvs cs = (Inr r, cs')" "snapshot route hsh cs' r (map_of (rev kvs))"
    using build_snapshot [where route = route and hsh = hsh, OF assms(1,2,3,6)] by blast
  obtain r' ds' where r': "build_trie route hsh kvs' ds = (Inr r', ds')" "snapshot route hsh ds' r' (map_of (rev kvs'))"
    using build_snapshot [where route = route and hsh = hsh, OF assms(1,2,4) sp] by blast
  have "r = r'" by (rule snapshot_root [OF r(2)]) (use r'(2) assms(5) in simp)
  moreover have "m = map_of (rev kvs)" if "snapshot route hsh cs' r m" for m
    by (rule snapshot_map [OF that r(2)])
  ultimately show ?thesis using r r' by blast
qed

theorem trie_history_independent_witness:
  "\<exists>root cs' ds'. build_trie toy_route toy_hash [(''a'', [1]), (''b'', [2])] [] = (Inr root, cs')
     \<and> build_trie toy_route toy_hash [(''b'', [2]), (''a'', [9]), (''a'', [1])] [] = (Inr root, ds')"
proof -
  have ok: "cs_ok toy_hash []" by (simp add: cs_ok_def)
  have m: "map_of (rev [(''a'', [1]), (''b'', [2 :: byte])]) = map_of (rev [(''b'', [2]), (''a'', [9]), (''a'', [1])])"
    by (rule ext) simp
  have "card {k' \<in> {''a'', ''b''}. P k'} \<le> 3" for P
    by (rule order_trans [OF card_mono [of "{''a'', ''b''}"]]) (auto simp: card_insert_if)
  then have "spread toy_route (fst ` set [(''a'', [1 :: byte]), (''b'', [2])])"
    unfolding spread_def BUCKET_SIZE_def by simp
  from trie_history_independent [where route = toy_route and hsh = toy_hash, OF length_toy_route inj_toy_hash ok ok m this]
  show ?thesis by blast
qed

text \<open>
  C9. The difference of two snapshots is the difference of their maps: \<open>trie_diff\<close> returns exactly the added
  bindings, the removed ones and the changed ones, each list once per key and sorted by key, although
  it walks only the branches whose hashes differ.
\<close>

theorem trie_diff_exact:
  assumes "inj hsh" "snapshot route hsh cs base m" "snapshot route hsh cs target m'" "53 \<le> limit"
  shows "\<exists>added removed changed. trie_diff limit base target cs = Inr (added, removed, changed)
    \<and> set added = {(k, w). m k = None \<and> m' k = Some w}
    \<and> set removed = {(k, v). m k = Some v \<and> m' k = None}
    \<and> set changed = {(k, v, w). m k = Some v \<and> m' k = Some w \<and> v \<noteq> w}
    \<and> sorted (map fst added) \<and> distinct (map fst added)
    \<and> sorted (map fst removed) \<and> distinct (map fst removed)
    \<and> sorted (map fst changed) \<and> distinct (map fst changed)"
proof (cases "base = target")
  case True
  with assms(2,3) have "m = m'" using snapshot_map by blast
  then show ?thesis by (auto simp: trie_diff_def True)
next
  case False
  from assms(2) obtain xs where
    xs: "keyed xs" "map_of xs = m" "roomy route 0 xs" "present route hsh cs 0 xs" "cs_get cs base = Some (TrieNode (canon route hsh 0 xs))"
    unfolding snapshot_def by blast
  from assms(3) obtain ys where
    ys: "keyed ys" "map_of ys = m'" "roomy route 0 ys" "present route hsh cs 0 ys" "cs_get cs target = Some (TrieNode (canon route hsh 0 ys))"
    unfolding snapshot_def by blast
  have "Suc (MAX_LEVELS - 0) < limit" using assms(4) by (simp add: MAX_LEVELS_def HASH_BITS_def BIT_WIDTH_def)
  from diff_canon [OF assms(1) this xs(3,4,1) ys(3,4,1)] obtain out
    where out: "diff_nodes limit (canon route hsh 0 xs) (canon route hsh 0 ys) cs = Inr out" "diff_part xs ys out" by blast
  then have set_out: "set out = changes m m'" and keys: "distinct (map ckey out)"
    using xs(2) ys(2) by (simp_all add: diff_part_def)
  show ?thesis
    using False out(1) sorted_changes [OF set_out keys]
    by (simp add: trie_diff_def snapshot_load [OF xs(5)] snapshot_load [OF ys(5)])
qed

theorem trie_diff_exact_witness:
  "\<exists>added removed changed. trie_diff 53 (fst (empty_trie toy_hash [])) (fst (empty_trie toy_hash []))
      (snd (empty_trie toy_hash [])) = Inr (added, removed, changed) \<and> set added = {}"
proof -
  have ok: "cs_ok toy_hash []" by (simp add: cs_ok_def)
  note e = empty_snapshot [OF inj_toy_hash ok, of toy_route]
  from trie_diff_exact [OF inj_toy_hash e e, of 53] show ?thesis by auto
qed

text \<open>
  C34. Four keys that are routed alike cannot be held: routing is by the hash of the normalised key, so four
  spellings of one name (two accented letters, composed or not) share all 51 positions, and building
  the trie of a tree that binds them raises \<open>ValueError\<close> from the position beyond the last level,
  whatever they are bound to.
\<close>

theorem alike_keys_overflow:
  assumes "\<And>k. length (route k) = 32" "inj hsh" "cs_ok hsh cs"
    and "distinct [k1, k2, k3, k4]" "route k2 = route k1" "route k3 = route k1" "route k4 = route k1"
  shows "fst (build_trie route hsh [(k1, v1), (k2, v2), (k3, v3), (k4, v4)] cs) = Inl ValueError"
proof -
  let ?kvs = "[(k1, v1), (k2, v2), (k3, v3)]"
  have three: "card {k' \<in> fst ` set ?kvs. P k'} \<le> 3" for P
    by (rule order_trans [OF card_mono [of "fst ` set ?kvs"]]) (auto simp: card_insert_if)
  have sp: "spread route (fst ` set ?kvs)" unfolding spread_def BUCKET_SIZE_def by (intro ballI three)
  from build_snapshot [where route = route and hsh = hsh, OF assms(1-3) sp] obtain root cs' where
    b: "build_trie route hsh ?kvs cs = (Inr root, cs')" "snapshot route hsh cs' root (map_of (rev ?kvs))" by blast
  have "fst (trie_put route hsh root k4 v4 cs') = Inl ValueError"
    by (rule put_alike_raises [OF assms(1) b(2)]) (use assms(4-7) in \<open>auto simp: BUCKET_SIZE_def\<close>)
  moreover have "build_trie route hsh (?kvs @ [(k4, v4)]) cs = trie_put route hsh root k4 v4 cs'"
    by (rule build_trie_snoc [OF b(1)])
  ultimately show ?thesis by simp
qed

theorem alike_keys_overflow_witness:
  "fst (build_trie (\<lambda>_. replicate 32 0) toy_hash [(''a'', []), (''b'', []), (''c'', []), (''d'', [])] []) = Inl ValueError"
  by (rule alike_keys_overflow [OF _ inj_toy_hash]) (simp_all add: cs_ok_def)

end
