(* ===== verification/Versions.thy ===== *)
theory Versions
  imports Snapshot_Trie Tokens "HOL-Library.Multiset"
begin

section \<open>Version histories\<close>

text \<open>
  The version graph of \<open>entity_handlers/revision.py\<close>: version entries in the content store, each with a
  trie root and parents, and the walks over them (\<open>_walk_history\<close>, \<open>_is_ancestor\<close>,
  \<open>_find_common_ancestor\<close>, \<open>_check_relationship\<close>, \<open>_detect_oscillation\<close>). A \<open>deque\<close> is a list, popped at
  its head. A walk ends because the store is finite: each round either adds a version of the store to
  what has been seen or shortens the queue.
\<close>

subsection \<open>Entities of the revision extension\<close>

text \<open>
  An entity is its type and its data; the types whose data the extension builds or destructures are
  constructors, every other one is \<open>PlainEntity\<close>. \<open>data.get\<close> of an absent key is \<open>None\<close>; an absent
  \<open>parents\<close> is the empty list, as the source reads it.
\<close>

record version =
  ve_root :: "bytes option"
  ve_parents :: "bytes list"

record conflict =
  cf_path :: string
  cf_base :: "bytes option"
  cf_local :: "bytes option"
  cf_remote :: "bytes option"
  cf_strategy :: string
  cf_version_local :: bytes
  cf_version_remote :: bytes
  cf_supersedes :: "bytes option"

text \<open>
  The data of a \<open>system/revision/config\<close>, with the declared types of its fields: an absent list or flag is
  the empty one, as the code reads it. \<open>checkout_under_auto_version\<close> is declared and never read.
\<close>

record rev_config =
  rc_prefix :: string
  rc_auto_version :: bool
  rc_exclude :: "string list"
  rc_exclude_types :: "string list"
  rc_merge_order :: "string option"
  rc_oscillation_depth :: "int option"

datatype rev_entity =
    VersionEntry version | HashRef "bytes option" | TextEntity string | ConflictEntity conflict
  | RevisionConfig rev_config
  | DeletionMarker | PlainEntity string val

type_synonym rev_store = "rev_entity stored content_store"

definition entity_type :: "rev_entity stored \<Rightarrow> string" where
  "entity_type e =
     (case e of
        TrieNode node \<Rightarrow> ''system/tree/snapshot/node''
      | OtherEntity x \<Rightarrow>
          (case x of
             VersionEntry v \<Rightarrow> ''system/revision/entry''
           | HashRef h \<Rightarrow> ''system/hash''
           | TextEntity s \<Rightarrow> ''primitive/string''
           | ConflictEntity c \<Rightarrow> ''system/revision/conflict''
           | RevisionConfig c \<Rightarrow> ''system/revision/config''
           | DeletionMarker \<Rightarrow> ''system/deletion-marker''
           | PlainEntity t d \<Rightarrow> t))"

definition sorted_parents :: "bytes list \<Rightarrow> bytes list" where
  "sorted_parents parents = sort parents"

definition get_version_entity :: "rev_store \<Rightarrow> bytes \<Rightarrow> version option" where
  "get_version_entity cs version_hash =
     (case cs_get cs version_hash of
        Some (OtherEntity (VersionEntry v)) \<Rightarrow> Some v
      | _ \<Rightarrow> None)"

text \<open>\<open>for parent in version.data.get("parents", []): if parent: ...\<close>, of a version that may be missing.\<close>

definition parents_of :: "rev_store \<Rightarrow> bytes \<Rightarrow> bytes list" where
  "parents_of cs h =
     (case get_version_entity cs h of
        None \<Rightarrow> []
      | Some v \<Rightarrow> filter (\<lambda>p. p \<noteq> []) (ve_parents v))"

text \<open>The entries of the store not seen yet, which bound every walk.\<close>

definition unseen :: "rev_store \<Rightarrow> bytes set \<Rightarrow> nat" where
  "unseen cs seen = card (fst ` set cs - seen)"

lemma parents_of_unseen: "parents_of cs h \<noteq> [] \<Longrightarrow> h \<notin> seen \<Longrightarrow> unseen cs (insert h seen) < unseen cs seen"
proof -
  assume p: "parents_of cs h \<noteq> []" and h: "h \<notin> seen"
  from p have "cs_get cs h \<noteq> None" by (auto simp: parents_of_def get_version_entity_def split: option.splits)
  then have "h \<in> fst ` set cs" by (simp add: cs_get_def map_of_eq_None_iff)
  with h have "fst ` set cs - insert h seen \<subset> fst ` set cs - seen" by auto
  then show ?thesis unfolding unseen_def by (intro psubset_card_mono) auto
qed

lemma unseen_mono: "unseen cs (insert h seen) \<le> unseen cs seen"
  unfolding unseen_def by (intro card_mono) auto

lemma walk_round_smaller:
  assumes "h \<notin> seen"
  shows "unseen cs (insert h seen) < unseen cs seen
    \<or> unseen cs (insert h seen) = unseen cs seen \<and> filter P (parents_of cs h) = []"
proof (cases "parents_of cs h = []")
  case True
  with unseen_mono [of cs h seen] show ?thesis by auto
next
  case False
  then show ?thesis using parents_of_unseen [OF _ assms] by simp
qed

subsection \<open>The walks\<close>

text \<open>\<open>limit and len(visited) >= limit\<close>: no limit when it is \<open>None\<close> or 0.\<close>

function walk_from ::
  "rev_store \<Rightarrow> int option \<Rightarrow> bytes list \<Rightarrow> bytes set \<Rightarrow> bytes list \<Rightarrow> bytes list" where
  "walk_from cs limit visited seen [] = visited"
| "walk_from cs limit visited seen (current # queue) =
     (if (\<exists>n \<in> set_option limit. n \<noteq> 0 \<and> n \<le> int (length visited)) then visited
      else if current \<in> seen then walk_from cs limit visited seen queue
      else
        let seen' = insert current seen in
        walk_from cs limit (visited @ [current]) seen'
          (queue @ filter (\<lambda>p. p \<notin> seen') (parents_of cs current)))"
  by pat_completeness auto
termination
  by (relation "measures [\<lambda>(cs, _, _, seen, _). unseen cs seen, \<lambda>(_, _, _, _, queue). length queue]")
    (use walk_round_smaller in \<open>fastforce+\<close>)

definition walk_history :: "rev_store \<Rightarrow> bytes \<Rightarrow> int option \<Rightarrow> bytes list" where
  "walk_history cs start_hash limit =
     (if start_hash = [] then [] else walk_from cs limit [] {} [start_hash])"

function ancestor_from :: "rev_store \<Rightarrow> bytes \<Rightarrow> bytes set \<Rightarrow> bytes list \<Rightarrow> bool" where
  "ancestor_from cs potential visited [] = False"
| "ancestor_from cs potential visited (current # queue) =
     (if current \<in> visited then ancestor_from cs potential visited queue
      else if current = potential then True
      else
        let visited' = insert current visited in
        ancestor_from cs potential visited'
          (queue @ filter (\<lambda>p. p \<notin> visited') (parents_of cs current)))"
  by pat_completeness auto
termination
  by (relation "measures [\<lambda>(cs, _, seen, _). unseen cs seen, \<lambda>(_, _, _, queue). length queue]")
    (use walk_round_smaller in \<open>fastforce+\<close>)

definition is_ancestor :: "rev_store \<Rightarrow> bytes \<Rightarrow> bytes \<Rightarrow> bool" where
  "is_ancestor cs potential descendant =
     (potential = descendant \<or> ancestor_from cs potential {} [descendant])"

text \<open>
  One half of a round of the two-sided search: pop a version of one side, stop when the other side has
  seen it (\<open>Inl\<close>), else see it and queue its parents.
\<close>

definition search_side ::
  "rev_store \<Rightarrow> bytes set \<Rightarrow> bytes set \<Rightarrow> bytes list \<Rightarrow> bytes + (bytes set \<times> bytes list)" where
  "search_side cs others seen queue =
     (case queue of
        [] \<Rightarrow> Inr (seen, [])
      | current # rest \<Rightarrow>
          if current \<in> others then Inl current
          else if current \<in> seen then Inr (seen, rest)
          else
            let seen' = insert current seen in
            Inr (seen', rest @ filter (\<lambda>p. p \<notin> seen') (parents_of cs current)))"

lemma search_side_smaller:
  assumes "search_side cs others seen queue = Inr (seen', queue')"
  shows "unseen cs seen' < unseen cs seen
    \<or> unseen cs seen' = unseen cs seen \<and> (length queue' < length queue \<or> queue' = [] \<and> queue = [])"
  using assms walk_round_smaller [of "hd queue" seen cs "\<lambda>p. p \<notin> insert (hd queue) seen"]
  by (auto simp: search_side_def Let_def split: list.splits if_splits)

function common_from ::
  "rev_store \<Rightarrow> bytes set \<Rightarrow> bytes list \<Rightarrow> bytes set \<Rightarrow> bytes list \<Rightarrow> bytes option" where
  "common_from cs ancestors_a queue_a ancestors_b queue_b =
     (if queue_a = [] \<and> queue_b = [] then None
      else case search_side cs ancestors_b ancestors_a queue_a of
        Inl h \<Rightarrow> Some h
      | Inr (ancestors_a', queue_a') \<Rightarrow>
          (case search_side cs ancestors_a' ancestors_b queue_b of
             Inl h \<Rightarrow> Some h
           | Inr (ancestors_b', queue_b') \<Rightarrow>
               common_from cs ancestors_a' queue_a' ancestors_b' queue_b'))"
  by pat_completeness auto
termination
proof (relation "measures [\<lambda>(cs, sa, _, sb, _). unseen cs sa + unseen cs sb,
                           \<lambda>(_, _, qa, _, qb). length qa + length qb]", goal_cases)
  case (2 cs sa qa sb qb x2 sa' qa' y2 sb' qb')
  have "search_side cs sb sa qa = Inr (sa', qa')" "search_side cs sa' sb qb = Inr (sb', qb')"
    using 2 by simp_all
  from this [THEN search_side_smaller] 2(1) show ?case by auto
qed simp

declare common_from.simps [simp del]

definition find_common_ancestor :: "rev_store \<Rightarrow> bytes \<Rightarrow> bytes \<Rightarrow> bytes option" where
  "find_common_ancestor cs version_a version_b =
     (if version_a = version_b then Some version_a
      else common_from cs {} [version_a] {} [version_b])"

datatype relationship = IN_SYNC | AHEAD | BEHIND | DIVERGED | UNRELATED

definition check_relationship :: "rev_store \<Rightarrow> bytes option \<Rightarrow> bytes option \<Rightarrow> relationship" where
  "check_relationship cs local_hash remote_hash =
     (case (local_hash, remote_hash) of
        (None, None) \<Rightarrow> IN_SYNC
      | (None, Some r) \<Rightarrow> BEHIND
      | (Some l, None) \<Rightarrow> AHEAD
      | (Some l, Some r) \<Rightarrow>
          if l = r then IN_SYNC
          else
            let local_is_ancestor = is_ancestor cs l r; remote_is_ancestor = is_ancestor cs r l in
            if local_is_ancestor \<and> \<not> remote_is_ancestor then BEHIND
            else if remote_is_ancestor \<and> \<not> local_is_ancestor then AHEAD
            else if (case find_common_ancestor cs l r of None \<Rightarrow> False | Some h \<Rightarrow> h \<noteq> []) then DIVERGED
            else UNRELATED)"

text \<open>
  One level of the oscillation search: whether a version of it matches, else what has been visited
  and the queue of the next level.
\<close>

fun oscillation_level ::
  "rev_store \<Rightarrow> bytes \<Rightarrow> bytes list \<Rightarrow> bytes list \<Rightarrow> bytes set \<Rightarrow> bytes list \<Rightarrow> (bytes set \<times> bytes list) option" where
  "oscillation_level cs proposed_root proposed_sorted [] visited next_queue = Some (visited, next_queue)"
| "oscillation_level cs proposed_root proposed_sorted (current # queue) visited next_queue =
     (if current \<in> visited then oscillation_level cs proposed_root proposed_sorted queue visited next_queue
      else
        let visited' = insert current visited in
        case get_version_entity cs current of
          None \<Rightarrow> oscillation_level cs proposed_root proposed_sorted queue visited' next_queue
        | Some v \<Rightarrow>
            if ve_root v = Some proposed_root \<and> sorted_parents (ve_parents v) = proposed_sorted then None
            else oscillation_level cs proposed_root proposed_sorted queue visited'
                   (next_queue @ filter (\<lambda>p. p \<noteq> []) (ve_parents v)))"

primrec oscillation_from ::
  "nat \<Rightarrow> rev_store \<Rightarrow> bytes \<Rightarrow> bytes list \<Rightarrow> bytes set \<Rightarrow> bytes list \<Rightarrow> bool" where
  "oscillation_from 0 cs proposed_root proposed_sorted visited queue = False"
| "oscillation_from (Suc levels) cs proposed_root proposed_sorted visited queue =
     (if queue = [] then False
      else case oscillation_level cs proposed_root proposed_sorted queue visited [] of
        None \<Rightarrow> True
      | Some (visited', next_queue) \<Rightarrow>
          oscillation_from levels cs proposed_root proposed_sorted visited' next_queue)"

text \<open>\<open>depth < depth_limit\<close> from 0 on: a limit that is not positive is no level at all.\<close>

definition detect_oscillation ::
  "rev_store \<Rightarrow> bytes \<Rightarrow> bytes option \<Rightarrow> bytes list \<Rightarrow> int \<Rightarrow> bool" where
  "detect_oscillation cs proposed_root local_head proposed_parents depth_limit =
     (case local_head of
        None \<Rightarrow> False
      | Some head \<Rightarrow>
          oscillation_from (nat depth_limit) cs proposed_root (sorted_parents proposed_parents) {} [head])"

definition normalize_merge_sides :: "bytes \<Rightarrow> bytes \<Rightarrow> string \<Rightarrow> bytes \<times> bytes" where
  "normalize_merge_sides head_a head_b mode =
     (if mode = ''deterministic''
      then (if head_a \<le> head_b then (head_a, head_b) else (head_b, head_a))
      else (head_a, head_b))"


subsection \<open>What a walk has covered\<close>

definition parent_rel :: "rev_store \<Rightarrow> (bytes \<times> bytes) set" where
  "parent_rel cs = {(h, p). p \<in> set (parents_of cs h)}"

definition ancestry :: "rev_store \<Rightarrow> bytes \<Rightarrow> bytes set" where
  "ancestry cs h = {a. (h, a) \<in> (parent_rel cs)\<^sup>*}"

text \<open>
  The invariant every walk keeps: what it has seen and queued are ancestors, the start is among them,
  and no parent of what has been seen is forgotten.
\<close>

definition covering :: "rev_store \<Rightarrow> bytes \<Rightarrow> bytes set \<Rightarrow> bytes list \<Rightarrow> bool" where
  "covering cs start seen queue \<longleftrightarrow>
     seen \<union> set queue \<subseteq> ancestry cs start \<and> start \<in> seen \<union> set queue
     \<and> (\<forall>x \<in> seen. set (parents_of cs x) \<subseteq> seen \<union> set queue)"

lemma ancestry_refl [simp]: "h \<in> ancestry cs h"
  by (simp add: ancestry_def)

lemma ancestry_parent: "h \<in> ancestry cs start \<Longrightarrow> p \<in> set (parents_of cs h) \<Longrightarrow> p \<in> ancestry cs start"
  by (auto simp: ancestry_def parent_rel_def intro: rtrancl_into_rtrancl)

lemma ancestry_trans: "a \<in> ancestry cs b \<Longrightarrow> b \<in> ancestry cs c \<Longrightarrow> a \<in> ancestry cs c"
  by (auto simp: ancestry_def)

lemma covering_start [simp]: "covering cs start {} [start]"
  by (simp add: covering_def)

lemma covering_skip: "covering cs start seen (h # queue) \<Longrightarrow> h \<in> seen \<Longrightarrow> covering cs start seen queue"
  by (auto simp: covering_def)

lemma covering_see:
  "covering cs start seen (h # queue)
   \<Longrightarrow> covering cs start (insert h seen) (queue @ filter (\<lambda>p. p \<notin> insert h seen) (parents_of cs h))"
  by (auto simp: covering_def intro: ancestry_parent)

lemmas covering_see_simp = covering_see [simplified]

lemma covering_done: "covering cs start seen [] \<Longrightarrow> seen = ancestry cs start"
proof
  assume c: "covering cs start seen []"
  then show "seen \<subseteq> ancestry cs start" by (auto simp: covering_def)
  show "ancestry cs start \<subseteq> seen"
  proof
    fix a
    assume "a \<in> ancestry cs start"
    then have "(start, a) \<in> (parent_rel cs)\<^sup>*" by (simp add: ancestry_def)
    then show "a \<in> seen"
      by (induction) (use c in \<open>auto simp: covering_def parent_rel_def\<close>)
  qed
qed

text \<open>A history in walking order: every version but the first is a parent of one before it.\<close>

definition parents_first_seen :: "rev_store \<Rightarrow> bytes \<Rightarrow> bytes list \<Rightarrow> bool" where
  "parents_first_seen cs start xs \<longleftrightarrow>
     (\<forall>i < length xs. xs ! i = start \<or> (\<exists>j < i. xs ! i \<in> set (parents_of cs (xs ! j))))"

lemma all_less_Suc_split: "(\<forall>i < Suc n. P i) \<longleftrightarrow> (\<forall>i < n. P i) \<and> P n"
  by (auto simp: less_Suc_eq)

lemma earlier_item: "(\<exists>j < length xs. P ((xs @ [x]) ! j)) \<longleftrightarrow> (\<exists>c \<in> set xs. P c)"
  by (metis in_set_conv_nth nth_append)

lemma parents_first_seen_snoc:
  "parents_first_seen cs start (xs @ [x]) \<longleftrightarrow>
     parents_first_seen cs start xs \<and> (x = start \<or> (\<exists>c \<in> set xs. x \<in> set (parents_of cs c)))"
proof -
  have last: "(\<exists>j < length xs. x \<in> set (parents_of cs ((xs @ [x]) ! j))) \<longleftrightarrow> (\<exists>c \<in> set xs. x \<in> set (parents_of cs c))"
    by (rule earlier_item)
  have old: "(xs @ [x]) ! i = start \<or> (\<exists>j < i. (xs @ [x]) ! i \<in> set (parents_of cs ((xs @ [x]) ! j)))
      \<longleftrightarrow> xs ! i = start \<or> (\<exists>j < i. xs ! i \<in> set (parents_of cs (xs ! j)))" if "i < length xs" for i
    using that by (intro arg_cong2 [of _ _ _ _ "(\<or>)"] ex_cong) (simp_all add: nth_append)
  have "(\<forall>i < length xs. (xs @ [x]) ! i = start \<or> (\<exists>j < i. (xs @ [x]) ! i \<in> set (parents_of cs ((xs @ [x]) ! j))))
      \<longleftrightarrow> parents_first_seen cs start xs"
    unfolding parents_first_seen_def by (intro all_cong old)
  then show ?thesis
    unfolding parents_first_seen_def [of _ _ "xs @ [x]"] length_append_singleton all_less_Suc_split
    by (simp only: last nth_append_length)
qed

lemma walk_from_exact:
  assumes "covering cs start seen queue" "set visited = seen" "distinct visited"
    and "parents_first_seen cs start visited"
    and "\<forall>q \<in> set queue. q = start \<or> (\<exists>c \<in> seen. q \<in> set (parents_of cs c))"
  shows "set (walk_from cs None visited seen queue) = ancestry cs start
    \<and> distinct (walk_from cs None visited seen queue)
    \<and> parents_first_seen cs start (walk_from cs None visited seen queue)
    \<and> prefix visited (walk_from cs None visited seen queue)"
  using assms
proof (induction cs "None :: int option" visited seen queue rule: walk_from.induct)
  case (1 cs visited seen)
  then show ?case by (simp add: covering_done)
next
  case (2 cs visited seen current queue)
  show ?case
  proof (cases "current \<in> seen")
    case True
    then show ?thesis using 2(1) [OF _ True covering_skip [OF 2(3) True]] 2(4-) by simp
  next
    case False
    let ?seen = "insert current seen"
    have "\<forall>q \<in> set (queue @ filter (\<lambda>p. p \<notin> ?seen) (parents_of cs current)).
        q = start \<or> (\<exists>c \<in> ?seen. q \<in> set (parents_of cs c))"
      using 2(7) by auto
    moreover have "parents_first_seen cs start (visited @ [current])"
      using 2(4,6,7) by (simp add: parents_first_seen_snoc)
    ultimately show ?thesis
      using 2(2) [OF _ False refl covering_see [OF 2(3)]] 2(4,5) False
      by (auto simp: Let_def dest: append_prefixD)
  qed
qed

lemma walk_from_prefix: "prefix visited (walk_from cs limit visited seen queue)"
  by (induction cs limit visited seen queue rule: walk_from.induct) (auto simp: Let_def dest: append_prefixD)

lemma walk_from_limit:
  assumes "0 < n" "length visited \<le> n"
  shows "walk_from cs (Some (int n)) visited seen queue = take n (walk_from cs None visited seen queue)"
  using assms
proof (induction cs "None :: int option" visited seen queue rule: walk_from.induct)
  case (2 cs visited seen current queue)
  show ?case
  proof (cases "length visited = n")
    case True
    then have "take n (walk_from cs None visited seen (current # queue)) = visited"
      using walk_from_prefix [of visited cs None seen "current # queue"] by (auto simp: prefix_def)
    with True 2(3) show ?thesis by simp
  next
    case False
    then show ?thesis using 2 by (simp add: Let_def)
  qed
qed simp

lemma ancestor_from_exact:
  assumes "covering cs descendant visited queue" "potential \<notin> visited"
  shows "ancestor_from cs potential visited queue \<longleftrightarrow> potential \<in> ancestry cs descendant"
  using assms
proof (induction cs potential visited queue rule: ancestor_from.induct)
  case (1 cs potential visited)
  then show ?case using covering_done [OF 1(1)] by simp
next
  case (2 cs potential visited current queue)
  show ?case
  proof (cases "current \<in> visited")
    case True
    then show ?thesis using 2(1) [OF True covering_skip [OF 2(3) True] 2(4)] by simp
  next
    case False
    then show ?thesis
      using 2(2) [OF False _ refl covering_see [OF 2(3)]] 2(3,4)
      by (cases "current = potential") (auto simp: covering_def Let_def)
  qed
qed

lemma is_ancestor_iff: "is_ancestor cs potential descendant \<longleftrightarrow> potential \<in> ancestry cs descendant"
  using ancestor_from_exact [OF covering_start, of potential cs descendant] by (auto simp: is_ancestor_def)

lemma search_side_Inl:
  "search_side cs others seen queue = Inl h \<longleftrightarrow> h \<in> others \<and> (\<exists>rest. queue = h # rest)"
  by (auto simp: search_side_def Let_def split: list.splits if_splits)

lemma search_side_Inr:
  assumes "covering cs start seen queue" "others \<inter> seen = {}"
    and "search_side cs others seen queue = Inr (seen', queue')"
  shows "covering cs start seen' queue' \<and> others \<inter> seen' = {}"
  using assms
  by (auto simp: search_side_def Let_def intro: covering_see_simp covering_skip split: list.splits if_splits)

lemma common_from_exact:
  assumes "covering cs a sa qa" "covering cs b sb qb" "sa \<inter> sb = {}"
  shows "case common_from cs sa qa sb qb of
      None \<Rightarrow> ancestry cs a \<inter> ancestry cs b = {}
    | Some h \<Rightarrow> h \<in> ancestry cs a \<inter> ancestry cs b"
  using assms
proof (induction cs sa qa sb qb rule: common_from.induct)
  case (1 cs sa qa sb qb)
  show ?case
  proof (cases "qa = [] \<and> qb = []")
    case True
    then have "sa = ancestry cs a" "sb = ancestry cs b"
      using 1(2,3) by (auto dest: covering_done)
    with True 1(4) show ?thesis by (simp add: common_from.simps)
  next
    case ne: False
    show ?thesis
    proof (cases "search_side cs sb sa qa")
      case (Inl h)
      then have "h \<in> sb" "h \<in> set qa" by (auto simp: search_side_Inl)
      with 1(2,3) have "h \<in> ancestry cs a \<inter> ancestry cs b" by (auto simp: covering_def)
      moreover have "common_from cs sa qa sb qb = Some h" using ne Inl by (subst common_from.simps) auto
      ultimately show ?thesis by simp
    next
      case (Inr r)
      obtain sa' qa' where r: "r = (sa', qa')" by (cases r)
      note A = Inr [unfolded r]
      have A': "covering cs a sa' qa'" "sb \<inter> sa' = {}"
        using search_side_Inr [OF 1(2) _ A] 1(4) by auto
      show ?thesis
      proof (cases "search_side cs sa' sb qb")
        case (Inl h)
        then have "h \<in> sa'" "h \<in> set qb" by (auto simp: search_side_Inl)
        with A'(1) 1(3) have "h \<in> ancestry cs a \<inter> ancestry cs b" by (auto simp: covering_def)
        moreover have "common_from cs sa qa sb qb = Some h" using ne A Inl by (subst common_from.simps) auto
        ultimately show ?thesis by simp
      next
        case (Inr r')
        obtain sb' qb' where r': "r' = (sb', qb')" by (cases r')
        note B = Inr [unfolded r']
        have B': "covering cs b sb' qb'" "sa' \<inter> sb' = {}"
          using search_side_Inr [OF 1(3) _ B] A'(2) by auto
        have "common_from cs sa qa sb qb = common_from cs sa' qa' sb' qb'"
          using ne by (subst common_from.simps) (auto simp: A B)
        with 1(1) [OF ne A [unfolded r] refl B refl A'(1) B'] show ?thesis by simp
      qed
    qed
  qed
qed

lemma find_common_ancestor_exact:
  "case find_common_ancestor cs a b of
     None \<Rightarrow> ancestry cs a \<inter> ancestry cs b = {}
   | Some h \<Rightarrow> h \<in> ancestry cs a \<inter> ancestry cs b"
  using common_from_exact [of cs a "{}" "[a]" b "{}" "[b]"] by (simp add: find_common_ancestor_def)


subsection \<open>Oscillation\<close>

definition same_identity :: "rev_store \<Rightarrow> bytes \<Rightarrow> bytes list \<Rightarrow> bytes \<Rightarrow> bool" where
  "same_identity cs proposed_root proposed_sorted h =
     (case get_version_entity cs h of
        None \<Rightarrow> False
      | Some v \<Rightarrow> ve_root v = Some proposed_root \<and> sorted_parents (ve_parents v) = proposed_sorted)"

lemma oscillation_level_exact:
  "case oscillation_level cs r ps queue visited nq of
     None \<Rightarrow> \<exists>h \<in> set queue - visited. same_identity cs r ps h
   | Some (visited', nq') \<Rightarrow>
       (\<forall>h \<in> set queue - visited. \<not> same_identity cs r ps h)
       \<and> visited' = visited \<union> set queue
       \<and> set nq' = set nq \<union> (\<Union>h \<in> set queue - visited. set (parents_of cs h))"
proof (induction cs r ps queue visited nq rule: oscillation_level.induct)
  case (2 cs r ps current queue visited nq)
  show ?case
  proof (cases "current \<in> visited")
    case True
    then have "set (current # queue) - visited = set queue - visited" by auto
    then show ?thesis using 2(1) [OF True] True by (auto split: option.splits)
  next
    case False
    let ?v = "insert current visited"
    have set_eq: "set (current # queue) - visited = insert current (set queue - ?v)" using False by auto
    show ?thesis
    proof (cases "get_version_entity cs current")
      case None
      then have "\<not> same_identity cs r ps current" "parents_of cs current = []"
        by (simp_all add: same_identity_def parents_of_def)
      then show ?thesis using 2(2) [OF False refl None] False
        unfolding set_eq by (auto simp: None split: option.splits)
    next
      case (Some v)
      have parents: "parents_of cs current = filter (\<lambda>p. p \<noteq> []) (ve_parents v)"
        by (simp add: parents_of_def Some)
      show ?thesis
      proof (cases "same_identity cs r ps current")
        case True
        then have "oscillation_level cs r ps (current # queue) visited nq = None"
          using False by (simp add: Some same_identity_def)
        then show ?thesis using True False by auto
      next
        case nomatch: False
        then have no: "\<not> (ve_root v = Some r \<and> sorted_parents (ve_parents v) = ps)"
          by (simp add: same_identity_def Some)
        then have eq: "oscillation_level cs r ps (current # queue) visited nq
            = oscillation_level cs r ps queue ?v (nq @ parents_of cs current)"
          using False by (auto simp: Some parents)
        have IH: "case oscillation_level cs r ps queue ?v (nq @ parents_of cs current) of
             None \<Rightarrow> \<exists>h \<in> set queue - ?v. same_identity cs r ps h
           | Some (visited', nq') \<Rightarrow>
               (\<forall>h \<in> set queue - ?v. \<not> same_identity cs r ps h) \<and> visited' = ?v \<union> set queue
               \<and> set nq' = set (nq @ parents_of cs current) \<union> (\<Union>h \<in> set queue - ?v. set (parents_of cs h))"
          using 2(3) [OF False refl Some no] by (simp only: parents)
        show ?thesis unfolding eq set_eq
        proof (cases "oscillation_level cs r ps queue ?v (nq @ parents_of cs current)")
          case None
          with IH show "case oscillation_level cs r ps queue ?v (nq @ parents_of cs current) of
             None \<Rightarrow> \<exists>h \<in> insert current (set queue - ?v). same_identity cs r ps h
           | Some (visited', nq') \<Rightarrow>
               (\<forall>h \<in> insert current (set queue - ?v). \<not> same_identity cs r ps h) \<and> visited' = visited \<union> set (current # queue)
               \<and> set nq' = set nq \<union> (\<Union>h \<in> insert current (set queue - ?v). set (parents_of cs h))"
            by auto
        next
          case (Some z)
          with IH nomatch show "case oscillation_level cs r ps queue ?v (nq @ parents_of cs current) of
             None \<Rightarrow> \<exists>h \<in> insert current (set queue - ?v). same_identity cs r ps h
           | Some (visited', nq') \<Rightarrow>
               (\<forall>h \<in> insert current (set queue - ?v). \<not> same_identity cs r ps h) \<and> visited' = visited \<union> set (current # queue)
               \<and> set nq' = set nq \<union> (\<Union>h \<in> insert current (set queue - ?v). set (parents_of cs h))"
            by (cases z) auto
        qed
      qed
    qed
  qed
qed simp

text \<open>A path that leaves what has been visited crosses the queue, and is shorter from there.\<close>

lemma path_leaves:
  assumes "\<forall>x \<in> V. set (parents_of cs x) \<subseteq> V \<union> Q" "(p, h) \<in> parent_rel cs ^^ k" "p \<in> V \<union> Q" "h \<notin> V"
  shows "\<exists>q \<in> Q. \<exists>j \<le> k. (q, h) \<in> parent_rel cs ^^ j"
  using assms(2,3)
proof (induction k arbitrary: p)
  case 0
  with assms(4) show ?case by auto
next
  case (Suc k)
  show ?case
  proof (cases "p \<in> Q")
    case True
    with Suc.prems(1) show ?thesis by blast
  next
    case False
    with Suc.prems(2) have "p \<in> V" by simp
    from Suc.prems(1) obtain p' where p': "(p, p') \<in> parent_rel cs" "(p', h) \<in> parent_rel cs ^^ k"
      by (rule relpow_Suc_E2)
    have "p' \<in> set (parents_of cs p)" using p'(1) by (simp add: parent_rel_def)
    then have "p' \<in> V \<union> Q" using assms(1) \<open>p \<in> V\<close> by blast
    from Suc.IH [OF p'(2) this] show ?thesis using le_SucI by blast
  qed
qed

lemma oscillation_from_exact:
  assumes "\<forall>x \<in> V. set (parents_of cs x) \<subseteq> V \<union> set Q" "\<forall>x \<in> V. \<not> same_identity cs r ps x"
  shows "oscillation_from n cs r ps V Q \<longleftrightarrow>
    (\<exists>q \<in> set Q. \<exists>k < n. \<exists>h. (q, h) \<in> parent_rel cs ^^ k \<and> same_identity cs r ps h)"
  using assms
proof (induction n arbitrary: V Q)
  case (Suc n)
  show ?case
  proof (cases "oscillation_level cs r ps Q V []")
    case None
    then obtain h where h: "h \<in> set Q" "same_identity cs r ps h"
      using oscillation_level_exact [where cs = cs and r = r and ps = ps and queue = Q and visited = V and nq = "[]"] by auto
    then have "Q \<noteq> []" by auto
    moreover have "(h, h) \<in> parent_rel cs ^^ 0" by simp
    ultimately show ?thesis using None h by (simp del: relpow.simps) (meson zero_less_Suc)
  next
    case (Some z)
    obtain V' Q' where z: "z = (V', Q')" by (cases z)
    have lvl: "\<forall>h \<in> set Q - V. \<not> same_identity cs r ps h" "V' = V \<union> set Q"
      "set Q' = (\<Union>h \<in> set Q - V. set (parents_of cs h))"
      using oscillation_level_exact [where cs = cs and r = r and ps = ps and queue = Q and visited = V and nq = "[]"] Some z by auto
    have V': "\<forall>x \<in> V'. set (parents_of cs x) \<subseteq> V' \<union> set Q'" "\<forall>x \<in> V'. \<not> same_identity cs r ps x"
      using lvl Suc.prems by auto
    have left: "oscillation_from (Suc n) cs r ps V Q \<longleftrightarrow> Q \<noteq> [] \<and> oscillation_from n cs r ps V' Q'"
      by (simp add: Some z)
    have "\<exists>q \<in> set Q. \<exists>k < Suc n. \<exists>h. (q, h) \<in> parent_rel cs ^^ k \<and> same_identity cs r ps h"
      if "q' \<in> set Q'" "k < n" "(q', h) \<in> parent_rel cs ^^ k" "same_identity cs r ps h" for q' k h
    proof -
      from that(1) lvl(3) obtain q where q: "q \<in> set Q" "(q, q') \<in> parent_rel cs"
        by (auto simp: parent_rel_def)
      have "(q, h) \<in> parent_rel cs ^^ Suc k" using q(2) that(3) by (rule relpow_Suc_I2)
      moreover have "Suc k < Suc n" using that(2) by simp
      ultimately show ?thesis using q(1) that(4) by blast
    qed
    moreover have "\<exists>q' \<in> set Q'. \<exists>k < n. \<exists>h. (q', h) \<in> parent_rel cs ^^ k \<and> same_identity cs r ps h"
      if "q \<in> set Q" "k < Suc n" "(q, h) \<in> parent_rel cs ^^ k" "same_identity cs r ps h" for q k h
    proof -
      have notin: "h \<notin> V'" using V'(2) that(4) by blast
      have "k \<noteq> 0" using that(1,3) notin lvl(2) by (cases k) auto
      then obtain k' where k': "k = Suc k'" by (cases k) auto
      from that(3) obtain p where p: "(q, p) \<in> parent_rel cs" "(p, h) \<in> parent_rel cs ^^ k'"
        unfolding k' by (rule relpow_Suc_E2)
      have "q \<in> V'" using that(1) lvl(2) by simp
      then have "p \<in> V' \<union> set Q'" using p(1) V'(1) by (auto simp: parent_rel_def)
      from path_leaves [OF V'(1) p(2) this notin] obtain q' j where
        "q' \<in> set Q'" "j \<le> k'" "(q', h) \<in> parent_rel cs ^^ j" by blast
      moreover from this have "j < n" using that(2) k' by simp
      ultimately show ?thesis using that(4) by blast
    qed
    ultimately show ?thesis
      unfolding left Suc.IH [OF V'] using list.set_sel(1) [of Q] by (metis empty_iff list.set(1))
  qed
qed simp


subsection \<open>What the walks answer\<close>

text \<open>
  C23. The history walk from a version visits its ancestors, itself first, each once and after one of the
  versions it is a parent of; with a limit it visits the first so many of them. Nothing is assumed of
  the version graph: it may miss entries and have cycles.
\<close>

theorem walk_history_exact:
  assumes "start \<noteq> []" "0 < n"
  shows "set (walk_history cs start None) = ancestry cs start
    \<and> distinct (walk_history cs start None)
    \<and> hd (walk_history cs start None) = start
    \<and> parents_first_seen cs start (walk_history cs start None)
    \<and> walk_history cs start (Some (int n)) = take n (walk_history cs start None)"
proof -
  have w: "walk_history cs start l = walk_from cs l [] {} [start]" for l
    using assms(1) by (simp add: walk_history_def)
  have "walk_from cs None [] {} [start] = walk_from cs None [start] {start} (filter (\<lambda>p. p \<noteq> start) (parents_of cs start))"
    by (simp add: Let_def)
  then have "prefix [start] (walk_history cs start None)"
    using walk_from_prefix [of "[start]" cs None] by (simp add: w)
  then have "hd (walk_history cs start None) = start" by (auto simp: prefix_def)
  moreover have "set (walk_history cs start None) = ancestry cs start \<and> distinct (walk_history cs start None)
      \<and> parents_first_seen cs start (walk_history cs start None)"
    using walk_from_exact [OF covering_start, where visited = "[]"] by (simp add: w parents_first_seen_def)
  moreover have "walk_history cs start (Some (int n)) = take n (walk_history cs start None)"
    unfolding w by (rule walk_from_limit [OF assms(2)]) simp
  ultimately show ?thesis by simp
qed

text \<open>A store to evaluate on: \<open>s\<close> merges \<open>p\<close> and \<open>y\<close>, and \<open>y\<close> follows \<open>a\<close>, which follows \<open>p\<close>.\<close>

definition entry :: "bytes list \<Rightarrow> rev_entity stored" where
  "entry parents = OtherEntity (VersionEntry \<lparr>ve_root = Some [7], ve_parents = parents\<rparr>)"

definition fork_store :: rev_store where
  "fork_store = [([1], entry []), ([2], entry [[1]]), ([3], entry [[2]]), ([4], entry [[1], [3]]), ([5], entry [[2]])]"

theorem walk_history_exact_witness:
  "walk_history fork_store [4] None = [[4], [1], [3], [2]]
   \<and> set (walk_history fork_store [4] None) = ancestry fork_store [4]
   \<and> walk_history fork_store [4] (Some (int 2)) = [[4], [1]]"
proof -
  have "walk_history fork_store [4] None = [[4], [1], [3], [2]]" by code_simp
  with walk_history_exact [of "[4]" 2 fork_store] show ?thesis by simp
qed

text \<open>
  C24. The two-sided search ends on every graph. It finds a version exactly when the two histories have one
  in common, and what it finds is one; so does the ancestor test decide ancestry.
\<close>

theorem common_ancestor_exact:
  "(find_common_ancestor cs a b = None) = (ancestry cs a \<inter> ancestry cs b = {})
   \<and> set_option (find_common_ancestor cs a b) \<subseteq> ancestry cs a \<inter> ancestry cs b
   \<and> is_ancestor cs a b = (a \<in> ancestry cs b)"
  using find_common_ancestor_exact [of cs a b] by (auto simp: is_ancestor_iff split: option.splits)

text \<open>
  What it finds need not be the nearest one, not even when one version is an ancestor of the other: on
  the store above, from \<open>a\<close> and the merge version \<open>s\<close> it finds \<open>p\<close>, although \<open>a\<close> is itself an ancestor of
  \<open>s\<close>; and from the diverged \<open>[5]\<close> and \<open>s\<close> it finds \<open>p\<close>, although \<open>a\<close>, which follows \<open>p\<close>, is common too.
\<close>

theorem common_ancestor_not_nearest:
  "find_common_ancestor fork_store [2] [4] = Some [1]
   \<and> is_ancestor fork_store [2] [4] \<and> is_ancestor fork_store [1] [2] \<and> \<not> is_ancestor fork_store [2] [1]
   \<and> check_relationship fork_store (Some [5]) (Some [4]) = DIVERGED
   \<and> find_common_ancestor fork_store [5] [4] = Some [1]
   \<and> is_ancestor fork_store [2] [5]"
  by code_simp

text \<open>
  The relationship of two heads in full: in sync when equal, behind or ahead when exactly one is an
  ancestor of the other, diverged when the histories meet otherwise, unrelated when they do not.
\<close>

theorem relationship_exact:
  assumes "l \<noteq> []" "r \<noteq> []"
  shows "check_relationship cs (Some l) (Some r) =
    (if l = r then IN_SYNC
     else if l \<in> ancestry cs r \<and> r \<notin> ancestry cs l then BEHIND
     else if r \<in> ancestry cs l \<and> l \<notin> ancestry cs r then AHEAD
     else if ancestry cs l \<inter> ancestry cs r \<noteq> {} then DIVERGED
     else UNRELATED)"
proof -
  have ne: "h \<noteq> []" if "h \<in> ancestry cs s" "s \<noteq> []" for h s
  proof -
    from that(1) have "(s, h) \<in> (parent_rel cs)\<^sup>*" by (simp add: ancestry_def)
    then show ?thesis
      by (cases rule: rtranclE) (use that(2) in \<open>auto simp: parent_rel_def parents_of_def split: option.splits\<close>)
  qed
  have "(case find_common_ancestor cs l r of None \<Rightarrow> False | Some h \<Rightarrow> h \<noteq> [])
      \<longleftrightarrow> ancestry cs l \<inter> ancestry cs r \<noteq> {}"
    using find_common_ancestor_exact [of cs l r] ne [OF _ assms(1)] by (auto split: option.splits)
  then show ?thesis by (simp add: check_relationship_def is_ancestor_iff Let_def)
qed

theorem relationship_exact_witness:
  "check_relationship fork_store (Some [2]) (Some [4]) = BEHIND
   \<and> [2] \<in> ancestry fork_store [4] \<and> [4] \<notin> ancestry fork_store [2]"
proof -
  have b: "check_relationship fork_store (Some [2]) (Some [4]) = BEHIND" by code_simp
  with relationship_exact [of "[2]" "[4]" fork_store] show ?thesis by (auto split: if_splits)
qed

text \<open>
  Oscillation is detected exactly when the proposed identity (the root with the sorted parents) is that
  of a version fewer than \<open>depth_limit\<close> generations above the head, by whichever line of descent.
\<close>

theorem oscillation_exact:
  "detect_oscillation cs proposed_root (Some head) proposed_parents depth_limit =
     (\<exists>k < nat depth_limit. \<exists>h v. (head, h) \<in> parent_rel cs ^^ k \<and> get_version_entity cs h = Some v
        \<and> ve_root v = Some proposed_root \<and> mset (ve_parents v) = mset proposed_parents)"
proof -
  have "sorted_parents xs = sorted_parents ys \<longleftrightarrow> mset xs = mset ys" for xs ys
    unfolding sorted_parents_def by (metis mset_sort sorted_list_of_multiset_mset)
  then have "same_identity cs proposed_root (sorted_parents proposed_parents) h \<longleftrightarrow>
      (\<exists>v. get_version_entity cs h = Some v \<and> ve_root v = Some proposed_root
         \<and> mset (ve_parents v) = mset proposed_parents)" for h
    by (simp add: same_identity_def split: option.split)
  then show ?thesis
    by (simp add: detect_oscillation_def oscillation_from_exact)
qed

end
