(* ===== verification/Revision_Config.thy ===== *)
theory Revision_Config
  imports Versions "HOL-Library.Product_Lexorder"
begin

section \<open>Patterns and configuration of the revision extension\<close>

text \<open>
  The part of \<open>entity_handlers/revision.py\<close> that reads patterns and configuration: the glob matcher,
  the validation of revision and merge configurations, the bindings of a prefix a version captures
  (\<open>compute_versioned_bindings\<close>), and the selection of a merge configuration for a path. A context is
  the tree and the store of its emit pathway.
\<close>

subsection \<open>Reading the tree\<close>

text \<open>\<open>entity.data.get(key)\<close>, for the keys configurations have; only a dictionary has \<open>get\<close>.\<close>

definition data_get :: "rev_entity stored \<Rightarrow> string \<Rightarrow> val result" where
  "data_get e key =
     (case e of
        TrieNode node \<Rightarrow> Inr VNull
      | OtherEntity x \<Rightarrow>
          (case x of
             PlainEntity t (VDict d) \<Rightarrow> Inr (dict_get d key)
           | PlainEntity t _ \<Rightarrow> Inl AttributeError
           | TextEntity s \<Rightarrow> Inl AttributeError
           | HashRef h \<Rightarrow> Inr (case h of None \<Rightarrow> VNull | Some b \<Rightarrow> if key = ''hash'' then VBytes b else VNull)
           | ConflictEntity c \<Rightarrow> Inr (if key = ''strategy'' then VStr (cf_strategy c) else VNull)
           | RevisionConfig c \<Rightarrow> Inr (if key = ''prefix'' then VStr (rc_prefix c) else VNull)
           | _ \<Rightarrow> Inr VNull))"

text \<open>\<open>not config.data\<close>: the data that is empty. The other types always have a field.\<close>

definition data_empty :: "rev_entity stored \<Rightarrow> bool" where
  "data_empty e =
     (case e of
        OtherEntity (PlainEntity t d) \<Rightarrow> \<not> truthy d
      | OtherEntity (TextEntity s) \<Rightarrow> s = []
      | OtherEntity DeletionMarker \<Rightarrow> True
      | _ \<Rightarrow> False)"

definition get_hash_at_path :: "entity_tree \<Rightarrow> string \<Rightarrow> bytes option" where
  "get_hash_at_path tree path = et_get tree (normalize_uri (et_local tree) path)"

definition get_entity_at_path :: "entity_tree \<Rightarrow> rev_store \<Rightarrow> string \<Rightarrow> rev_entity stored option" where
  "get_entity_at_path tree cs path =
     (case get_hash_at_path tree path of
        None \<Rightarrow> None
      | Some h \<Rightarrow> if h = [] then None else cs_get cs h)"

definition list_prefix_relative :: "entity_tree \<Rightarrow> string \<Rightarrow> string list" where
  "list_prefix_relative tree p =
     (let full_prefix = normalize_uri (et_local tree) p in
      map (drop (length full_prefix)) (list_prefix tree full_prefix))"

subsection \<open>Paths of the extension\<close>

text \<open>
  \<open>ph\<close> is the hex content hash of the absolute prefix; \<open>path_hash\<close> is \<open>compute_ecf_hash\<close> of a path entity.
\<close>

definition compute_prefix_hash :: "(string \<Rightarrow> bytes) \<Rightarrow> entity_tree \<Rightarrow> string \<Rightarrow> string" where
  "compute_prefix_hash path_hash tree p = hex (path_hash (normalize_uri (et_local tree) p))"

definition head_path :: "string \<Rightarrow> string" where
  "head_path ph = ''system/revision/'' @ ph @ ''/head''"

definition branch_path :: "string \<Rightarrow> string \<Rightarrow> string" where
  "branch_path ph name = ''system/revision/'' @ ph @ ''/branches/'' @ name"

definition active_branch_path :: "string \<Rightarrow> string" where
  "active_branch_path ph = ''system/revision/'' @ ph @ ''/active-branch''"

definition tag_path :: "string \<Rightarrow> string \<Rightarrow> string" where
  "tag_path ph name = ''system/revision/'' @ ph @ ''/tags/'' @ name"

definition conflict_path :: "string \<Rightarrow> string \<Rightarrow> string" where
  "conflict_path ph path = ''system/revision/'' @ ph @ ''/conflicts/'' @ path"

definition remote_head_path :: "string \<Rightarrow> string \<Rightarrow> string" where
  "remote_head_path ph peer_id_hex = ''system/revision/'' @ ph @ ''/remotes/'' @ peer_id_hex"

definition config_path_for_prefix :: "string \<Rightarrow> string" where
  "config_path_for_prefix ph = ''system/revision/'' @ ph @ ''/config''"

definition get_config :: "entity_tree \<Rightarrow> rev_store \<Rightarrow> string \<Rightarrow> rev_config option" where
  "get_config tree cs ph =
     (case get_entity_at_path tree cs (config_path_for_prefix ph) of
        Some (OtherEntity (RevisionConfig c)) \<Rightarrow> Some c
      | _ \<Rightarrow> None)"

definition strip_slash :: "string \<Rightarrow> string" where
  "strip_slash s = rstrip_slash (dropWhile (\<lambda>c. c = CHR ''/'') s)"

text \<open>\<open>canonical.replace("/", "-")\<close>.\<close>

definition tracking_config_path :: "string \<Rightarrow> string" where
  "tracking_config_path p =
     (let canonical = strip_slash p;
          key = (if canonical = [] then ''root''
                 else map (\<lambda>c. if c = CHR ''/'' then CHR ''-'' else c) canonical)
      in ''system/tree/tracking-config/'' @ key)"

subsection \<open>The four pattern forms\<close>

definition glob_match :: "string \<Rightarrow> string \<Rightarrow> bool" where
  "glob_match pattern subject =
     (if pattern = ''*'' then True
      else if ends_with pattern ''/*'' then starts_with subject (butlast pattern)
      else if starts_with pattern ''*'' then ends_with subject (tl pattern)
      else subject = pattern)"

definition validate_exclude_pattern :: "val \<Rightarrow> bool" where
  "validate_exclude_pattern pattern =
     (case pattern of
        VStr s \<Rightarrow>
          if 1 < count_list s (CHR ''*'') then False
          else if CHR ''*'' \<notin> set s then True
          else if s = ''*'' then True
          else if ends_with s ''/*'' then True
          else starts_with s ''*''
      | _ \<Rightarrow> False)"

definition matches_any_glob :: "string \<Rightarrow> string list \<Rightarrow> bool" where
  "matches_any_glob name patterns = (\<exists>p \<in> set patterns. glob_match p name)"

subsection \<open>Validation of configurations\<close>

definition REQUIRED_EXCLUDE_PATHS :: "string list" where
  "REQUIRED_EXCLUDE_PATHS =
     [''system/revision/'', ''system/tree/root/'', ''system/tree/tracking-config/'', ''system/history/'',
      ''system/clock/'']"

definition prefix_encompasses :: "string \<Rightarrow> string \<Rightarrow> bool" where
  "prefix_encompasses p required_path =
     (let canonical = strip_slash p in
      if canonical = [] then True
      else
        let canonical_slash = canonical @ ''/'' in
        starts_with required_path canonical_slash \<or> starts_with canonical_slash required_path)"

definition exclude_covers :: "string list \<Rightarrow> string \<Rightarrow> bool" where
  "exclude_covers exclude_patterns required_path =
     (let req = rstrip_slash required_path @ ''/'' in
      \<exists>pat \<in> set exclude_patterns. pat = ''*'' \<or> ends_with pat ''/*'' \<and> starts_with req (butlast pat))"

datatype config_error = InvalidPrefix | MissingExcludes "string list"

definition validate_revision_config :: "rev_config \<Rightarrow> config_error list" where
  "validate_revision_config c =
     (if \<not> rc_auto_version c then []
      else if rc_prefix c = [] \<or> \<not> ends_with (rc_prefix c) ''/'' then [InvalidPrefix]
      else
        let missing = filter (\<lambda>req. prefix_encompasses (rc_prefix c) req \<and> \<not> exclude_covers (rc_exclude c) req)
                        REQUIRED_EXCLUDE_PATHS
        in if missing \<noteq> [] then [MissingExcludes (sort missing)] else [])"

definition DELETION_RESOLUTION_DEFAULT :: string where
  "DELETION_RESOLUTION_DEFAULT = ''preserve-on-conflict''"

definition DELETION_RESOLUTION_VALID :: "string list" where
  "DELETION_RESOLUTION_VALID =
     [''preserve-on-conflict'', ''deletion-wins'', ''three-way-fallthrough'', ''deterministic'']"

definition DELETION_RESOLUTION_REJECTED :: "string list" where
  "DELETION_RESOLUTION_REJECTED = [''lww'', ''keep-both'']"

definition MERGE_STRATEGY_HANDLER :: string where
  "MERGE_STRATEGY_HANDLER = ''handler''"

datatype merge_config_error =
    HandlerPathMissing | ResolutionNotString | ResolutionRejected string | ResolutionUnknown string

definition validate_merge_config :: "(string \<times> val) list \<Rightarrow> merge_config_error list" where
  "validate_merge_config d =
     (if dict_get d ''strategy'' = VStr MERGE_STRATEGY_HANDLER
      then (case dict_get d ''handler'' of
              VStr s \<Rightarrow> if s = [] then [HandlerPathMissing] else []
            | _ \<Rightarrow> [HandlerPathMissing])
      else [])
     @ (case dict_get d ''deletion_resolution'' of
          VNull \<Rightarrow> []
        | VStr dr \<Rightarrow>
            if dr \<in> set DELETION_RESOLUTION_REJECTED then [ResolutionRejected dr]
            else if dr \<notin> set DELETION_RESOLUTION_VALID then [ResolutionUnknown dr]
            else []
        | _ \<Rightarrow> [ResolutionNotString])"

definition effective_deletion_resolution :: "val \<Rightarrow> string" where
  "effective_deletion_resolution strategy =
     (case strategy of
        VStr s \<Rightarrow> if s \<in> set DELETION_RESOLUTION_VALID then s else DELETION_RESOLUTION_DEFAULT
      | _ \<Rightarrow> DELETION_RESOLUTION_DEFAULT)"

subsection \<open>What a version captures\<close>

definition versioned_binding ::
  "entity_tree \<Rightarrow> rev_store \<Rightarrow> string \<Rightarrow> string list \<Rightarrow> string list \<Rightarrow> string \<Rightarrow> (string \<times> bytes) option" where
  "versioned_binding tree cs full_prefix exclude exclude_types uri =
     (case et_get tree uri of
        None \<Rightarrow> None
      | Some h \<Rightarrow>
          if h = [] then None
          else
            let relative = drop (length full_prefix) uri in
            if relative = [] then None
            else if matches_any_glob relative exclude then None
            else if exclude_types \<noteq> [] \<and>
                (case cs_get cs h of None \<Rightarrow> False | Some e \<Rightarrow> matches_any_glob (entity_type e) exclude_types)
            then None
            else Some (relative, h))"

text \<open>The dictionary is built in listing order, one entry per path.\<close>

definition compute_versioned_bindings ::
  "entity_tree \<Rightarrow> rev_store \<Rightarrow> string \<Rightarrow> rev_config option \<Rightarrow> (string, bytes) dict" where
  "compute_versioned_bindings tree cs p config =
     (let full_prefix = normalize_uri (et_local tree) p;
          exclude = (case config of None \<Rightarrow> [] | Some c \<Rightarrow> rc_exclude c);
          exclude_types = (case config of None \<Rightarrow> [] | Some c \<Rightarrow> rc_exclude_types c)
      in List.map_filter (versioned_binding tree cs full_prefix exclude exclude_types)
           (list_prefix tree full_prefix))"

definition get_snapshot_bindings ::
  "entity_tree \<Rightarrow> rev_store \<Rightarrow> string \<Rightarrow> rev_config option \<Rightarrow> (string, bytes) dict" where
  "get_snapshot_bindings tree cs p config = compute_versioned_bindings tree cs p config"

subsection \<open>Merge configurations\<close>

definition merge_pattern_rank :: "string \<Rightarrow> int" where
  "merge_pattern_rank pattern =
     (if pattern = ''*'' then 0
      else if ends_with pattern ''/*'' then 2
      else if starts_with pattern ''*'' then 1
      else 3)"

text \<open>\<open>pattern.replace("*", "", 1)\<close>.\<close>

definition merge_config_order_key :: "string \<Rightarrow> string \<Rightarrow> int \<times> int \<times> string \<times> string" where
  "merge_config_order_key pattern name =
     (- merge_pattern_rank pattern, - int (length (remove1 (CHR ''*'') pattern)), pattern, name)"

definition last_segment :: "string \<Rightarrow> string" where
  "last_segment uri = last (split_all (CHR ''/'') uri)"

text \<open>
  The configurations under the path scope whose pattern matches, in listing order, as the generator
  yields them: each with its pattern and the last segment of its path.
\<close>

definition MERGE_CONFIG_PATH_PREFIX :: string where
  "MERGE_CONFIG_PATH_PREFIX = ''system/revision/config/merge/path/''"

definition MERGE_CONFIG_TYPE_PREFIX :: string where
  "MERGE_CONFIG_TYPE_PREFIX = ''system/revision/config/merge/type/''"

definition merge_config_at ::
  "entity_tree \<Rightarrow> rev_store \<Rightarrow> string \<Rightarrow> string \<Rightarrow> (rev_entity stored \<times> string \<times> string) list result" where
  "merge_config_at tree cs full_path uri =
     (case et_get tree uri of
        None \<Rightarrow> Inr []
      | Some h \<Rightarrow>
          if h = [] then Inr []
          else case cs_get cs h of
            None \<Rightarrow> Inr []
          | Some config \<Rightarrow>
              if data_empty config then Inr []
              else bind_r (data_get config ''pattern'')
                (\<lambda>pattern. case pattern of
                   VStr p \<Rightarrow>
                     if p \<noteq> [] \<and> glob_match p full_path then Inr [(config, p, last_segment uri)] else Inr []
                 | _ \<Rightarrow> Inr []))"

definition matching_merge_configs ::
  "entity_tree \<Rightarrow> rev_store \<Rightarrow> string \<Rightarrow> (rev_entity stored \<times> string \<times> string) list result" where
  "matching_merge_configs tree cs full_path =
     bind_r (map_r (merge_config_at tree cs full_path)
               (list_prefix tree (normalize_uri (et_local tree) MERGE_CONFIG_PATH_PREFIX)))
       (\<lambda>parts. Inr (concat parts))"

text \<open>The loop that keeps the entry of the least key, the first of equals.\<close>

fun best_config ::
  "('a \<Rightarrow> int \<times> int \<times> string \<times> string) \<Rightarrow> 'a option \<Rightarrow> 'a list \<Rightarrow> 'a option" where
  "best_config key best [] = best"
| "best_config key best (c # cs) =
     best_config key (case best of None \<Rightarrow> Some c | Some b \<Rightarrow> if key c < key b then Some c else Some b) cs"

definition config_key :: "rev_entity stored \<times> string \<times> string \<Rightarrow> int \<times> int \<times> string \<times> string" where
  "config_key c = (case c of (_, pattern, name) \<Rightarrow> merge_config_order_key pattern name)"

text \<open>The type-scoped configurations, in order: the first with a strategy decides.\<close>

fun type_strategy ::
  "entity_tree \<Rightarrow> rev_store \<Rightarrow> string list \<Rightarrow> (val \<times> val) option result" where
  "type_strategy tree cs [] = Inr None"
| "type_strategy tree cs (type_name # types) =
     (case get_entity_at_path tree cs (MERGE_CONFIG_TYPE_PREFIX @ type_name) of
        None \<Rightarrow> type_strategy tree cs types
      | Some config \<Rightarrow>
          bind_r (data_get config ''strategy'')
            (\<lambda>strategy. if truthy strategy
               then bind_r (data_get config ''handler'') (\<lambda>handler. Inr (Some (strategy, handler)))
               else type_strategy tree cs types))"

definition hash_entity :: "rev_store \<Rightarrow> bytes option \<Rightarrow> rev_entity stored option" where
  "hash_entity cs h = (case h of None \<Rightarrow> None | Some b \<Rightarrow> if b = [] then None else cs_get cs b)"

definition find_merge_strategy ::
  "entity_tree \<Rightarrow> rev_store \<Rightarrow> string \<Rightarrow> string \<Rightarrow> bytes option \<Rightarrow> bytes option \<Rightarrow> (val \<times> val) result" where
  "find_merge_strategy tree cs p path local_hash remote_hash =
     (let local_entity = hash_entity cs local_hash; remote_entity = hash_entity cs remote_hash;
          types_to_check =
            (case local_entity of None \<Rightarrow> [] | Some e \<Rightarrow> [entity_type e])
            @ (case remote_entity of
                 None \<Rightarrow> []
               | Some r \<Rightarrow>
                   (case local_entity of
                      None \<Rightarrow> [entity_type r]
                    | Some e \<Rightarrow> if entity_type r \<noteq> entity_type e then [entity_type r] else []))
      in bind_r (type_strategy tree cs types_to_check)
           (\<lambda>found. case found of
              Some s \<Rightarrow> Inr s
            | None \<Rightarrow>
                bind_r (matching_merge_configs tree cs (p @ path))
                  (\<lambda>configs. case best_config config_key None configs of
                     None \<Rightarrow> Inr (VStr ''three-way'', VNull)
                   | Some (config, _, _) \<Rightarrow>
                       bind_r (data_get config ''strategy'')
                         (\<lambda>strategy. bind_r (data_get config ''handler'')
                            (\<lambda>handler. if truthy strategy then Inr (strategy, handler)
                                       else Inr (VStr ''three-way'', VNull))))))"

text \<open>Only the configurations that state a resolution compete.\<close>

definition find_deletion_resolution :: "entity_tree \<Rightarrow> rev_store \<Rightarrow> string \<Rightarrow> string \<Rightarrow> string result" where
  "find_deletion_resolution tree cs p path =
     bind_r (matching_merge_configs tree cs (p @ path))
       (\<lambda>configs. bind_r (map_r (\<lambda>(config, pattern, name).
                            bind_r (data_get config ''deletion_resolution'') (\<lambda>dr. Inr (dr, pattern, name))) configs)
          (\<lambda>resolutions.
             case best_config (\<lambda>(_, pattern, name). merge_config_order_key pattern name) None
                    (filter (\<lambda>(dr, _, _). dr \<noteq> VNull) resolutions) of
               None \<Rightarrow> Inr (effective_deletion_resolution VNull)
             | Some (dr, _, _) \<Rightarrow> Inr (effective_deletion_resolution dr)))"


subsection \<open>Facts on patterns\<close>

lemma suffix_last: "suffix (p @ [c]) s \<longleftrightarrow> (\<exists>r. s = r @ p @ [c])"
  by (auto simp: suffix_def)

text \<open>What a pattern with a star means: the star stands for any string, the rest for itself.\<close>

definition star_match :: "string \<Rightarrow> string \<Rightarrow> bool" where
  "star_match pattern subject \<longleftrightarrow>
     (if CHR ''*'' \<notin> set pattern then subject = pattern
      else \<exists>w. subject = takeWhile (\<lambda>c. c \<noteq> CHR ''*'') pattern @ w @ tl (dropWhile (\<lambda>c. c \<noteq> CHR ''*'') pattern))"

lemma star_match_split:
  "CHR ''*'' \<notin> set a \<Longrightarrow> star_match (a @ CHR ''*'' # b) subject \<longleftrightarrow> (\<exists>w. subject = a @ w @ b)"
  by (simp add: star_match_def takeWhile_append dropWhile_append)

lemma glob_match_star:
  assumes "validate_exclude_pattern (VStr p)"
  shows "glob_match p s \<longleftrightarrow> star_match p s"
proof (cases "CHR ''*'' \<in> set p")
  case False
  then have "p \<noteq> ''*''" "\<not> ends_with p ''/*''" "\<not> starts_with p ''*''"
    by (auto simp: suffix_def prefix_def)
  with False show ?thesis by (simp add: glob_match_def star_match_def)
next
  case True
  from assms True have one: "count_list p (CHR ''*'') \<le> 1"
    and form: "p = ''*'' \<or> ends_with p ''/*'' \<or> starts_with p ''*''"
    by (auto simp: validate_exclude_pattern_def split: if_splits)
  consider (all) "p = ''*''" | (subtree) a where "p = a @ ''/*''"
    | (tail) b where "p = CHR ''*'' # b" "\<not> ends_with p ''/*''" "p \<noteq> ''*''"
    using form by (auto simp: suffix_def prefix_def)
  then show ?thesis
  proof cases
    case all
    then show ?thesis by (auto simp: glob_match_def star_match_def)
  next
    case subtree
    then have "CHR ''*'' \<notin> set (a @ ''/'')" using one by (auto simp: count_list_0_iff)
    from star_match_split [OF this, of "[]" s] have "star_match p s \<longleftrightarrow> (\<exists>w. s = (a @ ''/'') @ w)"
      by (simp add: subtree)
    moreover have "glob_match p s \<longleftrightarrow> starts_with s (a @ ''/'')"
      by (simp add: glob_match_def subtree butlast_append suffix_def)
    ultimately show ?thesis by (auto simp: prefix_def)
  next
    case tail
    have "star_match p s \<longleftrightarrow> (\<exists>w. s = w @ b)"
      using star_match_split [of "[]" b s] by (simp add: tail(1))
    moreover have "glob_match p s \<longleftrightarrow> ends_with s b"
      using tail by (simp add: glob_match_def)
    ultimately show ?thesis by (auto simp: suffix_def)
  qed
qed

lemma exclude_covers_sound:
  assumes "exclude_covers patterns req" "starts_with s (rstrip_slash req @ ''/'')"
  shows "matches_any_glob s patterns"
proof -
  from assms(1) obtain pat where pat: "pat \<in> set patterns"
    and "pat = ''*'' \<or> ends_with pat ''/*'' \<and> starts_with (rstrip_slash req @ ''/'') (butlast pat)"
    by (auto simp: exclude_covers_def)
  then have "pat = ''*'' \<or> ends_with pat ''/*'' \<and> starts_with s (butlast pat)"
    using prefix_order.trans [OF _ assms(2)] by blast
  then have "glob_match pat s" by (auto simp: glob_match_def)
  with pat show ?thesis by (auto simp: matches_any_glob_def)
qed

subsection \<open>Facts on the captured bindings\<close>

lemma sorted_drop_prefix:
  "sorted us \<Longrightarrow> \<forall>u \<in> set us. starts_with u p \<Longrightarrow> sorted (map (drop (length p)) us)" for us :: "string list"
proof (induction us)
  case (Cons u us)
  have le: "drop (length p) u \<le> drop (length p) v" if "v \<in> set us" for v
  proof -
    have "u \<le> v" using Cons.prems(1) that by simp
    moreover obtain a where "u = p @ a" using Cons.prems(2) by (auto simp: prefix_def)
    moreover from Cons.prems(2) that have "starts_with v p" by simp
    then obtain b where "v = p @ b" by (rule prefixE)
    ultimately show ?thesis by (simp add: list_le_def list_less_def lexord_append_leftI lexord_same_pref_iff)
  qed
  then show ?case using Cons by simp
qed simp

lemma option_ext: "(\<And>y. a = Some y \<longleftrightarrow> b = Some y) \<Longrightarrow> a = b"
  by (cases a; cases b) auto

lemma drop_prefix: "starts_with u p \<Longrightarrow> p @ drop (length p) u = u"
  by (auto simp: prefix_def)

lemma inj_on_drop_prefix: "\<forall>u \<in> S. starts_with u p \<Longrightarrow> inj_on (drop (length p)) S"
  by (rule inj_on_inverseI [where g = "\<lambda>r. p @ r"]) (simp add: drop_prefix)

lemma listed_under:
  "set (list_prefix t p) = {uri. starts_with uri (normalize_uri (et_local t) p) \<and> uri \<in> fst ` set (et_tree t)}"
  by (auto simp: list_prefix_def)

lemma map_filter_keys:
  assumes "\<And>x y. f x = Some y \<Longrightarrow> fst y = g x"
  shows "map fst (List.map_filter f xs) = map g (filter (\<lambda>x. f x \<noteq> None) xs)"
  using assms by (induction xs) (auto simp: List.map_filter_def)

lemma set_map_filter_iff: "y \<in> set (List.map_filter f xs) \<longleftrightarrow> (\<exists>x \<in> set xs. f x = Some y)"
  by (induction xs) (auto simp: List.map_filter_def)

lemma captured_keys:
  assumes "tree_ok t"
  shows "sorted (map fst (compute_versioned_bindings t cs p c)) \<and> distinct (map fst (compute_versioned_bindings t cs p c))"
proof -
  let ?p = "normalize_uri (et_local t) p"
  let ?e = "case c of None \<Rightarrow> [] | Some c \<Rightarrow> rc_exclude c"
  let ?te = "case c of None \<Rightarrow> [] | Some c \<Rightarrow> rc_exclude_types c"
  let ?f = "versioned_binding t cs ?p ?e ?te"
  let ?us = "filter (\<lambda>u. ?f u \<noteq> None) (list_prefix t ?p)"
  have keys: "map fst (compute_versioned_bindings t cs p c) = map (drop (length ?p)) ?us"
    unfolding compute_versioned_bindings_def Let_def
    by (rule map_filter_keys) (auto simp: versioned_binding_def Let_def split: option.splits if_splits)
  have pre: "\<forall>u \<in> set ?us. starts_with u ?p"
    by (auto simp: listed_under normalize_uri_idem)
  have "sorted ?us" using sorted_filter [of id "list_prefix t ?p"] by (simp add: list_prefix_def Let_def)
  moreover have "distinct (list_prefix t ?p)"
    using assms by (simp add: list_prefix_def Let_def tree_ok_def dict_ok_def)
  moreover have "inj_on (drop (length ?p)) (set ?us)"
    by (rule inj_on_drop_prefix) (rule pre)
  ultimately show ?thesis
    unfolding keys using pre by (auto simp: distinct_map intro: sorted_drop_prefix)
qed


definition excluded :: "rev_store \<Rightarrow> rev_config option \<Rightarrow> string \<Rightarrow> bytes \<Rightarrow> bool" where
  "excluded cs config relative h =
     (case config of
        None \<Rightarrow> False
      | Some c \<Rightarrow> matches_any_glob relative (rc_exclude c)
          \<or> (\<exists>e. cs_get cs h = Some e \<and> matches_any_glob (entity_type e) (rc_exclude_types c)))"

lemma captured_lookup:
  assumes "tree_ok t"
  shows "map_of (compute_versioned_bindings t cs p c) relative = Some h \<longleftrightarrow>
    relative \<noteq> [] \<and> h \<noteq> [] \<and> et_get t (normalize_uri (et_local t) p @ relative) = Some h
    \<and> \<not> excluded cs c relative h"
proof -
  let ?p = "normalize_uri (et_local t) p"
  let ?e = "case c of None \<Rightarrow> [] | Some c \<Rightarrow> rc_exclude c"
  let ?te = "case c of None \<Rightarrow> [] | Some c \<Rightarrow> rc_exclude_types c"
  have exc: "excluded cs c relative h \<longleftrightarrow> matches_any_glob relative ?e
      \<or> ?te \<noteq> [] \<and> (case cs_get cs h of None \<Rightarrow> False | Some e \<Rightarrow> matches_any_glob (entity_type e) ?te)"
    by (auto simp: excluded_def matches_any_glob_def split: option.splits)
  have bind: "versioned_binding t cs ?p ?e ?te u = Some (relative, h) \<longleftrightarrow>
      et_get t u = Some h \<and> h \<noteq> [] \<and> relative = drop (length ?p) u \<and> relative \<noteq> [] \<and> \<not> excluded cs c relative h" for u
    unfolding exc by (auto simp: versioned_binding_def Let_def split: option.splits if_splits)
  have listed: "u \<in> set (list_prefix t ?p) \<longleftrightarrow> starts_with u ?p \<and> u \<in> fst ` set (et_tree t)" for u
    by (auto simp: listed_under normalize_uri_idem)
  have dom: "?p @ relative \<in> fst ` set (et_tree t)" if "et_get t (?p @ relative) = Some h"
  proof -
    have abs: "starts_with (?p @ relative) ''/''"
      using normalize_uri_absolute [of "et_local t" p] by (rule prefix_prefix)
    with that show ?thesis
      by (auto simp: et_get_def normalize_uri_id dest: map_of_SomeD intro: image_eqI [rotated])
  qed
  have "(relative, h) \<in> set (compute_versioned_bindings t cs p c) \<longleftrightarrow>
      (\<exists>u. starts_with u ?p \<and> u \<in> fst ` set (et_tree t) \<and> et_get t u = Some h \<and> h \<noteq> []
         \<and> relative = drop (length ?p) u \<and> relative \<noteq> [] \<and> \<not> excluded cs c relative h)"
    unfolding compute_versioned_bindings_def Let_def set_map_filter_iff bind using listed by blast
  also have "\<dots> \<longleftrightarrow> relative \<noteq> [] \<and> h \<noteq> [] \<and> et_get t (?p @ relative) = Some h \<and> \<not> excluded cs c relative h"
    using dom drop_prefix [where p = ?p] by (auto intro!: exI [of _ "?p @ relative"])
  finally show ?thesis
    using captured_keys [OF assms, of cs p c] by simp
qed

lemma best_config_exact:
  "case best_config key best cs of
     None \<Rightarrow> best = None \<and> cs = []
   | Some c \<Rightarrow> c \<in> set_option best \<union> set cs \<and> (\<forall>c' \<in> set_option best \<union> set cs. key c \<le> key c')"
proof (induction cs arbitrary: best)
  case (Cons c cs)
  let ?b = "case best of None \<Rightarrow> Some c | Some b \<Rightarrow> if key c < key b then Some c else Some b"
  have sub: "set_option ?b \<subseteq> set_option best \<union> {c}" "?b \<noteq> None"
    by (auto split: option.splits)
  have le: "\<forall>x \<in> set_option best \<union> {c}. \<exists>y \<in> set_option ?b. key y \<le> key x"
    by (auto split: option.splits)
  from Cons.IH [of ?b] show ?case
  proof (cases "best_config key ?b cs")
    case None
    with Cons.IH [of ?b] sub show ?thesis by simp
  next
    case (Some x)
    with Cons.IH [of ?b] have x: "x \<in> set_option ?b \<union> set cs" "\<forall>c' \<in> set_option ?b \<union> set cs. key x \<le> key c'"
      by simp_all
    have "key x \<le> key c'" if "c' \<in> set_option best \<union> set (c # cs)" for c'
    proof (cases "c' \<in> set cs")
      case False
      with that le obtain y where "y \<in> set_option ?b" "key y \<le> key c'" by auto
      then show ?thesis using x(2) order_trans by blast
    qed (use x(2) in simp)
    then show ?thesis using x(1) sub(1) by (auto simp: Some)
  qed
qed (simp split: option.split)

subsection \<open>Properties\<close>

text \<open>
  A pattern the validation accepts has one meaning: without a star it is the subject itself, and a star,
  wherever it stands, is any string, \<open>/\<close> included.
\<close>

theorem glob_forms:
  assumes "validate_exclude_pattern (VStr p)"
  shows "glob_match p s \<longleftrightarrow>
    (if CHR ''*'' \<notin> set p then s = p
     else \<exists>w. s = takeWhile (\<lambda>c. c \<noteq> CHR ''*'') p @ w @ tl (dropWhile (\<lambda>c. c \<noteq> CHR ''*'') p))"
  using glob_match_star [OF assms, unfolded star_match_def] .

theorem glob_forms_witness:
  "validate_exclude_pattern (VStr ''tmp/*'') \<and> glob_match ''tmp/*'' ''tmp/a/b''
   \<and> (\<exists>w. ''tmp/a/b'' = takeWhile (\<lambda>c. c \<noteq> CHR ''*'') ''tmp/*'' @ w @ tl (dropWhile (\<lambda>c. c \<noteq> CHR ''*'') ''tmp/*''))"
proof -
  have v: "validate_exclude_pattern (VStr ''tmp/*'')" and g: "glob_match ''tmp/*'' ''tmp/a/b''" by code_simp+
  have "CHR ''*'' \<in> set ''tmp/*''" by simp
  with v g glob_forms [OF v, of "''tmp/a/b''"] show ?thesis by presburger
qed

text \<open>
  What a version of a prefix captures: exactly the paths bound below the prefix, the prefix itself left
  out, whose relative path and whose entity's type no pattern excludes; each once, in ascending order.
\<close>

theorem captured_exact:
  assumes "tree_ok t"
  shows "map_of (compute_versioned_bindings t cs p config) =
      (\<lambda>relative. case et_get t (normalize_uri (et_local t) p @ relative) of
         None \<Rightarrow> None
       | Some h \<Rightarrow> if relative \<noteq> [] \<and> h \<noteq> [] \<and> \<not> excluded cs config relative h then Some h else None)
    \<and> sorted (map fst (compute_versioned_bindings t cs p config))
    \<and> distinct (map fst (compute_versioned_bindings t cs p config))"
proof -
  let ?m = "\<lambda>relative. case et_get t (normalize_uri (et_local t) p @ relative) of
         None \<Rightarrow> None
       | Some h \<Rightarrow> if relative \<noteq> [] \<and> h \<noteq> [] \<and> \<not> excluded cs config relative h then Some h else None"
  have "map_of (compute_versioned_bindings t cs p config) r = Some h \<longleftrightarrow> ?m r = Some h" for r h
    unfolding captured_lookup [OF assms] by (auto split: option.split)
  then have "map_of (compute_versioned_bindings t cs p config) r = ?m r" for r
    by (rule option_ext)
  then have "map_of (compute_versioned_bindings t cs p config) = ?m"
    by (rule ext)
  with captured_keys [OF assms] show ?thesis by blast
qed

definition sample_tree :: entity_tree where
  "sample_tree = et_set ''project/b'' [2] (et_set ''project/tmp/a'' [1] (et_set ''other'' [3] (new_tree ''P'')))"

definition sample_config :: rev_config where
  "sample_config = \<lparr>rc_prefix = ''project/'', rc_auto_version = True, rc_exclude = [''tmp/*''],
     rc_exclude_types = [], rc_merge_order = None, rc_oscillation_depth = None\<rparr>"

lemma new_tree_ok: "tree_ok (new_tree l)"
  by (simp add: tree_ok_def new_tree_def)

theorem captured_exact_witness:
  "compute_versioned_bindings sample_tree [] ''project/'' (Some sample_config) = [(''b'', [2])]
   \<and> sorted (map fst (compute_versioned_bindings sample_tree [] ''project/'' (Some sample_config)))"
proof -
  have "tree_ok sample_tree" unfolding sample_tree_def by (intro tree_ok_set new_tree_ok)
  moreover have "compute_versioned_bindings sample_tree [] ''project/'' (Some sample_config) = [(''b'', [2])]"
    by code_simp
  ultimately show ?thesis using captured_exact [of sample_tree "[]" "''project/''" "Some sample_config"] by simp
qed


text \<open>
  The configuration that decides at a path is one of least key among those that match: the most
  specific form, then the longest pattern. It decides also when it states no strategy, and then the
  merge is three-way.
\<close>

theorem merge_selection_exact:
  assumes "matching_merge_configs t cs (p @ path) = Inr configs"
    and "find_merge_strategy t cs p path None None = Inr (strategy, handler)"
  shows "(configs = [] \<and> strategy = VStr ''three-way'' \<and> handler = VNull)
    \<or> (\<exists>c pattern name s. (c, pattern, name) \<in> set configs
         \<and> (\<forall>c' pattern' name'. (c', pattern', name') \<in> set configs
              \<longrightarrow> merge_config_order_key pattern name \<le> merge_config_order_key pattern' name')
         \<and> data_get c ''strategy'' = Inr s
         \<and> (if truthy s then strategy = s \<and> data_get c ''handler'' = Inr handler
            else strategy = VStr ''three-way'' \<and> handler = VNull))"
proof (cases "best_config config_key None configs")
  case None
  then have "configs = []" using best_config_exact [where key = config_key and best = None and cs = configs] by simp
  with assms None show ?thesis by (simp add: find_merge_strategy_def hash_entity_def)
next
  case (Some b)
  obtain c pattern name where b: "b = (c, pattern, name)" by (cases b)
  have "(c, pattern, name) \<in> set configs"
    "\<forall>x \<in> set configs. config_key (c, pattern, name) \<le> config_key x"
    using best_config_exact [where key = config_key and best = None and cs = configs] by (simp_all add: Some b)
  moreover obtain s h where "data_get c ''strategy'' = Inr s" "data_get c ''handler'' = Inr h"
    and "(if truthy s then (s, h) else (VStr ''three-way'', VNull)) = (strategy, handler)"
    using assms Some b
    by (auto simp: find_merge_strategy_def hash_entity_def bind_r_Inr_iff split: if_splits)
  ultimately show ?thesis
    by (intro disjI2 exI [of _ c] exI [of _ pattern] exI [of _ name] exI [of _ s])
      (auto simp: config_key_def split: if_splits)
qed

text \<open>A tree with two merge configurations, of which the second is the more specific.\<close>

definition merge_entity :: "string \<Rightarrow> string \<Rightarrow> rev_entity stored" where
  "merge_entity pattern strategy =
     OtherEntity (PlainEntity ''system/revision/merge-config''
       (VDict [(''pattern'', VStr pattern), (''strategy'', VStr strategy)]))"

definition merge_store :: rev_store where
  "merge_store = [([1], merge_entity ''*'' ''source-wins''), ([2], merge_entity ''doc/*'' ''keep-both'')]"

definition merge_tree :: entity_tree where
  "merge_tree = et_set ''system/revision/config/merge/path/b'' [2]
     (et_set ''system/revision/config/merge/path/a'' [1] (new_tree ''P''))"

theorem merge_selection_exact_witness:
  "find_merge_strategy merge_tree merge_store ''doc/'' ''x'' None None = Inr (VStr ''keep-both'', VNull)
   \<and> (\<exists>pattern name s. (merge_entity ''doc/*'' ''keep-both'', pattern, name)
        \<in> set [(merge_entity ''*'' ''source-wins'', ''*'', ''a''), (merge_entity ''doc/*'' ''keep-both'', ''doc/*'', ''b'')]
        \<and> data_get (merge_entity ''doc/*'' ''keep-both'') ''strategy'' = Inr s \<and> s = VStr ''keep-both'')"
proof -
  have m: "matching_merge_configs merge_tree merge_store (''doc/'' @ ''x'') =
      Inr [(merge_entity ''*'' ''source-wins'', ''*'', ''a''), (merge_entity ''doc/*'' ''keep-both'', ''doc/*'', ''b'')]"
    by code_simp
  have f: "find_merge_strategy merge_tree merge_store ''doc/'' ''x'' None None = Inr (VStr ''keep-both'', VNull)"
    by code_simp
  have "data_get (merge_entity ''*'' ''source-wins'') ''strategy'' = Inr (VStr ''source-wins'')" by code_simp
  moreover have "data_get (merge_entity ''doc/*'' ''keep-both'') ''strategy'' = Inr (VStr ''keep-both'')" by code_simp
  ultimately show ?thesis
    using merge_selection_exact [OF m f] f by auto
qed

text \<open>The engine's own paths, and configurations that exclude them as the validation asks.\<close>

definition engine_tree :: entity_tree where
  "engine_tree = et_set ''system/revision/ab/head'' [1] (new_tree ''P'')"

definition required_patterns :: "string list" where
  "required_patterns = map (\<lambda>r. r @ ''*'') REQUIRED_EXCLUDE_PATHS"

definition auto_config :: "string \<Rightarrow> string list \<Rightarrow> rev_config" where
  "auto_config p patterns = \<lparr>rc_prefix = p, rc_auto_version = True, rc_exclude = patterns,
     rc_exclude_types = [], rc_merge_order = None, rc_oscillation_depth = None\<rparr>"

text \<open>
  What the validation of an automatic configuration takes to keep the engine's own paths out of the
  versions does so only from the root of the peer's own paths: the validation compares patterns with
  paths of the peer, but a version matches them against the path below its prefix. So with the prefix \<open>system/\<close>, or \<open>/\<close> (which stands for all peers), the required patterns are accepted and
  the versions capture the revision state itself; and with the peer's own absolute prefix nothing is
  required at all.
\<close>

theorem validated_excludes_miss_engine_paths:
  "validate_revision_config (auto_config ''system/'' required_patterns) = []
   \<and> compute_versioned_bindings engine_tree [] ''system/'' (Some (auto_config ''system/'' required_patterns))
       = [(''revision/ab/head'', [1])]
   \<and> validate_revision_config (auto_config ''/'' required_patterns) = []
   \<and> compute_versioned_bindings engine_tree [] ''/'' (Some (auto_config ''/'' required_patterns))
       = [(''P/system/revision/ab/head'', [1])]
   \<and> validate_revision_config (auto_config ''/P/'' []) = []
   \<and> compute_versioned_bindings engine_tree [] ''/P/'' (Some (auto_config ''/P/'' []))
       = [(''system/revision/ab/head'', [1])]"
proof -
  have "validate_revision_config (auto_config ''system/'' required_patterns) = []"
    "compute_versioned_bindings engine_tree [] ''system/'' (Some (auto_config ''system/'' required_patterns))
       = [(''revision/ab/head'', [1])]"
    "validate_revision_config (auto_config ''/'' required_patterns) = []"
    "compute_versioned_bindings engine_tree [] ''/'' (Some (auto_config ''/'' required_patterns))
       = [(''P/system/revision/ab/head'', [1])]"
    "validate_revision_config (auto_config ''/P/'' []) = []"
    "compute_versioned_bindings engine_tree [] ''/P/'' (Some (auto_config ''/P/'' []))
       = [(''system/revision/ab/head'', [1])]"
    by code_simp+
  then show ?thesis by blast
qed

end
