(* ===== verification/Merge.thy ===== *)
theory Merge
  imports Revision_Config Snapshots Emit Hashes
begin

section \<open>Merging versions\<close>

text \<open>
  The three-way merge of \<open>entity_handlers/revision.py\<close> and what surrounds it: deletion markers
  (\<open>types/deletion_marker.py\<close>), the bindings of a version, their difference, the merge of two sets of
  bindings over an ancestor, and the transcription of bindings into the live tree through the emit
  pathway. The order in which Python iterates over a set of paths is arbitrary; here the paths of the
  first set come first, in the order of its dictionary.
\<close>

subsection \<open>The environment\<close>

text \<open>
  What a handler of the extension runs in: the content hash of entities in the peer's own format, the
  routing hash of the trie and the hash of a path entity; the hash of the deletion marker under a format
  code, and the code of the peer's own format; Python's recursion limit; the hooks on the emit pathway;
  and of the handler's context the fields the emit contexts read, the permission check and the dispatch
  to a merge handler. A dispatched call raises (\<open>None\<close>) or answers with \<open>ok\<close> and a result.
\<close>

type_synonym rev_state = "rev_entity stored estate"

record rev_env =
  env_hash :: "rev_entity stored \<Rightarrow> bytes"
  env_route :: "string \<Rightarrow> bytes"
  env_path_hash :: "string \<Rightarrow> bytes"
  env_marker :: "int \<Rightarrow> bytes"
  env_home :: int
  env_limit :: nat
  env_pf :: "rev_entity stored performer"
  env_beh :: "rev_entity stored behaviour"
  env_ctx :: handler_context
  env_permits :: "string \<Rightarrow> string \<Rightarrow> bool"
  env_execute :: "val \<Rightarrow> bytes option \<Rightarrow> bytes option \<Rightarrow> bytes option \<Rightarrow> rev_state \<Rightarrow> (bool \<times> val) option \<times> rev_state"

abbreviation env_emit :: "rev_env \<Rightarrow> string \<Rightarrow> rev_entity stored \<Rightarrow> emit_context \<Rightarrow> rev_state \<Rightarrow> emit_result \<times> rev_state" where
  "env_emit env \<equiv> emit (env_pf env) (env_beh env) (env_hash env)"

abbreviation env_emit_hash :: "rev_env \<Rightarrow> string \<Rightarrow> bytes \<Rightarrow> emit_context \<Rightarrow> rev_state \<Rightarrow> emit_result \<times> rev_state" where
  "env_emit_hash env \<equiv> emit_hash (env_pf env) (env_beh env)"

abbreviation env_delete :: "rev_env \<Rightarrow> string \<Rightarrow> emit_context \<Rightarrow> rev_state \<Rightarrow> emit_result \<times> rev_state" where
  "env_delete env \<equiv> delete_path (env_pf env) (env_beh env)"

abbreviation env_uri :: "rev_state \<Rightarrow> string \<Rightarrow> string" where
  "env_uri st \<equiv> normalize_uri (et_local (es_tree st))"

subsection \<open>Deletion markers\<close>

definition deletion_marker_hash :: "rev_env \<Rightarrow> bytes" where
  "deletion_marker_hash env = env_marker env (env_home env)"

text \<open>Both exceptions that decoding the format code raises are caught.\<close>

definition is_deletion_marker :: "rev_env \<Rightarrow> bytes option \<Rightarrow> bool" where
  "is_deletion_marker env h =
     (case h of
        None \<Rightarrow> False
      | Some b \<Rightarrow>
          (case decode_content_hash_format b of
             Inl e \<Rightarrow> False
           | Inr (code, n) \<Rightarrow> b = env_marker env code))"

subsection \<open>Bindings of a version\<close>

definition get_version_bindings :: "rev_env \<Rightarrow> rev_store \<Rightarrow> bytes \<Rightarrow> (string, bytes) dict option result" where
  "get_version_bindings env cs version_hash =
     (case get_version_entity cs version_hash of
        None \<Rightarrow> Inr None
      | Some v \<Rightarrow>
          (case ve_root v of
             None \<Rightarrow> Inr None
           | Some root_hash \<Rightarrow>
               if root_hash = [] then Inr None
               else bind_r (collect_all_bindings (env_limit env) root_hash [] cs)
                      (\<lambda>flat. Inr (Some (dict_of flat)))))"

record snapshot_diff =
  sd_added :: "(string, bytes) dict"
  sd_removed :: "(string, bytes) dict"
  sd_changed :: "(string, bytes \<times> bytes) dict"
  sd_unchanged :: nat

text \<open>A marker is no binding here: to bind over one is to add, to bind it is to remove.\<close>

fun diff_paths ::
  "rev_env \<Rightarrow> (string, bytes) dict \<Rightarrow> (string, bytes) dict \<Rightarrow> string list \<Rightarrow> snapshot_diff \<Rightarrow> snapshot_diff" where
  "diff_paths env base target [] d = d"
| "diff_paths env base target (path # paths) d =
     (let base_h = map_of base path; target_h = map_of target path;
          base_is_marker = is_deletion_marker env base_h; target_is_marker = is_deletion_marker env target_h;
          base_present = base_h \<noteq> None \<and> \<not> base_is_marker;
          target_present = target_h \<noteq> None \<and> \<not> target_is_marker
      in diff_paths env base target paths
           (if base_present \<and> target_present
            then (if base_h = target_h then d\<lparr>sd_unchanged := sd_unchanged d + 1\<rparr>
                  else d\<lparr>sd_changed := AList.update path (the base_h, the target_h) (sd_changed d)\<rparr>)
            else if target_present \<and> \<not> base_present
            then d\<lparr>sd_added := AList.update path (the target_h) (sd_added d)\<rparr>
            else if base_present \<and> \<not> target_present
            then d\<lparr>sd_removed := AList.update path (the base_h) (sd_removed d)\<rparr>
            else if base_is_marker \<and> target_is_marker then d\<lparr>sd_unchanged := sd_unchanged d + 1\<rparr>
            else d))"

definition compute_snapshot_diff ::
  "rev_env \<Rightarrow> (string, bytes) dict \<Rightarrow> (string, bytes) dict \<Rightarrow> snapshot_diff" where
  "compute_snapshot_diff env base target =
     diff_paths env base target (remdups (map fst base @ map fst target))
       \<lparr>sd_added = [], sd_removed = [], sd_changed = [], sd_unchanged = 0\<rparr>"

subsection \<open>Dispatch to a merge handler\<close>

text \<open>
  Whatever goes wrong is \<open>None\<close>: a call that raises or fails, a result without \<open>resolved\<close>, an \<open>entity\<close> that is
  no hash or that the store does not have.
\<close>

definition dispatch_merge_handler ::
  "rev_env \<Rightarrow> val \<Rightarrow> bytes option \<Rightarrow> bytes option \<Rightarrow> bytes option \<Rightarrow> rev_state \<Rightarrow> bytes option \<times> rev_state" where
  "dispatch_merge_handler env handler_path ancestor_h local_h remote_h st =
     (case env_execute env handler_path ancestor_h local_h remote_h st of
        (None, st') \<Rightarrow> (None, st')
      | (Some (ok, answer), st') \<Rightarrow>
          (if \<not> ok then None
           else
             case answer of
               VDict d \<Rightarrow>
                 (case dict_get d ''data'' of
                    VDict data \<Rightarrow>
                      if \<not> truthy (dict_get data ''resolved'') then None
                      else (case dict_get data ''entity'' of
                              VBytes merged_hash \<Rightarrow>
                                if cs_get (es_store st') merged_hash = None then None else Some merged_hash
                            | _ \<Rightarrow> None)
                  | _ \<Rightarrow> None)
             | _ \<Rightarrow> None, st'))"

subsection \<open>The merge of one path\<close>

text \<open>
  What a path gets: a binding in the merge, whether it is a conflict (of the three hashes), and the
  bindings beside it.
\<close>

record path_merge =
  pm_merged :: "bytes option"
  pm_conflict :: bool
  pm_extra :: "(string \<times> bytes) list"

definition bound_to :: "bytes option \<Rightarrow> path_merge" where
  "bound_to h = \<lparr>pm_merged = (case h of None \<Rightarrow> None | Some b \<Rightarrow> if b = [] then None else Some b),
     pm_conflict = False, pm_extra = []\<rparr>"

definition conflict_keeping :: "bytes option \<Rightarrow> path_merge" where
  "conflict_keeping local_h = (bound_to local_h)\<lparr>pm_conflict := True\<rparr>"

text \<open>Exactly one side is a deletion marker: the resolution of the path decides. The last arm cannot be reached.\<close>

definition resolve_deletion :: "rev_env \<Rightarrow> string \<Rightarrow> bytes \<Rightarrow> bytes \<Rightarrow> path_merge" where
  "resolve_deletion env dr local_h remote_h =
     (let entity_h = (if is_deletion_marker env (Some local_h) then remote_h else local_h);
          bound = (\<lambda>h. \<lparr>pm_merged = Some h, pm_conflict = False, pm_extra = []\<rparr>)
      in if dr = ''preserve-on-conflict'' then bound entity_h
         else if dr = ''deletion-wins'' then bound (deletion_marker_hash env)
         else if dr = ''three-way-fallthrough'' then conflict_keeping (Some local_h)
         else if dr = ''deterministic'' then bound (min local_h remote_h)
         else bound entity_h)"

definition apply_strategy ::
  "rev_env \<Rightarrow> val \<Rightarrow> val \<Rightarrow> string \<Rightarrow> bytes option \<Rightarrow> bytes option \<Rightarrow> bytes option \<Rightarrow> rev_state \<Rightarrow> path_merge \<times> rev_state" where
  "apply_strategy env effective handler_path path ancestor_h local_h remote_h st =
     (if effective = VStr MERGE_STRATEGY_HANDLER
      then
        (case (if truthy handler_path
               then dispatch_merge_handler env handler_path ancestor_h local_h remote_h st else (None, st)) of
           (Some merged_h, st') \<Rightarrow> (\<lparr>pm_merged = Some merged_h, pm_conflict = False, pm_extra = []\<rparr>, st')
         | (None, st') \<Rightarrow> (conflict_keeping local_h, st'))
      else if effective = VStr ''keep-both'' \<and> local_h \<noteq> None \<and> remote_h \<noteq> None
      then (\<lparr>pm_merged = local_h, pm_conflict = False,
             pm_extra = [(path @ ''.keep-both-'' @ hex (take 4 (the remote_h)), the remote_h)]\<rparr>, st)
      else if effective = VStr ''source-wins'' then (bound_to remote_h, st)
      else if effective = VStr ''target-wins'' then (bound_to local_h, st)
      else (conflict_keeping local_h, st))"

definition merge_path ::
  "rev_env \<Rightarrow> string \<Rightarrow> string \<Rightarrow> string \<Rightarrow> bytes option \<Rightarrow> bytes option \<Rightarrow> bytes option \<Rightarrow> rev_state
     \<Rightarrow> path_merge result \<times> rev_state" where
  "merge_path env strategy p path ancestor_h local_h remote_h st =
     (if local_h = remote_h then (Inr (bound_to local_h), st)
      else if strategy = ''source-wins'' then (Inr (bound_to remote_h), st)
      else if strategy = ''target-wins'' then (Inr (bound_to local_h), st)
      else if local_h = ancestor_h then (Inr (bound_to remote_h), st)
      else if remote_h = ancestor_h then (Inr (bound_to local_h), st)
      else if local_h \<noteq> None \<and> remote_h \<noteq> None
        \<and> is_deletion_marker env local_h \<noteq> is_deletion_marker env remote_h
      then (bind_r (find_deletion_resolution (es_tree st) (es_store st) p path)
              (\<lambda>dr. Inr (resolve_deletion env dr (the local_h) (the remote_h))), st)
      else
        (case (if strategy \<noteq> ''three-way'' then Inr (VStr strategy, VNull)
               else find_merge_strategy (es_tree st) (es_store st) p path local_h remote_h) of
           Inl e \<Rightarrow> (Inl e, st)
         | Inr (effective, handler_path) \<Rightarrow>
             map_prod Inr id (apply_strategy env effective handler_path path ancestor_h local_h remote_h st)))"

subsection \<open>The merge of all paths\<close>

record merged =
  mg_bindings :: "(string, bytes) dict"
  mg_conflicts :: "(string, bytes option \<times> bytes option \<times> bytes option) dict"
  mg_extra :: "(string \<times> bytes) list"

definition add_path :: "string \<Rightarrow> bytes option \<Rightarrow> bytes option \<Rightarrow> bytes option \<Rightarrow> path_merge \<Rightarrow> merged \<Rightarrow> merged" where
  "add_path path a l r m acc =
     \<lparr>mg_bindings = (case pm_merged m of None \<Rightarrow> mg_bindings acc | Some h \<Rightarrow> AList.update path h (mg_bindings acc)),
      mg_conflicts = (if pm_conflict m then AList.update path (a, l, r) (mg_conflicts acc) else mg_conflicts acc),
      mg_extra = mg_extra acc @ pm_extra m\<rparr>"

fun merge_paths ::
  "rev_env \<Rightarrow> string \<Rightarrow> string \<Rightarrow> (string, bytes) dict \<Rightarrow> (string, bytes) dict \<Rightarrow> (string, bytes) dict
     \<Rightarrow> string list \<Rightarrow> merged \<Rightarrow> rev_state \<Rightarrow> merged result \<times> rev_state" where
  "merge_paths env strategy p anc loc rem [] acc st = (Inr acc, st)"
| "merge_paths env strategy p anc loc rem (path # paths) acc st =
     and_then (merge_path env strategy p path (map_of anc path) (map_of loc path) (map_of rem path) st)
       (\<lambda>m st'. merge_paths env strategy p anc loc rem paths
          (add_path path (map_of anc path) (map_of loc path) (map_of rem path) m acc) st')"

definition merge_bindings ::
  "rev_env \<Rightarrow> (string, bytes) dict \<Rightarrow> (string, bytes) dict \<Rightarrow> (string, bytes) dict \<Rightarrow> string \<Rightarrow> string
     \<Rightarrow> rev_state \<Rightarrow> merged result \<times> rev_state" where
  "merge_bindings env ancestor_bindings local_bindings remote_bindings strategy p st =
     merge_paths env strategy p ancestor_bindings local_bindings remote_bindings
       (remdups (map fst local_bindings @ map fst remote_bindings))
       \<lparr>mg_bindings = [], mg_conflicts = [], mg_extra = []\<rparr> st"

subsection \<open>Transcription into the live tree\<close>

datatype warning_code = CascadeHalt int | WriteRejected int

record cascade_warning =
  cw_path :: string
  cw_consumer :: string
  cw_code :: warning_code

record applied =
  ap_applied :: nat
  ap_removed :: nat
  ap_warnings :: "cascade_warning list"

definition halt_warning :: "string \<Rightarrow> emit_result \<Rightarrow> cascade_warning list" where
  "halt_warning relative r =
     (if er_status r = 207
      then (case er_halted r of
              None \<Rightarrow> []
            | Some i \<Rightarrow> [\<lparr>cw_path = relative, cw_consumer = hi_name i, cw_code = CascadeHalt (hi_status i)\<rparr>])
      else [])"

definition write_warning :: "string \<Rightarrow> emit_result \<Rightarrow> cascade_warning list" where
  "write_warning relative r =
     (if er_status r = 207 \<and> er_halted r \<noteq> None then halt_warning relative r
      else if 400 \<le> er_status r
      then [\<lparr>cw_path = relative, cw_consumer = [], cw_code = WriteRejected (er_status r)\<rparr>]
      else [])"

text \<open>A marker is translated to an unbind, and only of a path that is bound.\<close>

fun apply_each ::
  "rev_env \<Rightarrow> string \<Rightarrow> emit_context \<Rightarrow> (string \<times> bytes) list \<Rightarrow> applied \<Rightarrow> rev_state \<Rightarrow> applied \<times> rev_state" where
  "apply_each env p ctx [] acc st = (acc, st)"
| "apply_each env p ctx ((relative, h) # bindings) acc st =
     (let uri = env_uri st (p @ relative) in
      if is_deletion_marker env (Some h)
      then
        (if et_get (es_tree st) uri \<noteq> None
         then (case env_delete env uri ctx st of
                 (r, st') \<Rightarrow> apply_each env p ctx bindings
                   (acc\<lparr>ap_removed := ap_removed acc + 1, ap_warnings := ap_warnings acc @ halt_warning relative r\<rparr>) st')
         else apply_each env p ctx bindings (acc\<lparr>ap_removed := ap_removed acc + 1\<rparr>) st)
      else
        (case env_emit_hash env uri h ctx st of
           (r, st') \<Rightarrow> apply_each env p ctx bindings
             (acc\<lparr>ap_applied := ap_applied acc + 1, ap_warnings := ap_warnings acc @ write_warning relative r\<rparr>) st'))"

fun remove_each ::
  "rev_env \<Rightarrow> string \<Rightarrow> emit_context \<Rightarrow> string list \<Rightarrow> applied \<Rightarrow> rev_state \<Rightarrow> applied \<times> rev_state" where
  "remove_each env p ctx [] acc st = (acc, st)"
| "remove_each env p ctx (relative # paths) acc st =
     (case env_delete env (env_uri st (p @ relative)) ctx st of
        (r, st') \<Rightarrow> remove_each env p ctx paths
          (acc\<lparr>ap_removed := ap_removed acc + 1, ap_warnings := ap_warnings acc @ halt_warning relative r\<rparr>) st')"

definition apply_bindings_to_tree ::
  "rev_env \<Rightarrow> (string, bytes) dict \<Rightarrow> string \<Rightarrow> emit_context \<Rightarrow> bool \<Rightarrow> rev_state \<Rightarrow> applied \<times> rev_state" where
  "apply_bindings_to_tree env bindings p ctx preserve_unknown st =
     (let current_data_paths = filter (\<lambda>r. \<not> starts_with r ''system/'') (list_prefix_relative (es_tree st) p) in
      case apply_each env p ctx bindings \<lparr>ap_applied = 0, ap_removed = 0, ap_warnings = []\<rparr> st of
        (acc, st1) \<Rightarrow>
          if preserve_unknown then (acc, st1)
          else remove_each env p ctx (filter (\<lambda>r. r \<notin> fst ` set bindings) current_data_paths) acc st1)"


subsection \<open>Facts on the loops\<close>

lemma decode_format_errors:
  "decode_content_hash_format h = Inl e \<Longrightarrow> e = ValueError \<or> e = UnsupportedHashFormat"
proof -
  have loop: "dec_loop xs i n v s m = Inl e \<Longrightarrow> e = ValueError" for xs i n v s m
  proof (induction xs i n v s m rule: dec_loop.induct)
    case (1 xs i n v s m)
    show ?case
      using 1(2) 1(1) [OF _ _ refl refl] by (subst (asm) dec_loop.simps) (auto simp: Let_def split: if_splits)
  qed
  assume "decode_content_hash_format h = Inl e"
  then show ?thesis
    by (auto simp: decode_content_hash_format_def decode_leb128_def exn_simps dest!: loop split: if_splits)
qed

lemma map_of_rev_distinct: "distinct (map fst kvs) \<Longrightarrow> map_of (rev kvs) = map_of kvs"
  by (subst map_of_inject_set) (simp_all add: rev_map [symmetric])

text \<open>Where the merge of each path is a function of it, the loop collects that function.\<close>

lemma merge_paths_collect:
  assumes "\<And>path. path \<in> set paths \<Longrightarrow>
      merge_path env strategy p path (map_of anc path) (map_of loc path) (map_of rem path) st = (Inr (f path), st)"
    and "distinct paths"
  shows "\<exists>m. merge_paths env strategy p anc loc rem paths acc st = (Inr m, st)
    \<and> map_of (mg_bindings m) = (\<lambda>k. if k \<in> set paths \<and> pm_merged (f k) \<noteq> None then pm_merged (f k) else map_of (mg_bindings acc) k)
    \<and> map_of (mg_conflicts m) = (\<lambda>k. if k \<in> set paths \<and> pm_conflict (f k)
         then Some (map_of anc k, map_of loc k, map_of rem k) else map_of (mg_conflicts acc) k)
    \<and> mg_extra m = mg_extra acc @ concat (map (\<lambda>k. pm_extra (f k)) paths)"
  using assms
proof (induction paths arbitrary: acc)
  case Nil
  then show ?case by auto
next
  case (Cons path paths)
  let ?acc = "add_path path (map_of anc path) (map_of loc path) (map_of rem path) (f path) acc"
  from Cons.IH [of ?acc] Cons.prems obtain m where
    m: "merge_paths env strategy p anc loc rem paths ?acc st = (Inr m, st)"
    "map_of (mg_bindings m) = (\<lambda>k. if k \<in> set paths \<and> pm_merged (f k) \<noteq> None then pm_merged (f k) else map_of (mg_bindings ?acc) k)"
    "map_of (mg_conflicts m) = (\<lambda>k. if k \<in> set paths \<and> pm_conflict (f k)
         then Some (map_of anc k, map_of loc k, map_of rem k) else map_of (mg_conflicts ?acc) k)"
    "mg_extra m = mg_extra ?acc @ concat (map (\<lambda>k. pm_extra (f k)) paths)"
    by (metis (no_types, lifting) distinct.simps(2) list.set_intros(2))
  have "path \<notin> set paths" using Cons.prems(2) by simp
  moreover have "merge_paths env strategy p anc loc rem (path # paths) acc st = (Inr m, st)"
    using Cons.prems(1) [of path] m(1) by simp
  ultimately show ?case
    using m(2-4) by (intro exI [of _ m]) (auto simp: add_path_def update_conv' fun_eq_iff split: option.splits)
qed

subsection \<open>The three-way merge in the abstract\<close>

text \<open>
  Of one path bound to \<open>a\<close> in the ancestor, \<open>l\<close> and \<open>r\<close> on the two sides: what the two sides agree on; else
  what the side that changed it says; else, when one side deletes and the other edits, the edit; else a
  conflict, which keeps the local binding.
\<close>

definition three_way ::
  "(bytes option \<Rightarrow> bool) \<Rightarrow> bytes option \<Rightarrow> bytes option \<Rightarrow> bytes option \<Rightarrow> bytes option" where
  "three_way marker a l r =
     (if l = r \<or> r = a then l else if l = a then r
      else if l \<noteq> None \<and> r \<noteq> None \<and> marker l \<and> \<not> marker r then r else l)"

definition conflicting ::
  "(bytes option \<Rightarrow> bool) \<Rightarrow> bytes option \<Rightarrow> bytes option \<Rightarrow> bytes option \<Rightarrow> bool" where
  "conflicting marker a l r \<longleftrightarrow>
     l \<noteq> r \<and> l \<noteq> a \<and> r \<noteq> a \<and> (l = None \<or> r = None \<or> marker l = marker r)"

text \<open>No configuration says otherwise.\<close>

definition plain_merge :: "rev_env \<Rightarrow> string \<Rightarrow> rev_state \<Rightarrow> bool" where
  "plain_merge env p st \<longleftrightarrow>
     (\<forall>path l r. find_merge_strategy (es_tree st) (es_store st) p path l r = Inr (VStr ''three-way'', VNull))
     \<and> (\<forall>path. find_deletion_resolution (es_tree st) (es_store st) p path = Inr DELETION_RESOLUTION_DEFAULT)"

lemma plain_merge_path:
  assumes "plain_merge env p st" "a \<noteq> Some []" "l \<noteq> Some []" "r \<noteq> Some []"
  shows "merge_path env ''three-way'' p path a l r st =
    (Inr \<lparr>pm_merged = three_way (is_deletion_marker env) a l r,
          pm_conflict = conflicting (is_deletion_marker env) a l r, pm_extra = []\<rparr>, st)"
proof -
  have bound: "bound_to h = \<lparr>pm_merged = h, pm_conflict = False, pm_extra = []\<rparr>" if "h \<noteq> Some []" for h
    using that by (cases h) (auto simp: bound_to_def)
  show ?thesis
    using assms
    by (auto simp: merge_path_def plain_merge_def three_way_def conflicting_def bound conflict_keeping_def
        apply_strategy_def MERGE_STRATEGY_HANDLER_def resolve_deletion_def DELETION_RESOLUTION_DEFAULT_def Let_def)
qed

text \<open>A tree without merge configurations is plain.\<close>

lemma no_config_plain:
  assumes "tree_ok (es_tree st)"
    and "\<And>uri. uri \<in> fst ` set (et_tree (es_tree st)) \<Longrightarrow>
      \<not> starts_with uri (env_uri st ''system/revision/config/merge/'')"
  shows "plain_merge env p st"
proof -
  let ?t = "es_tree st"
  have under: "\<exists>w. env_uri st (''system/revision/config/merge/'' @ x) = env_uri st ''system/revision/config/merge/'' @ x" for x
    by (auto simp: normalize_uri_def ENTITY_SCHEME_def find_from_def Let_def)
  have none: "et_get ?t (env_uri st (''system/revision/config/merge/'' @ x)) = None" for x
  proof (rule ccontr)
    assume "et_get ?t (env_uri st (''system/revision/config/merge/'' @ x)) \<noteq> None"
    then have "env_uri st (''system/revision/config/merge/'' @ x) \<in> fst ` set (et_tree ?t)"
      by (auto simp: et_get_def normalize_uri_idem dest: map_of_SomeD intro: image_eqI [rotated])
    with assms(2) under [of x] show False by (auto simp: prefix_def)
  qed
  have "list_prefix ?t (env_uri st MERGE_CONFIG_PATH_PREFIX) = []"
  proof -
    have no: "\<not> starts_with u (env_uri st MERGE_CONFIG_PATH_PREFIX)" if "u \<in> fst ` set (et_tree ?t)" for u
      using assms(2) [OF that] under [of "''path/''"] prefix_prefix
      by (auto simp: MERGE_CONFIG_PATH_PREFIX_def prefix_def)
    have "set (list_prefix ?t (env_uri st MERGE_CONFIG_PATH_PREFIX)) = {}"
      unfolding listed_under normalize_uri_idem using no by blast
    then show ?thesis by simp
  qed
  then have match: "matching_merge_configs ?t (es_store st) x = Inr []" for x
    by (simp add: matching_merge_configs_def)
  have "get_entity_at_path ?t (es_store st) (MERGE_CONFIG_TYPE_PREFIX @ ty) = None" for ty
    using none [of "''type/'' @ ty"]
    by (simp add: get_entity_at_path_def get_hash_at_path_def MERGE_CONFIG_TYPE_PREFIX_def)
  then have "type_strategy ?t (es_store st) tys = Inr None" for tys
    by (induction tys) simp_all
  then show ?thesis
    by (simp add: plain_merge_def find_merge_strategy_def find_deletion_resolution_def match
        effective_deletion_resolution_def)
qed




text \<open>What the abstract merge promises: it is symmetric but for what a conflict keeps, and takes every path from a side.\<close>

lemma three_way_laws:
  "conflicting marker a l r = conflicting marker a r l"
  "\<not> conflicting marker a l r \<Longrightarrow> three_way marker a l r = three_way marker a r l"
  "three_way marker a l r \<in> {l, r}"
  "\<not> conflicting marker a l r \<Longrightarrow> l \<noteq> a \<Longrightarrow>
     three_way marker a l r = l \<or> three_way marker a l r = r \<and> r \<noteq> a \<and> marker l \<and> \<not> marker r"
  by (cases l; cases r; auto simp: three_way_def conflicting_def)+

lemma merge_obtain:
  assumes "plain_merge env p st" "distinct (map fst loc)" "distinct (map fst rem)"
    and "[] \<notin> ran (map_of anc) \<union> ran (map_of loc) \<union> ran (map_of rem)"
  obtains m where "merge_bindings env anc loc rem ''three-way'' p st = (Inr m, st)"
    "map_of (mg_bindings m) = (\<lambda>k. three_way (is_deletion_marker env) (map_of anc k) (map_of loc k) (map_of rem k))"
    "map_of (mg_conflicts m) = (\<lambda>k. if conflicting (is_deletion_marker env) (map_of anc k) (map_of loc k) (map_of rem k)
         then Some (map_of anc k, map_of loc k, map_of rem k) else None)"
    "mg_extra m = []"
proof -
  let ?mk = "is_deletion_marker env"
  let ?f = "\<lambda>k. \<lparr>pm_merged = three_way ?mk (map_of anc k) (map_of loc k) (map_of rem k),
     pm_conflict = conflicting ?mk (map_of anc k) (map_of loc k) (map_of rem k), pm_extra = []\<rparr>"
  let ?paths = "remdups (map fst loc @ map fst rem)"
  let ?acc = "\<lparr>mg_bindings = [], mg_conflicts = [], mg_extra = []\<rparr>"
  have "merge_path env ''three-way'' p k (map_of anc k) (map_of loc k) (map_of rem k) st = (Inr (?f k), st)" for k
    by (rule plain_merge_path [OF assms(1)]) (use assms(4) in \<open>auto simp: ran_def\<close>)
  moreover have "distinct ?paths" by simp
  ultimately obtain m where m: "merge_paths env ''three-way'' p anc loc rem ?paths ?acc st = (Inr m, st)"
    "map_of (mg_bindings m) = (\<lambda>k. if k \<in> set ?paths \<and> pm_merged (?f k) \<noteq> None then pm_merged (?f k) else map_of (mg_bindings ?acc) k)"
    "map_of (mg_conflicts m) = (\<lambda>k. if k \<in> set ?paths \<and> pm_conflict (?f k)
         then Some (map_of anc k, map_of loc k, map_of rem k) else map_of (mg_conflicts ?acc) k)"
    "mg_extra m = mg_extra ?acc @ concat (map (\<lambda>k. pm_extra (?f k)) ?paths)"
    using merge_paths_collect [where f = ?f and acc = ?acc and paths = ?paths and env = env
        and strategy = "''three-way''" and p = p and anc = anc and loc = loc and rem = rem and st = st] by blast
  have out: "map_of loc k = None \<and> map_of rem k = None" if "k \<notin> set ?paths" for k
    using that by (simp add: map_of_eq_None_iff)
  then have "three_way ?mk (map_of anc k) (map_of loc k) (map_of rem k) = None
      \<and> \<not> conflicting ?mk (map_of anc k) (map_of loc k) (map_of rem k)" if "k \<notin> set ?paths" for k
    using that by (simp add: three_way_def conflicting_def)
  then show ?thesis
    by (intro that [of m]) (use m in \<open>auto simp: fun_eq_iff merge_bindings_def simp del: set_remdups\<close>)
qed

subsection \<open>Properties of the merge\<close>

text \<open>
  C20. Without configuration, the merge of two sets of bindings is the abstract three-way merge of every path
  of either side: no other path is bound, exactly the conflicting paths are reported, with the three
  hashes, and nothing is bound beside them. The state is untouched.
\<close>

theorem merge_is_three_way:
  assumes "plain_merge env p st" "distinct (map fst loc)" "distinct (map fst rem)"
    and "[] \<notin> ran (map_of anc) \<union> ran (map_of loc) \<union> ran (map_of rem)"
  shows "\<exists>m. merge_bindings env anc loc rem ''three-way'' p st = (Inr m, st)
    \<and> map_of (mg_bindings m) = (\<lambda>k. three_way (is_deletion_marker env) (map_of anc k) (map_of loc k) (map_of rem k))
    \<and> map_of (mg_conflicts m) = (\<lambda>k. if conflicting (is_deletion_marker env) (map_of anc k) (map_of loc k) (map_of rem k)
         then Some (map_of anc k, map_of loc k, map_of rem k) else None)
    \<and> mg_extra m = []"
  by (rule merge_obtain [OF assms]) blast

text \<open>
  C21. The plain three-way merge is symmetric and takes every path from a side. Swapping the sides gives conflicts on
  the same paths and, outside them, the same bindings. A path that is no conflict gets the binding of one of the
  sides. A side that changed it gets its own, with one exception: a deletion loses, without a conflict, to an edit
  of the other side. Stated for a merge without configured strategies or deletion resolutions.
\<close>

theorem merge_symmetric_two_sided:
  assumes "plain_merge env p st" "distinct (map fst loc)" "distinct (map fst rem)"
    and "[] \<notin> ran (map_of anc) \<union> ran (map_of loc) \<union> ran (map_of rem)"
  shows "\<exists>m m'. merge_bindings env anc loc rem ''three-way'' p st = (Inr m, st)
    \<and> merge_bindings env anc rem loc ''three-way'' p st = (Inr m', st)
    \<and> dom (map_of (mg_conflicts m)) = dom (map_of (mg_conflicts m'))
    \<and> (\<forall>k. k \<in> dom (map_of (mg_conflicts m))
         \<or> map_of (mg_bindings m) k = map_of (mg_bindings m') k
           \<and> map_of (mg_bindings m) k \<in> {map_of loc k, map_of rem k}
           \<and> (map_of loc k = map_of anc k \<or> map_of (mg_bindings m) k = map_of loc k
              \<or> map_of (mg_bindings m) k = map_of rem k \<and> map_of rem k \<noteq> map_of anc k
                \<and> is_deletion_marker env (map_of loc k) \<and> \<not> is_deletion_marker env (map_of rem k)))"
proof -
  obtain m where m: "merge_bindings env anc loc rem ''three-way'' p st = (Inr m, st)"
    "map_of (mg_bindings m) = (\<lambda>k. three_way (is_deletion_marker env) (map_of anc k) (map_of loc k) (map_of rem k))"
    "map_of (mg_conflicts m) = (\<lambda>k. if conflicting (is_deletion_marker env) (map_of anc k) (map_of loc k) (map_of rem k)
         then Some (map_of anc k, map_of loc k, map_of rem k) else None)"
    by (rule merge_obtain [OF assms])
  have "[] \<notin> ran (map_of anc) \<union> ran (map_of rem) \<union> ran (map_of loc)" using assms(4) by blast
  then obtain m' where m': "merge_bindings env anc rem loc ''three-way'' p st = (Inr m', st)"
    "map_of (mg_bindings m') = (\<lambda>k. three_way (is_deletion_marker env) (map_of anc k) (map_of rem k) (map_of loc k))"
    "map_of (mg_conflicts m') = (\<lambda>k. if conflicting (is_deletion_marker env) (map_of anc k) (map_of rem k) (map_of loc k)
         then Some (map_of anc k, map_of rem k, map_of loc k) else None)"
    by (rule merge_obtain [OF assms(1,3,2)])
  let ?c = "\<lambda>k. conflicting (is_deletion_marker env) (map_of anc k) (map_of loc k) (map_of rem k)"
  let ?t = "\<lambda>k. three_way (is_deletion_marker env) (map_of anc k) (map_of loc k) (map_of rem k)"
  have dom: "dom (map_of (mg_conflicts m)) = {k. ?c k}" by (auto simp: m(3) split: if_splits)
  have dom': "dom (map_of (mg_conflicts m')) = {k. ?c k}"
    by (auto simp: m'(3) three_way_laws(1) [of _ _ "map_of rem _"] split: if_splits)
  have "?t k = map_of (mg_bindings m') k \<and> ?t k \<in> {map_of loc k, map_of rem k}
           \<and> (map_of loc k = map_of anc k \<or> ?t k = map_of loc k
              \<or> ?t k = map_of rem k \<and> map_of rem k \<noteq> map_of anc k
                \<and> is_deletion_marker env (map_of loc k) \<and> \<not> is_deletion_marker env (map_of rem k))"
    if "\<not> ?c k" for k
    using three_way_laws(2) [OF that] three_way_laws(4) [OF that] three_way_laws(3) [of "is_deletion_marker env"]
    unfolding m'(2) by blast
  then show ?thesis
    by (intro exI [of _ m] exI [of _ m'] conjI m(1) m'(1) allI) (simp only: dom dom', unfold m(2) dom, blast)
qed


text \<open>An environment to evaluate in: no format is the marker's but 0, where the marker is \<open>[0, 9]\<close>.\<close>

definition sample_context :: handler_context where
  "sample_context = \<lparr>hc_remote_peer_id = None, hc_chain_id = None, hc_parent_chain_id = None, hc_bounds = None,
     hc_caller_capability_hash = None, hc_handler_grant_hash = None, hc_handler_pattern = None,
     hc_remote_identity_hash = None\<rparr>"

definition sample_env :: "(rev_entity stored \<Rightarrow> bytes) \<Rightarrow> rev_env" where
  "sample_env hsh = \<lparr>env_hash = hsh, env_route = toy_route, env_path_hash = (\<lambda>_. [5]), env_marker = (\<lambda>_. [0, 9]),
     env_home = 0, env_limit = 100, env_pf = (\<lambda>a st. (Inl RecursionError, st)), env_beh = (\<lambda>_ _ _. Raise),
     env_ctx = sample_context, env_permits = (\<lambda>_ _. True), env_execute = (\<lambda>_ _ _ _ st. (None, st))\<rparr>"

definition empty_state :: rev_state where
  "empty_state = \<lparr>es_store = [], es_tree = new_tree ''P'', es_subs = [], es_hooks = [], es_depth = 0, es_stack = [],
     es_owners = [], es_chain_depth = [], es_loop = False, es_tasks = []\<rparr>"

lemma empty_state_plain: "plain_merge env p empty_state"
  by (rule no_config_plain) (simp_all add: empty_state_def new_tree_def tree_ok_def)

theorem merge_is_three_way_witness:
  "\<exists>m. merge_bindings (sample_env (\<lambda>_. [])) [(''a'', [1]), (''b'', [2])] [(''a'', [3]), (''b'', [0, 9])]
        [(''a'', [1]), (''b'', [4])] ''three-way'' [] empty_state = (Inr m, empty_state)
    \<and> map_of (mg_bindings m) ''a'' = Some [3] \<and> map_of (mg_bindings m) ''b'' = Some [4]
    \<and> map_of (mg_conflicts m) ''b'' = None"
proof -
  have d: "decode_content_hash_format [0, 9] = Inr (0, 1)" "decode_content_hash_format [4] = Inl UnsupportedHashFormat"
    by code_simp+
  have mk: "is_deletion_marker (sample_env (\<lambda>_. [])) (Some [0, 9])" "\<not> is_deletion_marker (sample_env (\<lambda>_. [])) (Some [4])"
    by (simp_all add: is_deletion_marker_def d sample_env_def)
  from merge_is_three_way [OF empty_state_plain, of "[(''a'', [3]), (''b'', [0, 9])]" "[(''a'', [1]), (''b'', [4])]"
      "[(''a'', [1]), (''b'', [2])]" "sample_env (\<lambda>_. [])" "[]"]
  show ?thesis by (auto simp: three_way_def conflicting_def mk)
qed

theorem merge_symmetric_two_sided_witness:
  "\<exists>m m'. merge_bindings (sample_env (\<lambda>_. [])) [] [(''a'', [3])] [(''a'', [1])] ''three-way'' [] empty_state = (Inr m, empty_state)
    \<and> merge_bindings (sample_env (\<lambda>_. [])) [] [(''a'', [1])] [(''a'', [3])] ''three-way'' [] empty_state = (Inr m', empty_state)
    \<and> dom (map_of (mg_conflicts m)) = dom (map_of (mg_conflicts m'))"
  using merge_symmetric_two_sided [OF empty_state_plain, of "[(''a'', [3])]" "[(''a'', [1])]" "[]" "sample_env (\<lambda>_. [])" "[]"]
  by auto


subsection \<open>The difference of two versions\<close>

definition live :: "rev_env \<Rightarrow> (string \<Rightarrow> bytes option) \<Rightarrow> string \<Rightarrow> bytes option" where
  "live env m k = (if is_deletion_marker env (m k) then None else m k)"

lemma marker_None [simp]: "\<not> is_deletion_marker env None"
  by (simp add: is_deletion_marker_def)

lemma diff_paths_exact:
  assumes "distinct paths"
  shows "map_of (sd_added (diff_paths env b t paths d)) =
      (\<lambda>k. if k \<in> set paths \<and> live env (map_of b) k = None \<and> live env (map_of t) k \<noteq> None
           then live env (map_of t) k else map_of (sd_added d) k)"
    and "map_of (sd_removed (diff_paths env b t paths d)) =
      (\<lambda>k. if k \<in> set paths \<and> live env (map_of t) k = None \<and> live env (map_of b) k \<noteq> None
           then live env (map_of b) k else map_of (sd_removed d) k)"
    and "map_of (sd_changed (diff_paths env b t paths d)) =
      (\<lambda>k. if k \<in> set paths \<and> live env (map_of b) k \<noteq> None \<and> live env (map_of t) k \<noteq> None
               \<and> live env (map_of b) k \<noteq> live env (map_of t) k
           then Some (the (live env (map_of b) k), the (live env (map_of t) k)) else map_of (sd_changed d) k)"
    and "sd_unchanged (diff_paths env b t paths d) = sd_unchanged d +
      length (filter (\<lambda>k. map_of b k \<noteq> None \<and> map_of t k \<noteq> None \<and> live env (map_of b) k = live env (map_of t) k) paths)"
proof -
  let ?lb = "live env (map_of b)" and ?lt = "live env (map_of t)"
  have step: "diff_paths env b t (k # ks) d = diff_paths env b t ks
      (if ?lb k \<noteq> None \<and> ?lt k \<noteq> None
       then (if ?lb k = ?lt k then d\<lparr>sd_unchanged := sd_unchanged d + 1\<rparr>
             else d\<lparr>sd_changed := AList.update k (the (?lb k), the (?lt k)) (sd_changed d)\<rparr>)
       else if ?lt k \<noteq> None then d\<lparr>sd_added := AList.update k (the (?lt k)) (sd_added d)\<rparr>
       else if ?lb k \<noteq> None then d\<lparr>sd_removed := AList.update k (the (?lb k)) (sd_removed d)\<rparr>
       else if map_of b k \<noteq> None \<and> map_of t k \<noteq> None then d\<lparr>sd_unchanged := sd_unchanged d + 1\<rparr>
       else d)" for k ks d
    by (auto simp: live_def Let_def)
  show "map_of (sd_added (diff_paths env b t paths d)) =
      (\<lambda>k. if k \<in> set paths \<and> ?lb k = None \<and> ?lt k \<noteq> None then ?lt k else map_of (sd_added d) k)"
    using assms by (induction paths arbitrary: d) (auto simp: step update_conv' fun_eq_iff simp del: diff_paths.simps(2))
  show "map_of (sd_removed (diff_paths env b t paths d)) =
      (\<lambda>k. if k \<in> set paths \<and> ?lt k = None \<and> ?lb k \<noteq> None then ?lb k else map_of (sd_removed d) k)"
    using assms by (induction paths arbitrary: d) (auto simp: step update_conv' fun_eq_iff simp del: diff_paths.simps(2))
  show "map_of (sd_changed (diff_paths env b t paths d)) =
      (\<lambda>k. if k \<in> set paths \<and> ?lb k \<noteq> None \<and> ?lt k \<noteq> None \<and> ?lb k \<noteq> ?lt k
           then Some (the (?lb k), the (?lt k)) else map_of (sd_changed d) k)"
    using assms by (induction paths arbitrary: d) (auto simp: step update_conv' fun_eq_iff simp del: diff_paths.simps(2))
  have some: "?lb k \<noteq> None \<Longrightarrow> map_of b k \<noteq> None" "?lt k \<noteq> None \<Longrightarrow> map_of t k \<noteq> None" for k
    by (auto simp: live_def split: if_splits)
  show "sd_unchanged (diff_paths env b t paths d) = sd_unchanged d +
      length (filter (\<lambda>k. map_of b k \<noteq> None \<and> map_of t k \<noteq> None \<and> ?lb k = ?lt k) paths)"
  proof (induction paths arbitrary: d)
    case (Cons k ks)
    show ?case
      unfolding step using Cons.IH some [of k] by (cases "?lb k"; cases "?lt k") auto
  qed simp
qed

lemma snapshot_diff_lookup:
  "map_of (sd_added (compute_snapshot_diff env base target)) =
     (\<lambda>k. if live env (map_of base) k = None then live env (map_of target) k else None)
   \<and> map_of (sd_removed (compute_snapshot_diff env base target)) =
     (\<lambda>k. if live env (map_of target) k = None then live env (map_of base) k else None)
   \<and> map_of (sd_changed (compute_snapshot_diff env base target)) =
     (\<lambda>k. case (live env (map_of base) k, live env (map_of target) k) of
            (Some h, Some h') \<Rightarrow> if h \<noteq> h' then Some (h, h') else None
          | _ \<Rightarrow> None)
   \<and> sd_unchanged (compute_snapshot_diff env base target) =
     card {k. map_of base k \<noteq> None \<and> map_of target k \<noteq> None \<and> live env (map_of base) k = live env (map_of target) k}"
proof -
  let ?paths = "remdups (map fst base @ map fst target)"
  let ?d = "\<lparr>sd_added = [], sd_removed = [], sd_changed = [], sd_unchanged = 0\<rparr>"
  let ?P = "\<lambda>k. map_of base k \<noteq> None \<and> map_of target k \<noteq> None \<and> live env (map_of base) k = live env (map_of target) k"
  have out: "live env (map_of base) k = None" "live env (map_of target) k = None" if "k \<notin> set ?paths" for k
    using that by (simp_all add: live_def map_of_eq_None_iff)
  have c: "compute_snapshot_diff env base target = diff_paths env base target ?paths ?d"
    by (simp add: compute_snapshot_diff_def)
  have dist: "distinct ?paths" by simp
  note e = diff_paths_exact [OF dist, of env base target ?d]
  have "k \<in> set ?paths" if "?P k" for k
    using that by (auto simp: map_of_eq_None_iff)
  then have "{k. ?P k} = set (filter ?P ?paths)" by auto
  also have "card \<dots> = length (filter ?P ?paths)" by (rule distinct_card) simp
  finally have "card {k. ?P k} = length (filter ?P ?paths)" .
  then have "sd_unchanged (diff_paths env base target ?paths ?d) = card {k. ?P k}" using e(4) by simp
  moreover have "map_of (sd_added (diff_paths env base target ?paths ?d)) k =
      (if live env (map_of base) k = None then live env (map_of target) k else None)" for k
    unfolding e(1) using out [of k] by (cases "k \<in> set ?paths") (simp_all del: set_remdups)
  moreover have "map_of (sd_removed (diff_paths env base target ?paths ?d)) k =
      (if live env (map_of target) k = None then live env (map_of base) k else None)" for k
    unfolding e(2) using out [of k] by (cases "k \<in> set ?paths") (simp_all del: set_remdups)
  moreover have "map_of (sd_changed (diff_paths env base target ?paths ?d)) k =
      (case (live env (map_of base) k, live env (map_of target) k) of
            (Some h, Some h') \<Rightarrow> if h \<noteq> h' then Some (h, h') else None
          | _ \<Rightarrow> None)" for k
    unfolding e(3) using out [of k] by (cases "k \<in> set ?paths") (simp_all del: set_remdups split: option.split)
  ultimately show ?thesis unfolding c by blast
qed

lemma diff_paths_distinct:
  "distinct (map fst (sd_added d)) \<and> distinct (map fst (sd_changed d)) \<and> distinct (map fst (sd_removed d)) \<Longrightarrow>
    let d' = diff_paths env b t paths d in
    distinct (map fst (sd_added d')) \<and> distinct (map fst (sd_changed d')) \<and> distinct (map fst (sd_removed d'))"
  by (induction paths arbitrary: d) (simp_all add: Let_def distinct_update del: diff_paths.simps(2) add: diff_paths.simps(2) [unfolded Let_def])

lemma diff_distinct:
  "distinct (map fst (sd_added (compute_snapshot_diff env b t)))" "distinct (map fst (sd_changed (compute_snapshot_diff env b t)))"
  "distinct (map fst (sd_removed (compute_snapshot_diff env b t)))"
  using diff_paths_distinct [of "\<lparr>sd_added = [], sd_removed = [], sd_changed = [], sd_unchanged = 0\<rparr>" env b t]
  by (simp_all add: compute_snapshot_diff_def Let_def)

text \<open>
  The difference of two versions is that of what they keep alive: a path bound to a deletion marker is
  absent from a version. Added, removed and changed paths are exactly those, with their hashes; unchanged
  are the paths both versions mention and agree on.
\<close>

theorem snapshot_diff_exact:
  "map_of (sd_added (compute_snapshot_diff env base target)) =
     (\<lambda>k. if live env (map_of base) k = None then live env (map_of target) k else None)
   \<and> map_of (sd_removed (compute_snapshot_diff env base target)) =
     (\<lambda>k. if live env (map_of target) k = None then live env (map_of base) k else None)
   \<and> map_of (sd_changed (compute_snapshot_diff env base target)) =
     (\<lambda>k. case (live env (map_of base) k, live env (map_of target) k) of
            (Some h, Some h') \<Rightarrow> if h \<noteq> h' then Some (h, h') else None
          | _ \<Rightarrow> None)
   \<and> sd_unchanged (compute_snapshot_diff env base target) =
     card {k. map_of base k \<noteq> None \<and> map_of target k \<noteq> None \<and> live env (map_of base) k = live env (map_of target) k}"
  by (rule snapshot_diff_lookup)

subsection \<open>Where nothing listens\<close>

text \<open>Without hooks, and below the refusal depth, a write is what it writes.\<close>

definition quiet :: "'e estate \<Rightarrow> bool" where
  "quiet st \<longleftrightarrow> es_hooks st = [] \<and> es_depth st < SYSTEM_REFUSE_DEPTH"

lemma deliver_parts [simp]:
  "es_tree (deliver ev st) = es_tree st" "es_store (deliver ev st) = es_store st"
  "es_hooks (deliver ev st) = es_hooks st" "es_depth (deliver ev st) = es_depth st"
  by (simp_all add: deliver_def)

lemma quiet_dispatch:
  "es_hooks st = [] \<Longrightarrow> dispatch pf beh ev st =
     (([], None, []), if es_depth st < SUBSCRIPTION_SUPPRESS_DEPTH then deliver ev st else st)"
  by (simp add: dispatch_def matching_hooks_def)

lemma quiet_cascade:
  assumes "es_hooks st = []"
  shows "er_status (fst (cascade pf beh ev h st)) = 200" "er_hash (fst (cascade pf beh ev h st)) = Some h"
    "es_tree (snd (cascade pf beh ev h st)) = es_tree st" "es_store (snd (cascade pf beh ev h st)) = es_store st"
    "es_hooks (snd (cascade pf beh ev h st)) = []" "es_depth (snd (cascade pf beh ev h st)) = es_depth st"
  using assms by (simp_all add: cascade_def quiet_dispatch cascade_result_def)

lemma et_set_normalized [simp]: "et_set (normalize_uri (et_local t) uri) h t = et_set uri h t"
  by (simp add: et_set_def normalize_uri_idem)

lemma et_remove_normalized [simp]: "et_remove (normalize_uri (et_local t) uri) t = et_remove uri t"
  by (simp add: et_remove_def normalize_uri_idem)

text \<open>What a write returns and leaves: status 200, the hash, and the tree and store written.\<close>

definition wrote :: "emit_result \<times> 'e estate \<Rightarrow> bytes option \<Rightarrow> entity_tree \<Rightarrow> 'e content_store \<Rightarrow> bool" where
  "wrote out h t s \<longleftrightarrow>
     er_status (fst out) = 200 \<and> er_hash (fst out) = h \<and> es_tree (snd out) = t \<and> es_store (snd out) = s
     \<and> quiet (snd out)"

lemma wrote_unchanged: "quiet st \<Longrightarrow> wrote (unchanged h, st) h (es_tree st) (es_store st)"
  by (simp add: wrote_def unchanged_def)

lemma wrote_cascade: "quiet st \<Longrightarrow> wrote (cascade pf beh ev h st) (Some h) (es_tree st) (es_store st)"
  by (simp add: wrote_def quiet_def quiet_cascade)

lemma quiet_emit:
  assumes "quiet st"
  shows "wrote (emit pf beh hsh uri e ctx st) (Some (hsh e))
    (et_set uri (hsh e) (es_tree st)) (snd (cs_put hsh e (es_store st)))"
proof -
  let ?st1 = "st\<lparr>es_store := snd (cs_put hsh e (es_store st)), es_tree := et_set uri (hsh e) (es_tree st)\<rparr>"
  have q: "quiet ?st1" using assms by (simp add: quiet_def)
  have "emit pf beh hsh uri e ctx st = (unchanged (Some (hsh e)), ?st1)
      \<or> (\<exists>ev. emit pf beh hsh uri e ctx st = cascade pf beh ev (hsh e) ?st1)"
    using assms by (auto simp: emit_def quiet_def Let_def split_beta split: option.split)
  then show ?thesis using wrote_unchanged [OF q] wrote_cascade [OF q] by auto
qed

lemma quiet_emit_hash:
  assumes "quiet st"
  shows "wrote (emit_hash pf beh uri h ctx st) (Some h) (et_set uri h (es_tree st)) (es_store st)"
proof -
  let ?st1 = "st\<lparr>es_tree := et_set uri h (es_tree st)\<rparr>"
  have q: "quiet ?st1" using assms by (simp add: quiet_def)
  have "emit_hash pf beh uri h ctx st = (unchanged (Some h), ?st1)
      \<or> (\<exists>ev. emit_hash pf beh uri h ctx st = cascade pf beh ev h ?st1)"
    using assms by (auto simp: emit_hash_def quiet_def Let_def split: option.split)
  then show ?thesis using wrote_unchanged [OF q] wrote_cascade [OF q] by auto
qed

lemma quiet_delete:
  assumes "quiet st"
  shows "wrote (delete_path pf beh uri ctx st) (et_get (es_tree st) uri) (snd (et_remove uri (es_tree st))) (es_store st)"
proof -
  have "es_hooks (st\<lparr>es_tree := t\<rparr>) = []" for t using assms by (simp add: quiet_def)
  then show ?thesis
    using assms
    by (auto simp: delete_path_def split_beta Let_def wrote_def quiet_dispatch cascade_result_def unchanged_def quiet_def
        et_remove_def et_get_def normalize_uri_idem split: option.split)
qed

subsection \<open>Paths below a prefix\<close>

text \<open>A prefix that ends with \<open>/\<close> is made absolute as its paths are, except one that a path can complete to the scheme.\<close>

lemma normalize_below:
  assumes "ends_with p ''/''" "p \<noteq> ''entity:/''"
  shows "normalize_uri l (p @ relative) = normalize_uri l p @ relative"
proof -
  from assms(1) obtain q where p: "p = q @ ''/''" by (auto simp: suffix_def)
  have scheme: "starts_with (p @ relative) ENTITY_SCHEME \<longleftrightarrow> starts_with p ENTITY_SCHEME"
  proof
    assume "starts_with (p @ relative) ENTITY_SCHEME"
    then have "starts_with p ENTITY_SCHEME \<or> strict_prefix p ENTITY_SCHEME"
      unfolding prefix_append strict_prefix_def by (metis prefixI)
    moreover have "\<not> strict_prefix p ENTITY_SCHEME"
    proof
      assume "strict_prefix p ENTITY_SCHEME"
      then have "p \<in> set (prefixes ENTITY_SCHEME)" "p \<noteq> ENTITY_SCHEME" by (auto simp: strict_prefix_def)
      then show False using assms(2) by (auto simp: p ENTITY_SCHEME_def)
    qed
    ultimately show "starts_with p ENTITY_SCHEME" by blast
  qed auto
  have slash: "starts_with (p @ relative) ''/'' \<longleftrightarrow> starts_with p ''/''" by (cases q) (auto simp: p)
  have find: "find_from (CHR ''/'') (p @ relative) 0 = find_from (CHR ''/'') p 0"
    "\<exists>i. find_from (CHR ''/'') p 0 = Some i \<and> i \<le> length p"
    by (auto simp: find_from_def p takeWhile_append intro: length_takeWhile_le le_SucI)
  then obtain i where i: "find_from (CHR ''/'') p 0 = Some i" "i \<le> length p" by blast
  have len: "length ENTITY_SCHEME \<le> length p" if "starts_with p ENTITY_SCHEME"
    using that by (rule prefix_length_le)
  show ?thesis
    unfolding normalize_uri_def scheme slash find(1) i(1)
    using i(2) len by (simp add: Let_def)
qed


subsection \<open>Transcription\<close>

lemma et_local_remove [simp]: "et_local (snd (et_remove uri t)) = et_local t"
  by (simp add: et_remove_def Let_def)

lemma et_get_removed:
  "et_get (snd (et_remove uri t)) uri' =
     (if normalize_uri (et_local t) uri' = normalize_uri (et_local t) uri then None else et_get t uri')"
  by (simp add: et_get_def et_remove_def Let_def delete_conv')

text \<open>What the tree binds below a prefix, and that nothing else of it changes.\<close>

definition below :: "string \<Rightarrow> entity_tree \<Rightarrow> string \<Rightarrow> bytes option" where
  "below p t relative = et_get t (normalize_uri (et_local t) p @ relative)"

definition same_outside :: "string \<Rightarrow> entity_tree \<Rightarrow> entity_tree \<Rightarrow> bool" where
  "same_outside p t t' \<longleftrightarrow> et_local t' = et_local t
     \<and> (\<forall>uri. \<not> starts_with (normalize_uri (et_local t) uri) (normalize_uri (et_local t) p) \<longrightarrow> et_get t' uri = et_get t uri)"

lemma below_absolute: "normalize_uri l (normalize_uri l' p @ relative) = normalize_uri l' p @ relative"
  using normalize_uri_absolute [of l' p] by (intro normalize_uri_id) (rule prefix_prefix)

lemma set_below:
  assumes "ends_with p ''/''" "p \<noteq> ''entity:/''"
  shows "below p (et_set (p @ k) h t) = (below p t)(k \<mapsto> h)" "same_outside p t (et_set (p @ k) h t)"
  by (auto simp: below_def same_outside_def et_get_set normalize_below [OF assms] below_absolute fun_eq_iff)

lemma remove_below:
  assumes "ends_with p ''/''" "p \<noteq> ''entity:/''"
  shows "below p (snd (et_remove (p @ k) t)) = (below p t)(k := None)" "same_outside p t (snd (et_remove (p @ k) t))"
  by (auto simp: below_def same_outside_def et_get_removed normalize_below [OF assms] below_absolute fun_eq_iff)

lemma same_outside_trans: "same_outside p t t' \<Longrightarrow> same_outside p t' t'' \<Longrightarrow> same_outside p t t''"
  by (simp add: same_outside_def)

lemma same_outside_refl: "same_outside p t t"
  by (simp add: same_outside_def)

text \<open>What transcribing one binding makes of the live bindings.\<close>

definition transcribed :: "rev_env \<Rightarrow> (string \<times> bytes) list \<Rightarrow> (string \<Rightarrow> bytes option) \<Rightarrow> string \<Rightarrow> bytes option" where
  "transcribed env bindings m k =
     (case map_of bindings k of None \<Rightarrow> m k | Some h \<Rightarrow> if is_deletion_marker env (Some h) then None else Some h)"

lemma et_get_uri [simp]: "et_get t (normalize_uri (et_local t) uri) = et_get t uri"
  by (simp add: et_get_def normalize_uri_idem)

lemma below_get: "ends_with p ''/'' \<Longrightarrow> p \<noteq> ''entity:/'' \<Longrightarrow> below p t k = et_get t (p @ k)"
  unfolding below_def by (subst normalize_below [symmetric]) simp_all

lemma quiet_apply_each:
  assumes "ends_with p ''/''" "p \<noteq> ''entity:/''"
  shows "quiet st \<Longrightarrow> distinct (map fst bindings) \<Longrightarrow> apply_each env p ctx bindings acc st = (acc', st') \<Longrightarrow>
    quiet st' \<and> es_store st' = es_store st \<and> same_outside p (es_tree st) (es_tree st')
    \<and> below p (es_tree st') = transcribed env bindings (below p (es_tree st))
    \<and> ap_warnings acc' = ap_warnings acc
    \<and> ap_applied acc' + ap_removed acc' = ap_applied acc + ap_removed acc + length bindings"
proof (induction bindings arbitrary: acc st)
  case Nil
  then show ?case by (auto simp: same_outside_refl transcribed_def fun_eq_iff)
next
  case (Cons b bindings)
  obtain k h where b: "b = (k, h)" by (cases b)
  let ?uri = "env_uri st (p @ k)"
  have k: "map_of bindings k = None" and d: "distinct (map fst bindings)"
    using Cons.prems(2) by (simp_all add: b map_of_eq_None_iff)
  have step: ?case
    if "quiet st1" "es_store st1 = es_store st" "same_outside p (es_tree st) (es_tree st1)"
      "below p (es_tree st1) = (below p (es_tree st))(k := if is_deletion_marker env (Some h) then None else Some h)"
      "ap_warnings acc1 = ap_warnings acc" "ap_applied acc1 + ap_removed acc1 = Suc (ap_applied acc + ap_removed acc)"
      "apply_each env p ctx bindings acc1 st1 = (acc', st')" for st1 acc1
    using Cons.IH [OF that(1) d that(7)] that same_outside_trans [OF that(3)]
    by (auto simp: b transcribed_def fun_eq_iff k split: option.split)
  show ?case
  proof (cases "is_deletion_marker env (Some h)")
    case marker: True
    show ?thesis
    proof (cases "et_get (es_tree st) ?uri = None")
      case True
      have "below p (es_tree st) k = None"
        using True by (simp add: below_get [OF assms])
      then have "below p (es_tree st) = (below p (es_tree st))(k := None)" by (simp add: fun_eq_iff)
      moreover have "apply_each env p ctx bindings (acc\<lparr>ap_removed := ap_removed acc + 1\<rparr>) st = (acc', st')"
        using Cons.prems(3) True marker by (simp add: b)
      ultimately show ?thesis
        by (intro step [of st "acc\<lparr>ap_removed := ap_removed acc + 1\<rparr>"])
          (use Cons.prems(1) marker in \<open>simp_all add: same_outside_refl\<close>)
    next
      case False
      obtain r st1 where del: "env_delete env ?uri ctx st = (r, st1)" by (cases "env_delete env ?uri ctx st")
      have w: "er_status r = 200" "es_tree st1 = snd (et_remove (p @ k) (es_tree st))" "es_store st1 = es_store st" "quiet st1"
        using quiet_delete [OF Cons.prems(1), of "env_pf env" "env_beh env" ?uri ctx] by (simp_all add: wrote_def del)
      let ?acc = "acc\<lparr>ap_removed := ap_removed acc + 1, ap_warnings := ap_warnings acc @ halt_warning k r\<rparr>"
      have "apply_each env p ctx bindings ?acc st1 = (acc', st')"
        using Cons.prems(3) False marker by (simp add: b del)
      then show ?thesis
        by (intro step [OF w(4,3)]) (use marker in \<open>simp_all add: w remove_below [OF assms] halt_warning_def\<close>)
    qed
  next
    case False
    obtain r st1 where put: "env_emit_hash env ?uri h ctx st = (r, st1)" by (cases "env_emit_hash env ?uri h ctx st")
    have w: "er_status r = 200" "es_tree st1 = et_set (p @ k) h (es_tree st)" "es_store st1 = es_store st" "quiet st1"
      using quiet_emit_hash [OF Cons.prems(1), of "env_pf env" "env_beh env" ?uri h ctx] by (simp_all add: wrote_def put)
    let ?acc = "acc\<lparr>ap_applied := ap_applied acc + 1, ap_warnings := ap_warnings acc @ write_warning k r\<rparr>"
    have "apply_each env p ctx bindings ?acc st1 = (acc', st')"
      using Cons.prems(3) False by (simp add: b put)
    then show ?thesis
      by (intro step [OF w(4,3)]) (use False in \<open>simp_all add: w set_below [OF assms] write_warning_def\<close>)
  qed
qed

lemma quiet_remove_each:
  assumes "ends_with p ''/''" "p \<noteq> ''entity:/''"
  shows "quiet st \<Longrightarrow> remove_each env p ctx paths acc st = (acc', st') \<Longrightarrow>
    quiet st' \<and> es_store st' = es_store st \<and> same_outside p (es_tree st) (es_tree st')
    \<and> below p (es_tree st') = (\<lambda>k. if k \<in> set paths then None else below p (es_tree st) k)
    \<and> ap_warnings acc' = ap_warnings acc"
proof (induction paths arbitrary: acc st)
  case (Cons k paths)
  obtain r st1 where del: "env_delete env (env_uri st (p @ k)) ctx st = (r, st1)"
    by (cases "env_delete env (env_uri st (p @ k)) ctx st")
  have w: "er_status r = 200" "es_tree st1 = snd (et_remove (p @ k) (es_tree st))" "es_store st1 = es_store st" "quiet st1"
    using quiet_delete [OF Cons.prems(1), of "env_pf env" "env_beh env" "env_uri st (p @ k)" ctx] by (simp_all add: wrote_def del)
  have "same_outside p (es_tree st) (es_tree st1)" by (simp add: w remove_below [OF assms])
  from same_outside_trans [OF this] Cons.IH [OF w(4)] Cons.prems(2)
  show ?case by (auto simp: del w remove_below [OF assms] halt_warning_def fun_eq_iff)
qed (auto simp: same_outside_refl)


lemma list_relative_set:
  assumes "tree_ok t"
  shows "k \<in> set (list_prefix_relative t p) \<longleftrightarrow> below p t k \<noteq> None"
proof -
  let ?p = "normalize_uri (et_local t) p"
  have "k \<in> set (list_prefix_relative t p) \<longleftrightarrow> ?p @ k \<in> fst ` set (et_tree t)"
    unfolding list_prefix_relative_def Let_def set_map listed_under normalize_uri_idem
    using drop_prefix [where p = ?p] by (auto intro!: image_eqI [of _ _ "?p @ k"]) 
  also have "\<dots> \<longleftrightarrow> below p t k \<noteq> None"
    by (simp add: below_def et_get_def below_absolute map_of_eq_None_iff)
  finally show ?thesis .
qed

text \<open>
  C22. Transcribing the bindings of a version where no hook listens: below the prefix every path of the
  version is bound to its hash or, if that is a marker, not bound at all; the other paths stay, unless the
  transcription is exclusive, which removes those outside \<open>system/\<close>. Nothing outside the prefix changes,
  no content is stored, no warning is given; so no marker comes into the live tree.
\<close>

theorem transcription_exact:
  assumes "ends_with p ''/''" "p \<noteq> ''entity:/''" "quiet st" "tree_ok (es_tree st)" "distinct (map fst bindings)"
    and "apply_bindings_to_tree env bindings p ctx preserve_unknown st = (acc, st')"
  shows "below p (es_tree st') = (\<lambda>k. case map_of bindings k of
        Some h \<Rightarrow> if is_deletion_marker env (Some h) then None else Some h
      | None \<Rightarrow> if preserve_unknown \<or> starts_with k ''system/'' then below p (es_tree st) k else None)
    \<and> same_outside p (es_tree st) (es_tree st')
    \<and> es_store st' = es_store st \<and> ap_warnings acc = [] \<and> quiet st'"
proof -
  let ?acc0 = "\<lparr>ap_applied = 0, ap_removed = 0, ap_warnings = []\<rparr>"
  obtain acc1 st1 where a: "apply_each env p ctx bindings ?acc0 st = (acc1, st1)"
    by (cases "apply_each env p ctx bindings ?acc0 st")
  note A = quiet_apply_each [OF assms(1-3,5) a]
  let ?current = "filter (\<lambda>r. \<not> starts_with r ''system/'') (list_prefix_relative (es_tree st) p)"
  let ?gone = "filter (\<lambda>r. r \<notin> fst ` set bindings) ?current"
  show ?thesis
  proof (cases preserve_unknown)
    case True
    then have "acc = acc1" "st' = st1" using assms(6) by (simp_all add: apply_bindings_to_tree_def a)
    then show ?thesis using A True by (auto simp: transcribed_def fun_eq_iff split: option.split)
  next
    case False
    then have r: "remove_each env p ctx ?gone acc1 st1 = (acc, st')"
      using assms(6) by (simp add: apply_bindings_to_tree_def a)
    have R: "quiet st'" "es_store st' = es_store st1" "same_outside p (es_tree st1) (es_tree st')"
      "below p (es_tree st') = (\<lambda>k. if k \<in> set ?gone then None else below p (es_tree st1) k)" "ap_warnings acc = ap_warnings acc1"
      using quiet_remove_each [OF assms(1,2) _ r] A by blast+
    have "below p (es_tree st') k = (case map_of bindings k of
        Some h \<Rightarrow> if is_deletion_marker env (Some h) then None else Some h
      | None \<Rightarrow> if starts_with k ''system/'' then below p (es_tree st) k else None)" for k
    proof (cases "map_of bindings k")
      case None
      then have "k \<notin> fst ` set bindings" by (simp add: map_of_eq_None_iff)
      then have "k \<in> set ?gone \<longleftrightarrow> \<not> starts_with k ''system/'' \<and> below p (es_tree st) k \<noteq> None"
        using list_relative_set [OF assms(4)] by auto
      moreover have "below p (es_tree st1) k = below p (es_tree st) k" using A None by (simp add: transcribed_def)
      ultimately show ?thesis unfolding R(4) by (simp add: None)
    next
      case (Some h)
      then have "k \<in> fst ` set bindings" by (metis map_of_SomeD fst_conv image_eqI)
      then have "k \<notin> set ?gone" by simp
      moreover have "below p (es_tree st1) k = (if is_deletion_marker env (Some h) then None else Some h)"
        using A Some by (simp add: transcribed_def)
      ultimately show ?thesis unfolding R(4) by (simp only: Some if_False option.case)
    qed
    then show ?thesis using R A False same_outside_trans by (simp only: fun_eq_iff simp_thms) (use A in auto)
  qed
qed

theorem transcription_exact_witness:
  "\<exists>acc st'. apply_bindings_to_tree (sample_env (\<lambda>_. [])) [(''b'', [4])] ''doc/'' plain_context False
       (empty_state\<lparr>es_tree := et_set ''doc/a'' [3] (new_tree ''P'')\<rparr>) = (acc, st')
     \<and> below ''doc/'' (es_tree st') = [''b'' \<mapsto> [4]]"
proof -
  let ?t = "et_set ''doc/a'' [3] (new_tree ''P'')"
  let ?st = "empty_state\<lparr>es_tree := ?t\<rparr>"
  let ?env = "sample_env (\<lambda>_. [])"
  obtain acc st' where a: "apply_bindings_to_tree ?env [(''b'', [4])] ''doc/'' plain_context False ?st = (acc, st')"
    by (cases "apply_bindings_to_tree ?env [(''b'', [4])] ''doc/'' plain_context False ?st")
  have ok: "tree_ok ?t" by (intro tree_ok_set new_tree_ok)
  have q: "quiet ?st" by (simp add: quiet_def empty_state_def SYSTEM_REFUSE_DEPTH_def)
  have below: "below ''doc/'' ?t = [''a'' \<mapsto> [3]]"
  proof -
    have "below ''doc/'' ?t = (below ''doc/'' (new_tree ''P''))(''a'' \<mapsto> [3])"
      using set_below(1) [of "''doc/''" "''a''" "[3]" "new_tree ''P''"] by (simp add: suffix_def)
    moreover have "below ''doc/'' (new_tree ''P'') = Map.empty"
      by (rule ext) (simp add: below_def new_tree_def et_get_def)
    ultimately show ?thesis by simp
  qed
  have d: "decode_content_hash_format [4] = Inl UnsupportedHashFormat" by code_simp
  have mk: "\<not> is_deletion_marker ?env (Some [4])" by (simp add: is_deletion_marker_def d)
  have "below ''doc/'' (es_tree st') = (\<lambda>k. case map_of [(''b'', [4])] k of
        Some h \<Rightarrow> if is_deletion_marker ?env (Some h) then None else Some h
      | None \<Rightarrow> if False \<or> starts_with k ''system/'' then below ''doc/'' (es_tree ?st) k else None)"
    using transcription_exact [OF _ _ q _ _ a] ok by (simp add: suffix_def)
  also have "\<dots> = [''b'' \<mapsto> [4]]"
    by (rule ext) (simp add: mk below)
  finally show ?thesis using a by blast
qed

end
