(* ===== verification/Revision_Ops.thy ===== *)
theory Revision_Ops
  imports Merge
begin

section \<open>Operations of the revision handler\<close>

text \<open>
  The request handlers of \<open>entity_handlers/revision.py\<close> that work on the peer itself: commit, log, status,
  find-ancestor, merge, resolve, diff, branch, checkout, tag, cherry-pick and revert. A handler returns a
  response, or raises, beside the state it leaves. Parameters are the fields the handler reads: a string
  absent from the request is the empty one, which the handlers treat alike, any other field an option.
  A response that is not an error is what its result entity carries. In entities that the handlers build a
  field that is absent and one that is \<open>None\<close> are not told apart.
\<close>

subsection \<open>Responses\<close>

datatype merge_status =
    FastForward | AlreadyInSync | AlreadyAhead | Merged | MergedWithConflicts | OscillationDetected
  | WouldConflict | WouldMerge

record merge_result =
  mr_prefix :: string
  mr_status :: merge_status
  mr_version :: "bytes option"
  mr_dry_run :: bool
  mr_conflicts :: "string list"
  mr_warnings :: "cascade_warning list"

record status_result =
  sr_prefix :: string
  sr_head :: bytes
  sr_remotes :: "(string, bytes) dict"
  sr_conflicts :: nat
  sr_pending :: nat
  sr_keep_both :: "string list"

record config_result =
  cg_path :: string
  cg_hash :: "bytes option"
  cg_previous :: "bytes option"
  cg_tracking :: "(string \<times> string) option"

datatype rev_result =
    CommitResult bytes bytes
  | LogResult string "bytes list" bool "(bytes \<times> version) list"
  | StatusResult status_result
  | AncestorResult bytes bytes "bytes option"
  | MergeResult merge_result
  | ResolveResult string "bytes option" nat
  | DiffResult bytes bytes snapshot_diff
  | BranchCreated string "bytes option"
  | BranchDeleted string
  | BranchList "(string, bytes option) dict" "string option"
  | CheckedOut bytes "bytes option" "string option" "cascade_warning list"
  | TagCreated string "bytes option"
  | TagDeleted string
  | TagList "(string, bytes option) dict"
  | Picked string bytes bytes nat "cascade_warning list"
  | ConfigResult config_result
  | MergeConfigResult string "bytes option" string
  | FetchResult "bytes option" "bytes list" bool "(bytes, rev_entity stored) dict"
  | FetchedEntities "bytes list" "bytes list" "(bytes, rev_entity stored) dict"
  | SnapshotResult "bytes option" "(bytes, rev_entity stored) dict"
  | RemoteEmpty string
  | UpToDate string string
  | Pushed string string nat "bytes option"

datatype rev_response = Ok rev_result | Err int string

type_synonym rev_outcome = "rev_response result \<times> rev_state"

definition err :: "int \<Rightarrow> string \<Rightarrow> rev_state \<Rightarrow> rev_outcome" where
  "err status code st = (Inr (Err status code), st)"

subsection \<open>Heads and branches\<close>

text \<open>
  \<open>entity.data.get("hash")\<close> of an entity of any type; a value that is no byte string is treated as missing.
\<close>

definition hash_field :: "rev_entity stored \<Rightarrow> bytes option result" where
  "hash_field e = bind_r (data_get e ''hash'') (\<lambda>v. case v of VBytes b \<Rightarrow> Inr (Some b) | _ \<Rightarrow> Inr None)"

text \<open>The hash of a head that is a \<open>system/hash\<close>.\<close>

definition typed_head :: "rev_state \<Rightarrow> string \<Rightarrow> bytes option" where
  "typed_head st ph =
     (case get_entity_at_path (es_tree st) (es_store st) (head_path ph) of
        Some (OtherEntity (HashRef h)) \<Rightarrow> h
      | _ \<Rightarrow> None)"

definition resolve_ref :: "rev_state \<Rightarrow> string \<Rightarrow> bytes + string \<Rightarrow> bytes option" where
  "resolve_ref st ph r =
     (case r of
        Inl h \<Rightarrow> if get_version_entity (es_store st) h \<noteq> None then Some h else None
      | Inr name \<Rightarrow>
          (case get_entity_at_path (es_tree st) (es_store st) (branch_path ph name) of
             Some (OtherEntity (HashRef h)) \<Rightarrow> h
           | _ \<Rightarrow>
               (case get_entity_at_path (es_tree st) (es_store st) (tag_path ph name) of
                  Some (OtherEntity (HashRef h)) \<Rightarrow> h
                | _ \<Rightarrow> None)))"

definition ref_empty :: "bytes + string \<Rightarrow> bool" where
  "ref_empty r = (case r of Inl h \<Rightarrow> h = [] | Inr s \<Rightarrow> s = [])"

definition active_branch :: "rev_state \<Rightarrow> string \<Rightarrow> string option" where
  "active_branch st ph =
     (case get_entity_at_path (es_tree st) (es_store st) (active_branch_path ph) of
        Some (OtherEntity (TextEntity name)) \<Rightarrow> Some name
      | _ \<Rightarrow> None)"

definition hash_ref :: "bytes option \<Rightarrow> rev_entity stored" where
  "hash_ref h = OtherEntity (HashRef h)"

definition update_head_and_branch :: "rev_env \<Rightarrow> string \<Rightarrow> bytes \<Rightarrow> string \<Rightarrow> rev_state \<Rightarrow> rev_state" where
  "update_head_and_branch env ph version_hash operation st =
     (let ctx = from_handler_grant (env_ctx env) operation;
          st1 = snd (env_emit env (head_path ph) (hash_ref (Some version_hash)) ctx st)
      in case active_branch st1 ph of
           None \<Rightarrow> st1
         | Some name \<Rightarrow> snd (env_emit env (branch_path ph name) (hash_ref (Some version_hash)) ctx st1))"

definition put_version :: "rev_env \<Rightarrow> bytes \<Rightarrow> bytes list \<Rightarrow> rev_state \<Rightarrow> bytes \<times> rev_state" where
  "put_version env root parents st =
     (let (h, cs) = cs_put (env_hash env)
            (OtherEntity (VersionEntry \<lparr>ve_root = Some root, ve_parents = sorted_parents parents\<rparr>)) (es_store st)
      in (h, st\<lparr>es_store := cs\<rparr>))"

text \<open>\<open>build_trie(sorted(bindings.items()), content_store)\<close>: a dictionary has each key once.\<close>

definition build_version_trie :: "rev_env \<Rightarrow> (string, bytes) dict \<Rightarrow> rev_state \<Rightarrow> bytes result \<times> rev_state" where
  "build_version_trie env bindings st =
     (case build_trie (env_route env) (env_hash env) (sort_key fst bindings) (es_store st) of
        (r, cs) \<Rightarrow> (r, st\<lparr>es_store := cs\<rparr>))"

definition current_bindings :: "rev_env \<Rightarrow> string \<Rightarrow> rev_state \<Rightarrow> (string, bytes) dict" where
  "current_bindings env p st =
     get_snapshot_bindings (es_tree st) (es_store st) p
       (get_config (es_tree st) (es_store st) (compute_prefix_hash (env_path_hash env) (es_tree st) p))"

definition bindings_or_empty :: "rev_env \<Rightarrow> rev_state \<Rightarrow> bytes option \<Rightarrow> (string, bytes) dict result" where
  "bindings_or_empty env st h =
     (case h of
        None \<Rightarrow> Inr []
      | Some v \<Rightarrow> bind_r (get_version_bindings env (es_store st) v)
                    (\<lambda>b. Inr (case b of None \<Rightarrow> [] | Some d \<Rightarrow> d)))"

subsection \<open>Commit\<close>

text \<open>Every path of the parent version that is not bound any more is bound to the deletion marker.\<close>

definition with_markers :: "rev_env \<Rightarrow> (string, bytes) dict \<Rightarrow> (string, bytes) dict \<Rightarrow> (string, bytes) dict" where
  "with_markers env parent_bindings bindings =
     fold (\<lambda>path. AList.update path (deletion_marker_hash env))
       (filter (\<lambda>path. path \<notin> fst ` set bindings) (map fst parent_bindings)) bindings"

definition describes_root :: "rev_state \<Rightarrow> bytes option \<Rightarrow> bytes \<Rightarrow> bool" where
  "describes_root st head_hash root =
     (case head_hash of
        None \<Rightarrow> False
      | Some h \<Rightarrow> (\<exists>v \<in> set_option (get_version_entity (es_store st) h). ve_root v = Some root))"

definition handle_commit :: "rev_env \<Rightarrow> string \<Rightarrow> rev_state \<Rightarrow> rev_outcome" where
  "handle_commit env p st =
     (let ph = compute_prefix_hash (env_path_hash env) (es_tree st) p in
      if p \<noteq> [] \<and> \<not> ends_with p ''/'' then err 400 ''invalid_prefix'' st
      else if \<not> env_permits env ''commit'' p then err 403 ''capability_denied'' st
      else
        let bindings = current_bindings env p st; head_hash = typed_head st ph in
        and_then (bindings_or_empty env st head_hash, st)
          (\<lambda>parent_bindings st.
             and_then (build_version_trie env (with_markers env parent_bindings bindings) st)
               (\<lambda>root st1.
                  if describes_root st1 head_hash root
                  then (Inr (Ok (CommitResult (the head_hash) root)), st1)
                  else
                    let parents = (case head_hash of None \<Rightarrow> [] | Some h \<Rightarrow> if h = [] then [] else [h]);
                        (version_hash, st2) = put_version env root parents st1
                    in (Inr (Ok (CommitResult version_hash root)),
                        update_head_and_branch env ph version_hash ''commit'' st2))))"

subsection \<open>Log, status, ancestors, difference\<close>

text \<open>\<open>xs[:n]\<close>, where a negative \<open>n\<close> counts from the end.\<close>

definition slice_to :: "int \<Rightarrow> 'a list \<Rightarrow> 'a list" where
  "slice_to n xs = take (nat (if n < 0 then int (length xs) + n else n)) xs"

definition handle_log ::
  "rev_env \<Rightarrow> string \<Rightarrow> int option \<Rightarrow> bool \<Rightarrow> bytes option \<Rightarrow> rev_state \<Rightarrow> rev_outcome" where
  "handle_log env p limit since start_at st =
     (let ph = compute_prefix_hash (env_path_hash env) (es_tree st) p; cs = es_store st in
      if \<not> env_permits env ''log'' p then err 403 ''capability_denied'' st
      else if since then err 400 ''invalid_params'' st
      else
        let answer = (\<lambda>start_hash.
              let lim = (case limit of None \<Rightarrow> None | Some n \<Rightarrow> if n = 0 then None else Some n);
                  version_hashes = walk_history cs start_hash (map_option (\<lambda>n. n + 1) lim);
                  has_more = (case lim of None \<Rightarrow> False | Some n \<Rightarrow> n < int (length version_hashes));
                  shown = (if has_more then slice_to (the lim) version_hashes else version_hashes);
                  included = concat (map (\<lambda>h. case get_version_entity cs h of None \<Rightarrow> [] | Some v \<Rightarrow> [(h, v)]) shown)
              in (Inr (Ok (LogResult p shown has_more included)), st))
        in if start_at \<noteq> None \<and> start_at \<noteq> Some [] then answer (the start_at)
           else
             (case get_entity_at_path (es_tree st) cs (head_path ph) of
                None \<Rightarrow> (Inr (Ok (LogResult p [] False [])), st)
              | Some e \<Rightarrow> and_then (hash_field e, st) (\<lambda>h st. answer (case h of None \<Rightarrow> [] | Some b \<Rightarrow> b))))"

text \<open>The paths that differ between the bindings of the tree and those of the head.\<close>

definition pending_count :: "(string, bytes) dict \<Rightarrow> (string, bytes) dict \<Rightarrow> nat" where
  "pending_count current head_bindings =
     length (filter (\<lambda>(path, h). map_of head_bindings path \<noteq> Some h) current)
     + length (filter (\<lambda>(path, h). path \<notin> fst ` set current) head_bindings)"

definition remote_heads :: "rev_state \<Rightarrow> string \<Rightarrow> (string, bytes) dict" where
  "remote_heads st ph =
     (let full = env_uri st (''system/revision/'' @ ph @ ''/remotes/'') in
      List.map_filter (\<lambda>uri. let peer_id_hex = drop (length full) uri in
            if peer_id_hex = [] then None
            else (case et_get (es_tree st) uri of
                    None \<Rightarrow> None
                  | Some h \<Rightarrow> if h = [] then None else Some (peer_id_hex, h)))
        (list_prefix (es_tree st) full))"

definition conflict_count :: "rev_state \<Rightarrow> string \<Rightarrow> nat" where
  "conflict_count st ph = length (list_prefix (es_tree st) (env_uri st (''system/revision/'' @ ph @ ''/conflicts/'')))"

definition handle_status :: "rev_env \<Rightarrow> string \<Rightarrow> rev_state \<Rightarrow> rev_outcome" where
  "handle_status env p st =
     (let ph = compute_prefix_hash (env_path_hash env) (es_tree st) p in
      if \<not> env_permits env ''status'' p then err 403 ''capability_denied'' st
      else
        and_then ((case get_entity_at_path (es_tree st) (es_store st) (head_path ph) of
                     None \<Rightarrow> Inr None | Some e \<Rightarrow> hash_field e), st)
          (\<lambda>local_hash st.
             and_then ((if local_hash = None \<or> local_hash = Some []
                        then Inr (length (current_bindings env p st))
                        else bind_r (get_version_bindings env (es_store st) (the local_hash))
                               (\<lambda>b. Inr (case b of None \<Rightarrow> 0 | Some hb \<Rightarrow> pending_count (current_bindings env p st) hb))), st)
               (\<lambda>pending st. (Inr (Ok (StatusResult
                  \<lparr>sr_prefix = p,
                   sr_head = (if local_hash = None \<or> local_hash = Some [] then replicate 33 0 else the local_hash),
                   sr_remotes = remote_heads st ph, sr_conflicts = conflict_count st ph, sr_pending = pending,
                   sr_keep_both = filter (\<lambda>r. sublist ''.keep-both-'' r) (list_prefix_relative (es_tree st) p)\<rparr>)), st))))"

definition handle_find_ancestor :: "bytes \<Rightarrow> bytes \<Rightarrow> rev_state \<Rightarrow> rev_outcome" where
  "handle_find_ancestor version_a version_b st =
     (if version_a = [] \<or> version_b = [] then err 400 ''invalid_params'' st
      else (Inr (Ok (AncestorResult version_a version_b
              (case find_common_ancestor (es_store st) version_a version_b of
                 None \<Rightarrow> None | Some h \<Rightarrow> if h = [] then None else Some h))), st))"

definition handle_diff :: "rev_env \<Rightarrow> string \<Rightarrow> bytes + string \<Rightarrow> bytes + string \<Rightarrow> rev_state \<Rightarrow> rev_outcome" where
  "handle_diff env p base_ref target_ref st =
     (let ph = compute_prefix_hash (env_path_hash env) (es_tree st) p in
      if \<not> env_permits env ''diff'' p then err 403 ''capability_denied'' st
      else if ref_empty base_ref \<or> ref_empty target_ref then err 400 ''invalid_params'' st
      else case (resolve_ref st ph base_ref, resolve_ref st ph target_ref) of
        (None, _) \<Rightarrow> err 404 ''ref_not_found'' st
      | (Some b, None) \<Rightarrow> err 404 ''ref_not_found'' st
      | (Some b, Some t) \<Rightarrow>
          and_then (get_version_bindings env (es_store st) b, st)
            (\<lambda>base_bindings st. and_then (get_version_bindings env (es_store st) t, st)
               (\<lambda>target_bindings st.
                  case (base_bindings, target_bindings) of
                    (Some bb, Some tb) \<Rightarrow> (Inr (Ok (DiffResult b t (compute_snapshot_diff env bb tb))), st)
                  | _ \<Rightarrow> err 500 ''invalid_version'' st)))"


subsection \<open>Merge\<close>

definition merge_answer ::
  "string \<Rightarrow> merge_status \<Rightarrow> bytes option \<Rightarrow> bool \<Rightarrow> string list \<Rightarrow> cascade_warning list \<Rightarrow> rev_state \<Rightarrow> rev_outcome" where
  "merge_answer p status version dry_run conflicts warnings st =
     (Inr (Ok (MergeResult \<lparr>mr_prefix = p, mr_status = status, mr_version = version, mr_dry_run = dry_run,
        mr_conflicts = conflicts, mr_warnings = warnings\<rparr>)), st)"

text \<open>The head moves to the source, and the bindings of the source are transcribed.\<close>

definition fast_forward :: "rev_env \<Rightarrow> string \<Rightarrow> bytes \<Rightarrow> bool \<Rightarrow> rev_state \<Rightarrow> rev_outcome" where
  "fast_forward env p source_hash dry_run st =
     (let ph = compute_prefix_hash (env_path_hash env) (es_tree st) p in
      if dry_run then merge_answer p FastForward (Some source_hash) dry_run [] [] st
      else
        and_then (get_version_bindings env (es_store st) source_hash, st)
          (\<lambda>source_bindings st.
             let st1 = update_head_and_branch env ph source_hash ''merge'' st in
             if source_bindings = None \<or> source_bindings = Some []
             then merge_answer p FastForward (Some source_hash) dry_run [] [] st1
             else
               (case apply_bindings_to_tree env (the source_bindings) p (from_handler_grant (env_ctx env) ''merge'') True st1 of
                  (acc, st2) \<Rightarrow> merge_answer p FastForward (Some source_hash) dry_run [] (ap_warnings acc) st2)))"

definition conflict_entity ::
  "string \<Rightarrow> bytes option \<times> bytes option \<times> bytes option \<Rightarrow> string \<Rightarrow> bytes \<Rightarrow> bytes \<Rightarrow> bytes option \<Rightarrow> rev_entity stored" where
  "conflict_entity path hashes strategy local_hash source_hash supersedes =
     (case hashes of (b, l, r) \<Rightarrow>
        OtherEntity (ConflictEntity \<lparr>cf_path = path, cf_base = b, cf_local = l, cf_remote = r, cf_strategy = strategy,
          cf_version_local = local_hash, cf_version_remote = source_hash, cf_supersedes = supersedes\<rparr>))"

text \<open>A conflict recorded over one that is there names it.\<close>

definition superseded :: "rev_env \<Rightarrow> string \<Rightarrow> string \<Rightarrow> rev_state \<Rightarrow> bytes option" where
  "superseded env ph path st =
     (case get_entity_at_path (es_tree st) (es_store st) (conflict_path ph path) of
        Some (OtherEntity (ConflictEntity c)) \<Rightarrow> Some (env_hash env (OtherEntity (ConflictEntity c)))
      | _ \<Rightarrow> None)"

fun record_conflicts ::
  "rev_env \<Rightarrow> string \<Rightarrow> emit_context \<Rightarrow> string \<Rightarrow> bytes \<Rightarrow> bytes \<Rightarrow> bool
     \<Rightarrow> (string \<times> bytes option \<times> bytes option \<times> bytes option) list \<Rightarrow> rev_state \<Rightarrow> rev_state" where
  "record_conflicts env ph ctx strategy local_hash source_hash supersede [] st = st"
| "record_conflicts env ph ctx strategy local_hash source_hash supersede ((path, hashes) # cs) st =
     record_conflicts env ph ctx strategy local_hash source_hash supersede cs
       (snd (env_emit env (conflict_path ph path)
          (conflict_entity path hashes strategy local_hash source_hash
             (if supersede then superseded env ph path st else None)) ctx st))"

definition valid_strategies :: "string list" where
  "valid_strategies = [''three-way'', ''source-wins'', ''target-wins'', ''manual'', ''keep-both'']"

text \<open>
  The merge proper, of diverged or unrelated heads: with the merge order \<open>deterministic\<close> the sides are
  ordered by hash, so that two peers merging each other's head compute the same.
\<close>

record merge_sides =
  ms_local :: bytes
  ms_remote :: bytes
  ms_ancestor :: "bytes option"

definition sides_of :: "rev_store \<Rightarrow> string \<Rightarrow> bytes \<Rightarrow> bytes \<Rightarrow> relationship \<Rightarrow> merge_sides" where
  "sides_of cs merge_order local_hash source_hash rel =
     (let (l, r) = normalize_merge_sides local_hash source_hash merge_order in
      \<lparr>ms_local = l, ms_remote = r,
       ms_ancestor = (if rel = UNRELATED then None else find_common_ancestor cs l r)\<rparr>)"

definition same_root :: "rev_store \<Rightarrow> merge_sides \<Rightarrow> version option" where
  "same_root cs sides =
     (case (get_version_entity cs (ms_local sides), get_version_entity cs (ms_remote sides)) of
        (Some v, Some w) \<Rightarrow> if ve_root v = ve_root w then Some v else None
      | _ \<Rightarrow> None)"

definition conclude_merge ::
  "rev_env \<Rightarrow> string \<Rightarrow> string \<Rightarrow> bytes \<Rightarrow> bytes \<Rightarrow> bool
     \<Rightarrow> (string, bytes) dict \<Rightarrow> (string, bytes option \<times> bytes option \<times> bytes option) dict \<Rightarrow> bytes
     \<Rightarrow> rev_state \<Rightarrow> rev_outcome" where
  "conclude_merge env p strategy local_hash source_hash dry_run merged_bindings conflicts root st =
     (let ph = compute_prefix_hash (env_path_hash env) (es_tree st) p; ctx = from_handler_grant (env_ctx env) ''merge'' in
      if dry_run
      then merge_answer p (if conflicts \<noteq> [] then WouldConflict else WouldMerge) None True (map fst conflicts) [] st
      else
        let st1 = record_conflicts env ph ctx strategy local_hash source_hash True conflicts st;
            (merge_hash, st2) = put_version env root [local_hash, source_hash] st1;
            st3 = update_head_and_branch env ph merge_hash ''merge'' st2
        in case apply_bindings_to_tree env merged_bindings p ctx True st3 of
             (acc, st4) \<Rightarrow>
               merge_answer p (if conflicts \<noteq> [] then MergedWithConflicts else Merged) (Some merge_hash) dry_run
                 (map fst conflicts) (ap_warnings acc) st4)"

text \<open>\<open>for add_path, add_hash in additional_bindings: merged_bindings[add_path] = add_hash\<close>.\<close>

definition with_extra :: "merged \<Rightarrow> (string, bytes) dict" where
  "with_extra m = fold (\<lambda>(k, h). AList.update k h) (mg_extra m) (mg_bindings m)"

definition all_changes :: "snapshot_diff \<Rightarrow> string list" where
  "all_changes d = map fst (sd_added d) @ map fst (sd_removed d) @ map fst (sd_changed d)"

definition merge_order_of :: "rev_config option \<Rightarrow> string" where
  "merge_order_of config =
     (case config of
        None \<Rightarrow> ''deterministic''
      | Some c \<Rightarrow> (case rc_merge_order c of None \<Rightarrow> ''deterministic'' | Some order \<Rightarrow> order))"

definition oscillation_depth_of :: "rev_config option \<Rightarrow> int" where
  "oscillation_depth_of config =
     (case config of None \<Rightarrow> 4 | Some c \<Rightarrow> (case rc_oscillation_depth c of None \<Rightarrow> 4 | Some d \<Rightarrow> d))"

text \<open>The two sides have one snapshot: only the version is new. \<open>local_version.data["root"]\<close> raises without a root.\<close>

definition merge_same_root :: "rev_env \<Rightarrow> string \<Rightarrow> bytes \<Rightarrow> bytes \<Rightarrow> version \<Rightarrow> rev_state \<Rightarrow> rev_outcome" where
  "merge_same_root env p local_hash source_hash v st =
     (case ve_root v of
        None \<Rightarrow> (Inl KeyError, st)
      | Some root \<Rightarrow>
          (case put_version env root [local_hash, source_hash] st of
             (merge_hash, st1) \<Rightarrow>
               merge_answer p Merged (Some merge_hash) False [] []
                 (update_head_and_branch env (compute_prefix_hash (env_path_hash env) (es_tree st) p) merge_hash ''merge'' st1)))"

definition merge_diverged ::
  "rev_env \<Rightarrow> string \<Rightarrow> string \<Rightarrow> bytes \<Rightarrow> bytes \<Rightarrow> bool \<Rightarrow> relationship \<Rightarrow> rev_state \<Rightarrow> rev_outcome" where
  "merge_diverged env p strategy local_hash source_hash dry_run rel st =
     (let ph = compute_prefix_hash (env_path_hash env) (es_tree st) p;
          config = get_config (es_tree st) (es_store st) ph;
          depth = oscillation_depth_of config;
          sides = sides_of (es_store st) (merge_order_of config) local_hash source_hash rel
      in and_then (bindings_or_empty env st (Some (ms_local sides)), st)
        (\<lambda>loc st. and_then (bindings_or_empty env st (Some (ms_remote sides)), st)
        (\<lambda>rem st. and_then (bindings_or_empty env st
                     (case ms_ancestor sides of None \<Rightarrow> None | Some a \<Rightarrow> if a = [] then None else Some a), st)
        (\<lambda>anc st.
           if same_root (es_store st) sides \<noteq> None \<and> \<not> dry_run
           then merge_same_root env p local_hash source_hash (the (same_root (es_store st) sides)) st
           else
             and_then (merge_bindings env anc loc rem strategy p st)
               (\<lambda>m st. and_then (build_version_trie env (with_extra m) st)
                  (\<lambda>root st.
                     if detect_oscillation (es_store st) root (Some local_hash) [local_hash, source_hash] depth
                     then
                       (let st' = (if dry_run then st
                          else record_conflicts env ph (from_handler_grant (env_ctx env) ''merge'') strategy local_hash source_hash
                                 False (map (\<lambda>k. (k, map_of anc k, map_of loc k, map_of rem k))
                                          (all_changes (compute_snapshot_diff env loc rem))) st)
                        in merge_answer p OscillationDetected None dry_run [] [] st')
                     else conclude_merge env p strategy local_hash source_hash dry_run (with_extra m) (mg_conflicts m) root st))))))"

definition handle_merge ::
  "rev_env \<Rightarrow> string \<Rightarrow> bytes + string \<Rightarrow> string \<Rightarrow> bool \<Rightarrow> rev_state \<Rightarrow> rev_outcome" where
  "handle_merge env p source_ref strategy dry_run st =
     (let ph = compute_prefix_hash (env_path_hash env) (es_tree st) p in
      if ref_empty source_ref then err 400 ''invalid_params'' st
      else if strategy \<notin> set valid_strategies then err 400 ''invalid_strategy'' st
      else if \<not> env_permits env ''merge'' p then err 403 ''capability_denied'' st
      else case resolve_ref st ph source_ref of
        None \<Rightarrow> err 404 ''ref_not_found'' st
      | Some source_hash \<Rightarrow>
          (case get_entity_at_path (es_tree st) (es_store st) (head_path ph) of
             None \<Rightarrow> fast_forward env p source_hash dry_run st
           | Some e \<Rightarrow>
               and_then (hash_field e, st)
                 (\<lambda>local_hash st.
                    case check_relationship (es_store st) local_hash (Some source_hash) of
                      IN_SYNC \<Rightarrow> merge_answer p AlreadyInSync local_hash dry_run [] [] st
                    | BEHIND \<Rightarrow> fast_forward env p source_hash dry_run st
                    | AHEAD \<Rightarrow> merge_answer p AlreadyAhead local_hash dry_run [] [] st
                    | DIVERGED \<Rightarrow> merge_diverged env p strategy (the local_hash) source_hash dry_run DIVERGED st
                    | UNRELATED \<Rightarrow> merge_diverged env p strategy (the local_hash) source_hash dry_run UNRELATED st)))"

subsection \<open>Resolving a conflict\<close>

text \<open>The resolution writes the tree directly, past the emit pathway.\<close>

definition handle_resolve :: "rev_env \<Rightarrow> string \<Rightarrow> string \<Rightarrow> bytes option \<Rightarrow> rev_state \<Rightarrow> rev_outcome" where
  "handle_resolve env p path resolved st =
     (let ph = compute_prefix_hash (env_path_hash env) (es_tree st) p; conflict = conflict_path ph path in
      if path = [] then err 400 ''invalid_params'' st
      else if \<not> env_permits env ''resolve'' p then err 403 ''capability_denied'' st
      else if resolved \<noteq> None \<and> \<not> cs_has (es_store st) (the resolved) then err 404 ''resolved_not_found'' st
      else if get_entity_at_path (es_tree st) (es_store st) conflict = None then err 404 ''conflict_not_found'' st
      else
        let uri = env_uri st (p @ path);
            tree = (case resolved of Some h \<Rightarrow> et_set uri h (es_tree st) | None \<Rightarrow> snd (et_remove uri (es_tree st)));
            st' = st\<lparr>es_tree := snd (et_remove (normalize_uri (et_local tree) conflict) tree)\<rparr>
        in (Inr (Ok (ResolveResult path resolved (conflict_count st' ph))), st'))"

end
