(* ===== verification/Revision_Refs.thy ===== *)
theory Revision_Refs
  imports Revision_Ops
begin

section \<open>Branches, tags, checkout, cherry-pick and revert\<close>

text \<open>
  The handlers of \<open>entity_handlers/revision.py\<close> that move the head to, or name, a version. The \<open>from\<close> of a branch
  and the \<open>version\<close> of a tag or a checkout are hashes; an absent or empty one is \<open>None\<close>. The answers of the two
  listing operations are those of the handler on entities of the type the extension writes there.
\<close>

subsection \<open>Names\<close>

definition remove_path :: "string \<Rightarrow> rev_state \<Rightarrow> rev_state" where
  "remove_path path st = st\<lparr>es_tree := snd (et_remove (env_uri st path) (es_tree st))\<rparr>"

definition handler_context_of :: "rev_env \<Rightarrow> string \<Rightarrow> emit_context" where
  "handler_context_of env operation = from_handler_grant (env_ctx env) operation"

text \<open>The hashes that the entities below a path hold, by the rest of the path.\<close>

definition names_below :: "rev_state \<Rightarrow> string \<Rightarrow> (string, bytes option) dict result" where
  "names_below st dir =
     map_sum id concat
       (map_r (\<lambda>name.
           case get_entity_at_path (es_tree st) (es_store st) (dir @ name) of
             None \<Rightarrow> Inr []
           | Some e \<Rightarrow> map_sum id (\<lambda>h. [(name, h)]) (hash_field e))
         (list_prefix_relative (es_tree st) dir))"

text \<open>The hash to name: the one given, or the head.\<close>

definition named_hash :: "rev_state \<Rightarrow> string \<Rightarrow> bytes option \<Rightarrow> bytes option option result" where
  "named_hash st ph given =
     (case given of
        Some h \<Rightarrow> Inr (Some (Some h))
      | None \<Rightarrow>
          (case get_entity_at_path (es_tree st) (es_store st) (head_path ph) of
             None \<Rightarrow> Inr None
           | Some e \<Rightarrow> map_sum id Some (hash_field e)))"

definition is_active_branch :: "rev_state \<Rightarrow> string \<Rightarrow> string \<Rightarrow> bool" where
  "is_active_branch st ph name \<longleftrightarrow> active_branch st ph = Some name"

definition action_of :: "string \<Rightarrow> string \<Rightarrow> string" where
  "action_of action name = (if name \<noteq> [] \<and> action = ''list'' then ''create'' else action)"

definition handle_branch :: "rev_env \<Rightarrow> string \<Rightarrow> string \<Rightarrow> string \<Rightarrow> bytes option \<Rightarrow> rev_state \<Rightarrow> rev_outcome" where
  "handle_branch env p action name from_ref st =
     (let ph = compute_prefix_hash (env_path_hash env) (es_tree st) p; bp = branch_path ph name in
      if \<not> env_permits env ''branch'' p then err 403 ''capability_denied'' st
      else if action_of action name = ''create''
      then
        (if name = [] then err 400 ''invalid_params'' st
         else if get_hash_at_path (es_tree st) bp \<noteq> None then err 409 ''branch_exists'' st
         else
           and_then (named_hash st ph from_ref, st)
             (\<lambda>start st.
                case start of
                  None \<Rightarrow> err 400 ''no_head'' st
                | Some h \<Rightarrow> (Inr (Ok (BranchCreated name h)),
                             snd (env_emit env bp (hash_ref h) (handler_context_of env ''branch'') st))))
      else if action_of action name = ''delete''
      then
        (if name = [] then err 400 ''invalid_params'' st
         else if is_active_branch st ph name then err 400 ''cannot_delete'' st
         else if get_hash_at_path (es_tree st) bp = None then err 404 ''branch_not_found'' st
         else (Inr (Ok (BranchDeleted name)), remove_path bp st))
      else
        and_then (names_below st (''system/revision/'' @ ph @ ''/branches/''), st)
          (\<lambda>branches st. (Inr (Ok (BranchList branches (active_branch st ph))), st)))"

definition handle_tag :: "rev_env \<Rightarrow> string \<Rightarrow> string \<Rightarrow> string \<Rightarrow> bytes option \<Rightarrow> rev_state \<Rightarrow> rev_outcome" where
  "handle_tag env p action name version_param st =
     (let ph = compute_prefix_hash (env_path_hash env) (es_tree st) p; tp = tag_path ph name in
      if \<not> env_permits env ''tag'' p then err 403 ''capability_denied'' st
      else if action_of action name = ''delete''
      then
        (if name = [] then err 400 ''invalid_params'' st
         else if get_hash_at_path (es_tree st) tp = None then err 404 ''tag_not_found'' st
         else (Inr (Ok (TagDeleted name)), remove_path tp st))
      else if action_of action name = ''create''
      then
        (if name = [] then err 400 ''invalid_params'' st
         else if get_hash_at_path (es_tree st) tp \<noteq> None then err 409 ''tag_exists'' st
         else
           and_then (named_hash st ph version_param, st)
             (\<lambda>target st.
                case target of
                  None \<Rightarrow> err 400 ''no_head'' st
                | Some h \<Rightarrow> (Inr (Ok (TagCreated name h)),
                             snd (env_emit env tp (hash_ref h) (handler_context_of env ''tag'') st))))
      else
        and_then (names_below st (''system/revision/'' @ ph @ ''/tags/''), st)
          (\<lambda>tags st. (Inr (Ok (TagList tags)), st)))"

subsection \<open>Checkout\<close>

text \<open>The paths of the version left behind that the new one does not have are unbound where they are bound.\<close>

fun leave_behind ::
  "rev_env \<Rightarrow> string \<Rightarrow> emit_context \<Rightarrow> (string \<times> bytes) list \<Rightarrow> cascade_warning list \<Rightarrow> rev_state
     \<Rightarrow> cascade_warning list \<times> rev_state" where
  "leave_behind env p ctx [] warnings st = (warnings, st)"
| "leave_behind env p ctx ((relative, h) # bindings) warnings st =
     (let uri = env_uri st (p @ relative) in
      if is_deletion_marker env (Some h) \<or> et_get (es_tree st) uri = None
      then leave_behind env p ctx bindings warnings st
      else
        (case env_delete env uri ctx st of
           (r, st') \<Rightarrow> leave_behind env p ctx bindings (warnings @ halt_warning relative r) st'))"

definition checkout_version ::
  "rev_env \<Rightarrow> string \<Rightarrow> bytes \<Rightarrow> string option \<Rightarrow> (string, bytes) dict \<Rightarrow> (string, bytes) dict \<Rightarrow> rev_state \<Rightarrow> rev_outcome" where
  "checkout_version env p version_hash active version_bindings source_bindings st =
     (let ph = compute_prefix_hash (env_path_hash env) (es_tree st) p;
          ctx = handler_context_of env ''checkout'';
          st1 = snd (env_emit env (head_path ph) (hash_ref (Some version_hash)) ctx st);
          st2 = (case active of
                   Some name \<Rightarrow> snd (env_emit env (active_branch_path ph) (OtherEntity (TextEntity name)) ctx st1)
                 | None \<Rightarrow> remove_path (active_branch_path ph) st1);
          (acc, st3) = apply_bindings_to_tree env version_bindings p ctx True st2;
          (warnings, st4) = leave_behind env p ctx
             (filter (\<lambda>(path, h). path \<notin> fst ` set version_bindings) source_bindings) (ap_warnings acc) st3;
          final_head = (case get_entity_at_path (es_tree st4) (es_store st4) (head_path ph) of
                          Some (OtherEntity (HashRef h)) \<Rightarrow> h
                        | _ \<Rightarrow> Some version_hash)
      in (Inr (Ok (CheckedOut version_hash final_head active warnings)), st4))"

definition handle_checkout :: "rev_env \<Rightarrow> string \<Rightarrow> string \<Rightarrow> bytes option \<Rightarrow> rev_state \<Rightarrow> rev_outcome" where
  "handle_checkout env p branch_name version_param st =
     (let ph = compute_prefix_hash (env_path_hash env) (es_tree st) p;
          go = (\<lambda>version_hash active st.
            and_then (case version_hash of None \<Rightarrow> Inr None | Some v \<Rightarrow> get_version_bindings env (es_store st) v, st)
              (\<lambda>version_bindings st.
                 case version_bindings of
                   None \<Rightarrow> err 404 ''version_not_found'' st
                 | Some vb \<Rightarrow>
                     and_then (bindings_or_empty env st (case typed_head st ph of
                                  None \<Rightarrow> None | Some h \<Rightarrow> if h = [] then None else Some h), st)
                       (\<lambda>source_bindings st. checkout_version env p (the version_hash) active vb source_bindings st)))
      in if \<not> env_permits env ''checkout'' p then err 403 ''capability_denied'' st
         else if branch_name \<noteq> []
         then (case get_entity_at_path (es_tree st) (es_store st) (branch_path ph branch_name) of
                 None \<Rightarrow> err 404 ''branch_not_found'' st
               | Some e \<Rightarrow> and_then (hash_field e, st) (\<lambda>h st. go h (Some branch_name) st))
         else (case version_param of
                 Some v \<Rightarrow> go (Some v) None st
               | None \<Rightarrow> err 400 ''invalid_params'' st))"

subsection \<open>Cherry-pick and revert\<close>

text \<open>The bindings that a difference makes of others.\<close>

definition patched :: "snapshot_diff \<Rightarrow> (string, bytes) dict \<Rightarrow> (string, bytes) dict" where
  "patched d bindings =
     fold (\<lambda>(path, h). AList.delete path) (sd_removed d)
       (fold (\<lambda>(path, _, h). AList.update path h) (sd_changed d)
         (fold (\<lambda>(path, h). AList.update path h) (sd_added d) bindings))"

fun apply_added ::
  "rev_env \<Rightarrow> string \<Rightarrow> emit_context \<Rightarrow> (string \<times> bytes) list \<Rightarrow> nat \<times> cascade_warning list \<Rightarrow> rev_state
     \<Rightarrow> (nat \<times> cascade_warning list) \<times> rev_state" where
  "apply_added env p ctx [] acc st = (acc, st)"
| "apply_added env p ctx ((path, h) # bindings) (n, ws) st =
     (let uri = env_uri st (p @ path) in
      if is_deletion_marker env (Some h) \<and> et_get (es_tree st) uri = None
      then apply_added env p ctx bindings (n + 1, ws) st
      else
        (case (if is_deletion_marker env (Some h) then env_delete env uri ctx st else env_emit_hash env uri h ctx st) of
           (r, st') \<Rightarrow> apply_added env p ctx bindings (n + 1, ws @ halt_warning path r) st'))"

fun apply_changed ::
  "rev_env \<Rightarrow> string \<Rightarrow> emit_context \<Rightarrow> (string \<times> bytes \<times> bytes) list \<Rightarrow> nat \<times> cascade_warning list \<Rightarrow> rev_state
     \<Rightarrow> (nat \<times> cascade_warning list) \<times> rev_state" where
  "apply_changed env p ctx [] acc st = (acc, st)"
| "apply_changed env p ctx ((path, _, h) # cs) (n, ws) st =
     (let uri = env_uri st (p @ path) in
        (case (if is_deletion_marker env (Some h) then env_delete env uri ctx st else env_emit_hash env uri h ctx st) of
           (r, st') \<Rightarrow> apply_changed env p ctx cs (n + 1, ws @ halt_warning path r) st'))"

fun apply_removed ::
  "rev_env \<Rightarrow> string \<Rightarrow> emit_context \<Rightarrow> (string \<times> bytes) list \<Rightarrow> nat \<times> cascade_warning list \<Rightarrow> rev_state
     \<Rightarrow> (nat \<times> cascade_warning list) \<times> rev_state" where
  "apply_removed env p ctx [] acc st = (acc, st)"
| "apply_removed env p ctx ((path, _) # bindings) (n, ws) st =
     (case env_delete env (env_uri st (p @ path)) ctx st of
        (r, st') \<Rightarrow> apply_removed env p ctx bindings (n + 1, ws @ halt_warning path r) st')"

definition apply_diff :: "rev_env \<Rightarrow> string \<Rightarrow> emit_context \<Rightarrow> snapshot_diff \<Rightarrow> rev_state \<Rightarrow> (nat \<times> cascade_warning list) \<times> rev_state" where
  "apply_diff env p ctx d st =
     (let (acc1, st1) = apply_added env p ctx (sd_added d) (0, []) st;
          (acc2, st2) = apply_changed env p ctx (sd_changed d) acc1 st1
      in apply_removed env p ctx (sd_removed d) acc2 st2)"

text \<open>The parent to compare a version with: the one asked for, or the only one.\<close>

definition chosen_parent :: "version \<Rightarrow> bytes option \<Rightarrow> string + bytes" where
  "chosen_parent v parent_param =
     (case parent_param of
        Some q \<Rightarrow> if q \<in> set (ve_parents v) then Inr q else Inl ''invalid_parent''
      | None \<Rightarrow> if 1 < length (ve_parents v) then Inl ''ambiguous_parent'' else Inr (hd (ve_parents v)))"

text \<open>A difference, applied to the tree below a prefix, becomes the version after the head.\<close>

definition commit_diff ::
  "rev_env \<Rightarrow> string \<Rightarrow> string \<Rightarrow> string \<Rightarrow> bytes \<Rightarrow> snapshot_diff \<Rightarrow> rev_state \<Rightarrow> rev_outcome" where
  "commit_diff env p operation status version_hash d st =
     (let ph = compute_prefix_hash (env_path_hash env) (es_tree st) p in
      and_then (build_version_trie env (patched d (current_bindings env p st)) st)
        (\<lambda>root st1.
           and_then (case get_entity_at_path (es_tree st1) (es_store st1) (head_path ph) of
                       None \<Rightarrow> Inr None | Some e \<Rightarrow> hash_field e, st1)
             (\<lambda>head_hash st1.
                let parents = (case head_hash of None \<Rightarrow> [] | Some h \<Rightarrow> if h = [] then [] else [h]);
                    (new_hash, st2) = put_version env root parents st1;
                    st3 = update_head_and_branch env ph new_hash operation st2
                in case apply_diff env p (handler_context_of env operation) d st3 of
                     ((applied, warnings), st4) \<Rightarrow>
                       (Inr (Ok (Picked status version_hash new_hash applied warnings)), st4))))"

definition pick_version ::
  "rev_env \<Rightarrow> string \<Rightarrow> string \<Rightarrow> bytes + string \<Rightarrow> bytes option
     \<Rightarrow> (bytes \<Rightarrow> (string, bytes) dict \<Rightarrow> (string, bytes) dict \<Rightarrow> rev_state \<Rightarrow> rev_outcome) \<Rightarrow> rev_state \<Rightarrow> rev_outcome" where
  "pick_version env operation p version_ref parent_param go st =
     (let ph = compute_prefix_hash (env_path_hash env) (es_tree st) p in
      if ref_empty version_ref then err 400 ''invalid_params'' st
      else if \<not> env_permits env operation p then err 403 ''capability_denied'' st
      else case resolve_ref st ph version_ref of
        None \<Rightarrow> err 404 ''ref_not_found'' st
      | Some version_hash \<Rightarrow>
          (case get_version_entity (es_store st) version_hash of
             None \<Rightarrow> err 500 ''invalid_version'' st
           | Some v \<Rightarrow>
               if ve_parents v = [] then err 400 ''no_parent'' st
               else case chosen_parent v parent_param of
                 Inl code \<Rightarrow> err 400 code st
               | Inr parent_hash \<Rightarrow>
                   and_then (get_version_bindings env (es_store st) version_hash, st)
                     (\<lambda>version_bindings st. and_then (get_version_bindings env (es_store st) parent_hash, st)
                        (\<lambda>parent_bindings st.
                           case (version_bindings, parent_bindings) of
                             (Some vb, Some pb) \<Rightarrow> go version_hash vb pb st
                           | _ \<Rightarrow> err 500 ''invalid_version'' st))))"

definition handle_cherry_pick :: "rev_env \<Rightarrow> string \<Rightarrow> bytes + string \<Rightarrow> bytes option \<Rightarrow> rev_state \<Rightarrow> rev_outcome" where
  "handle_cherry_pick env p version_ref parent_param st =
     pick_version env ''cherry-pick'' p version_ref parent_param
       (\<lambda>version_hash vb pb. commit_diff env p ''cherry-pick'' ''cherry_picked'' version_hash (compute_snapshot_diff env pb vb)) st"

definition handle_revert :: "rev_env \<Rightarrow> string \<Rightarrow> bytes + string \<Rightarrow> bytes option \<Rightarrow> rev_state \<Rightarrow> rev_outcome" where
  "handle_revert env p version_ref parent_param st =
     pick_version env ''revert'' p version_ref parent_param
       (\<lambda>version_hash vb pb. commit_diff env p ''revert'' ''reverted'' version_hash (compute_snapshot_diff env vb pb)) st"

end
