(* ===== verification/Revision_Settings.thy ===== *)
theory Revision_Settings
  imports Revision_Ops
begin

section \<open>Writing the configurations of the revision extension\<close>

text \<open>
  The \<open>config\<close> and \<open>merge-config\<close> operations of \<open>entity_handlers/revision.py\<close>. The configuration of a request is
  of the type that the extension reads back (\<open>rev_config\<close>, for merges a dictionary); the entity and its bare
  data, which the operations accept alike, are the same value here.
\<close>

subsection \<open>The versioning configuration of a prefix\<close>

definition tracking_entity :: "string \<Rightarrow> rev_entity stored" where
  "tracking_entity p =
     OtherEntity (PlainEntity ''system/tree/tracking-config'' (VDict [(''prefix'', VStr p), (''enabled'', VBool True)]))"

definition stale :: "rev_state \<Rightarrow> string \<Rightarrow> bytes option \<Rightarrow> bool" where
  "stale st path expected \<longleftrightarrow> expected \<noteq> None \<and> et_get (es_tree st) (env_uri st path) \<noteq> expected"

definition accepted :: "emit_result \<Rightarrow> bool" where
  "accepted r \<longleftrightarrow> er_status r \<in> {200, 207}"

text \<open>The configuration that a hash denotes.\<close>

definition stored_config :: "rev_state \<Rightarrow> bytes option \<Rightarrow> rev_config option" where
  "stored_config st h =
     (case h of
        None \<Rightarrow> None
      | Some b \<Rightarrow>
          (case cs_get (es_store st) b of
             Some (OtherEntity (RevisionConfig c)) \<Rightarrow> Some c
           | _ \<Rightarrow> None))"

definition auto_versioned :: "rev_config option \<Rightarrow> bool" where
  "auto_versioned c = (case c of None \<Rightarrow> False | Some c \<Rightarrow> rc_auto_version c)"

text \<open>The first of the reasons for which a configuration is refused.\<close>

definition config_refusal :: "rev_config \<Rightarrow> string option" where
  "config_refusal c =
     (if \<not> list_all (\<lambda>pat. validate_exclude_pattern (VStr pat)) (rc_exclude c @ rc_exclude_types c)
      then Some ''config/invalid-exclude-pattern''
      else if rc_auto_version c \<and> validate_revision_config c \<noteq> [] then Some ''config/missing-required-exclude''
      else if rc_auto_version c \<and> prefix_encompasses (rc_prefix c) ''system/tree/root/''
        \<and> \<not> exclude_covers (rc_exclude c) ''system/tree/root/''
      then Some ''config/missing-trie-root-exclude''
      else if rc_merge_order c \<noteq> None \<and> the (rc_merge_order c) \<notin> {''deterministic'', ''caller-perspective''}
      then Some ''config/invalid-merge-order''
      else if rc_oscillation_depth c \<noteq> None \<and> the (rc_oscillation_depth c) < 2
      then Some ''config/oscillation-depth-below-minimum''
      else None)"

text \<open>The configuration is written after the tracking configuration that it enables, and before the one it disables.\<close>

definition write_config :: "rev_env \<Rightarrow> rev_config \<Rightarrow> string \<Rightarrow> rev_state \<Rightarrow> rev_outcome" where
  "write_config env cfg config_path st =
     (let previous = et_get (es_tree st) (env_uri st config_path);
          was_auto = auto_versioned (stored_config st previous);
          enabling = rc_auto_version cfg \<and> \<not> was_auto;
          disabling = \<not> rc_auto_version cfg \<and> was_auto;
          tracking_path = tracking_config_path (rc_prefix cfg);
          existed = et_get (es_tree st) (env_uri st tracking_path) \<noteq> None;
          ctx = from_handler_grant (env_ctx env) ''config'';
          tracked = (if enabling then map_prod Some id (env_emit env tracking_path (tracking_entity (rc_prefix cfg)) ctx st)
                     else (None, st))
      in case tracked of (tc_result, st1) \<Rightarrow>
        if tc_result \<noteq> None \<and> \<not> accepted (the tc_result) then err 500 ''config/tracking-config-write-failed'' st1
        else
          (case env_emit env config_path (OtherEntity (RevisionConfig cfg)) ctx st1 of
             (r, st2) \<Rightarrow>
               if \<not> accepted r then err 500 ''config/config-write-failed'' st2
               else
                 let st3 = (if disabling then snd (env_delete env tracking_path ctx st2) else st2);
                     action = (if disabling then Some ''deleted''
                               else if enabling then Some (if existed then ''updated'' else ''created'') else None)
                 in (Inr (Ok (ConfigResult \<lparr>cg_path = config_path, cg_hash = er_hash r, cg_previous = previous,
                       cg_tracking = map_option (\<lambda>a. (tracking_path, a)) action\<rparr>)), st3)))"

definition handle_config_set :: "rev_env \<Rightarrow> rev_config option \<Rightarrow> bytes option \<Rightarrow> rev_state \<Rightarrow> rev_outcome" where
  "handle_config_set env config expected st =
     (case config of
        None \<Rightarrow> err 400 ''config/missing-config'' st
      | Some cfg \<Rightarrow>
          if rc_prefix cfg = [] then err 400 ''config/invalid-prefix'' st
          else
            let config_path = config_path_for_prefix (compute_prefix_hash (env_path_hash env) (es_tree st) (rc_prefix cfg)) in
            (case config_refusal cfg of
               Some code \<Rightarrow> err 400 code st
             | None \<Rightarrow>
                 if stale st config_path expected then err 409 ''config/concurrent-modification'' st
                 else write_config env cfg config_path st))"

definition handle_config_delete :: "rev_env \<Rightarrow> string \<Rightarrow> bytes option \<Rightarrow> rev_state \<Rightarrow> rev_outcome" where
  "handle_config_delete env p expected st =
     (let config_path = config_path_for_prefix (compute_prefix_hash (env_path_hash env) (es_tree st) p) in
      if p = [] then err 400 ''config/missing-prefix'' st
      else if stale st config_path expected then err 409 ''config/concurrent-modification'' st
      else
        case et_get (es_tree st) (env_uri st config_path) of
          None \<Rightarrow> err 404 ''config/not-found'' st
        | Some previous \<Rightarrow>
            let prev = stored_config st (Some previous);
                ctx = from_handler_grant (env_ctx env) ''config'';
                st1 = snd (env_delete env config_path ctx st);
                tracked = (case prev of None \<Rightarrow> None
                           | Some c \<Rightarrow> if rc_auto_version c \<and> rc_prefix c \<noteq> [] then Some (tracking_config_path (rc_prefix c))
                                       else None);
                st2 = (case tracked of None \<Rightarrow> st1 | Some path \<Rightarrow> snd (env_delete env path ctx st1))
            in (Inr (Ok (ConfigResult \<lparr>cg_path = config_path, cg_hash = None, cg_previous = Some previous,
                  cg_tracking = map_option (\<lambda>path. (path, ''deleted'')) tracked\<rparr>)), st2))"

text \<open>\<open>params.get("prefix", name)\<close>: the prefix to delete at is the name when none is given.\<close>

definition handle_config ::
  "rev_env \<Rightarrow> string \<Rightarrow> string \<Rightarrow> rev_config option \<Rightarrow> string option \<Rightarrow> bytes option \<Rightarrow> rev_state \<Rightarrow> rev_outcome" where
  "handle_config env name action config p expected st =
     (if name = [] then err 400 ''config/missing-name'' st
      else if action = ''set'' then handle_config_set env config expected st
      else if action = ''delete''
      then handle_config_delete env (case p of None \<Rightarrow> name | Some q \<Rightarrow> q) expected st
      else err 400 ''config/invalid-action'' st)"

subsection \<open>Merge configurations\<close>

definition merge_config_entity :: "(string \<times> val) list \<Rightarrow> rev_entity stored" where
  "merge_config_entity cfg = OtherEntity (PlainEntity ''system/revision/merge-config'' (VDict cfg))"

definition merge_config_refusal :: "string \<Rightarrow> (string \<times> val) list \<Rightarrow> string option" where
  "merge_config_refusal scope cfg =
     (if validate_merge_config cfg \<noteq> [] then Some ''invalid_strategy''
      else if scope = ''path'' \<and> \<not> truthy (dict_get cfg ''pattern'') then Some ''invalid_params''
      else if scope = ''path'' \<and> \<not> validate_exclude_pattern (dict_get cfg ''pattern'')
      then Some ''config/invalid-merge-pattern''
      else None)"

definition handle_merge_config ::
  "rev_env \<Rightarrow> string \<Rightarrow> string \<Rightarrow> string \<Rightarrow> val \<Rightarrow> bytes option \<Rightarrow> rev_state \<Rightarrow> rev_outcome" where
  "handle_merge_config env scope name action config_arg expected st =
     (let write_path = (if scope = ''path'' then MERGE_CONFIG_PATH_PREFIX @ name else MERGE_CONFIG_TYPE_PREFIX @ name);
          current = et_get (es_tree st) (env_uri st write_path);
          ctx = from_handler_grant (env_ctx env) ''merge-config''
      in if scope \<notin> {''path'', ''type''} then err 400 ''invalid_scope'' st
         else if name = [] then err 400 ''invalid_params'' st
         else if action \<notin> {''set'', ''delete''} then err 400 ''invalid_action'' st
         else if stale st write_path expected then err 409 ''stale_expected_hash'' st
         else if action = ''delete''
         then
           (if current = None then (Inr (Ok (MergeConfigResult write_path None ''no_change'')), st)
            else (Inr (Ok (MergeConfigResult write_path None ''deleted'')), snd (env_delete env write_path ctx st)))
         else
           (case config_arg of
              VNull \<Rightarrow> err 400 ''missing_config'' st
            | VDict cfg \<Rightarrow>
                (case merge_config_refusal scope cfg of
                   Some code \<Rightarrow> err 400 code st
                 | None \<Rightarrow>
                     let candidate = env_hash env (merge_config_entity cfg) in
                     if current = Some candidate
                     then (Inr (Ok (MergeConfigResult write_path (Some candidate) ''no_change'')), st)
                     else
                       (case env_emit env write_path (merge_config_entity cfg) ctx st of
                          (r, st') \<Rightarrow>
                            if \<not> accepted r then err 500 ''internal_error'' st'
                            else (Inr (Ok (MergeConfigResult write_path (er_hash r) ''set'')), st')))
            | _ \<Rightarrow> err 400 ''invalid_params'' st))"

end
