(* ===== verification/Revision_Remote.thy ===== *)
theory Revision_Remote
  imports Revision_Refs Revision_Settings
begin

section \<open>Fetch, pull and push between peers\<close>

text \<open>
  The operations of \<open>entity_handlers/revision.py\<close> that serve another peer (fetch, fetch-entities, fetch-diff),
  those that call one (pull, push), and the dispatcher over all operations. The other peer is a function of
  the request on a state of its own: it answers, or the call raises. A pull takes an answer to \<open>fetch\<close> that is
  no fetch result, and one to \<open>fetch-entities\<close> that is not its result, for no envelope.
\<close>

subsection \<open>Requests\<close>

text \<open>
  One constructor per operation, with the parameters its handler reads. \<open>ReceiveVersion\<close> and \<open>UpdateHead\<close> are
  what a push sends.
\<close>

datatype rev_request =
    Commit string
  | Log string "int option" bool "bytes option"
  | Status string
  | MergeVersion string "bytes + string" string bool
  | Resolve string string "bytes option"
  | FindAncestor bytes bytes
  | Diff string "bytes + string" "bytes + string"
  | Branch string string string "bytes option"
  | Checkout string string "bytes option"
  | Tag string string string "bytes option"
  | CherryPick string "bytes + string" "bytes option"
  | Revert string "bytes + string" "bytes option"
  | Fetch string "bytes option" "int option"
  | FetchEntities string "bytes option" "bytes list"
  | FetchDiff "string option" "bytes option"
  | Pull "string option" string "string option" "bytes option" "int option"
  | Push string string "string option" bool
  | SetConfig string string "rev_config option" "string option" "bytes option"
  | SetMergeConfig string string string val "bytes option"
  | ReceiveVersion version
  | UpdateHead string "bytes option"
  | OtherOperation string

type_synonym 'r remote = "string \<Rightarrow> rev_request \<Rightarrow> 'r \<Rightarrow> rev_response result \<times> 'r"

subsection \<open>Serving another peer\<close>

definition add_included :: "bytes \<Rightarrow> rev_store \<Rightarrow> (bytes, rev_entity stored) dict \<Rightarrow> (bytes, rev_entity stored) dict" where
  "add_included h cs d = (case cs_get cs h of None \<Rightarrow> d | Some e \<Rightarrow> AList.update h e d)"

text \<open>The version entries, each with the root node of its snapshot.\<close>

fun included_versions ::
  "rev_store \<Rightarrow> bytes list \<Rightarrow> (bytes, rev_entity stored) dict \<Rightarrow> (bytes, rev_entity stored) dict" where
  "included_versions cs [] d = d"
| "included_versions cs (vh # vhs) d =
     included_versions cs vhs
       (case get_version_entity cs vh of
          None \<Rightarrow> d
        | Some v \<Rightarrow>
            let d' = AList.update vh (OtherEntity (VersionEntry v)) d in
            (case ve_root v of
               None \<Rightarrow> d'
             | Some root \<Rightarrow> if root = [] then d' else add_included root cs d'))"

definition handle_fetch :: "rev_env \<Rightarrow> string \<Rightarrow> bytes option \<Rightarrow> int option \<Rightarrow> rev_state \<Rightarrow> rev_outcome" where
  "handle_fetch env p since depth st =
     (let ph = compute_prefix_hash (env_path_hash env) (es_tree st) p; cs = es_store st in
      if \<not> env_permits env ''fetch'' p then err 403 ''capability_denied'' st
      else case get_entity_at_path (es_tree st) cs (head_path ph) of
        None \<Rightarrow> (Inr (Ok (FetchResult None [] False [])), st)
      | Some e \<Rightarrow>
          and_then (hash_field e, st)
            (\<lambda>head_hash st.
               let walked = walk_history cs (case head_hash of None \<Rightarrow> [] | Some h \<Rightarrow> h) depth;
                   version_hashes = (case since of
                       None \<Rightarrow> walked
                     | Some s \<Rightarrow> if s = [] then walked else takeWhile (\<lambda>vh. vh \<noteq> s) walked);
                   has_more = (case depth of None \<Rightarrow> False | Some d \<Rightarrow> d \<le> int (length version_hashes))
               in (Inr (Ok (FetchResult head_hash version_hashes has_more (included_versions cs version_hashes []))), st)))"

text \<open>What a request may name: the hashes below the root of a version in the history of the head.\<close>

fun sort_requested ::
  "rev_store \<Rightarrow> bytes set \<Rightarrow> bytes list \<Rightarrow> bytes list \<times> bytes list \<times> (bytes, rev_entity stored) dict
     \<Rightarrow> bytes list \<times> bytes list \<times> (bytes, rev_entity stored) dict" where
  "sort_requested cs valid [] acc = acc"
| "sort_requested cs valid (h # hs) (found, missing, included) =
     sort_requested cs valid hs
       (case (if h \<in> valid then cs_get cs h else None) of
          None \<Rightarrow> (found, missing @ [h], included)
        | Some e \<Rightarrow> (found @ [h], missing, AList.update h e included))"

definition snapshot_valid :: "rev_store \<Rightarrow> bytes \<Rightarrow> bytes option \<Rightarrow> bool" where
  "snapshot_valid cs root head_hash =
     (\<exists>vh \<in> set (walk_history cs (case head_hash of None \<Rightarrow> [] | Some h \<Rightarrow> h) None).
        \<exists>v \<in> set_option (get_version_entity cs vh). ve_root v = Some root)"

definition handle_fetch_entities ::
  "rev_env \<Rightarrow> string \<Rightarrow> bytes option \<Rightarrow> bytes list \<Rightarrow> rev_state \<Rightarrow> rev_outcome" where
  "handle_fetch_entities env p root requested st =
     (let ph = compute_prefix_hash (env_path_hash env) (es_tree st) p; cs = es_store st in
      if \<not> env_permits env ''fetch-entities'' p then err 403 ''capability_denied'' st
      else if root = None \<or> root = Some [] then err 400 ''invalid_params'' st
      else if requested = [] then err 400 ''invalid_params'' st
      else case get_entity_at_path (es_tree st) cs (head_path ph) of
        None \<Rightarrow> err 404 ''no_versions'' st
      | Some e \<Rightarrow>
          and_then (hash_field e, st)
            (\<lambda>head_hash st.
               if \<not> snapshot_valid cs (the root) head_hash then err 403 ''invalid_snapshot'' st
               else
                 and_then (collect_trie_hashes (env_limit env) (the root) cs, st)
                   (\<lambda>valid st. case sort_requested cs valid requested ([], [], []) of
                      (found, missing, included) \<Rightarrow> (Inr (Ok (FetchedEntities found missing included)), st))))"

text \<open>The root of the version that a base denotes, directly or through a \<open>system/hash\<close>; no base denotes none.\<close>

definition base_root :: "rev_store \<Rightarrow> bytes option \<Rightarrow> (int \<times> string) + bytes option" where
  "base_root cs base =
     (if is_zero_hash base then Inr None
      else
        case cs_get cs (the base) of
          None \<Rightarrow> Inl (404, ''base_not_found'')
        | Some e \<Rightarrow>
            (case (case e of
                     OtherEntity (HashRef None) \<Rightarrow> Inl (400, ''base_not_a_version'')
                   | OtherEntity (HashRef (Some w)) \<Rightarrow>
                       (case cs_get cs w of None \<Rightarrow> Inl (404, ''base_not_found'') | Some e' \<Rightarrow> Inr e')
                   | _ \<Rightarrow> Inr e) of
               Inl r \<Rightarrow> Inl r
             | Inr (OtherEntity (VersionEntry v)) \<Rightarrow> Inr (ve_root v)
             | Inr _ \<Rightarrow> Inl (400, ''base_not_a_version'')))"

definition handle_fetch_diff :: "rev_env \<Rightarrow> string option \<Rightarrow> bytes option \<Rightarrow> rev_state \<Rightarrow> rev_outcome" where
  "handle_fetch_diff env prefix_param base st =
     (case prefix_param of
        None \<Rightarrow> err 400 ''invalid_params'' st
      | Some p \<Rightarrow>
          let ph = compute_prefix_hash (env_path_hash env) (es_tree st) p; cs = es_store st in
          if \<not> env_permits env ''fetch-diff'' p then err 403 ''capability_denied'' st
          else case get_entity_at_path (es_tree st) cs (head_path ph) of
            Some (OtherEntity (HashRef head_hash)) \<Rightarrow>
              (case (case head_hash of None \<Rightarrow> None | Some h \<Rightarrow> get_version_entity cs h) of
                 None \<Rightarrow> err 500 ''internal_error'' st
               | Some target \<Rightarrow>
                   (case base_root cs base of
                      Inl (status, code) \<Rightarrow> err status code st
                    | Inr broot \<Rightarrow>
                        and_then (case broot of None \<Rightarrow> Inr {} | Some r \<Rightarrow> collect_trie_hashes (env_limit env) r cs, st)
                          (\<lambda>skip st.
                             and_then (case ve_root target of
                                         None \<Rightarrow> Inr []
                                       | Some r \<Rightarrow> collect_trie_entities_except (env_limit env) skip cs r [], st)
                               (\<lambda>included st. (Inr (Ok (SnapshotResult (ve_root target) included)), st)))))
          | _ \<Rightarrow> err 404 ''no_local_state'' st)"

subsection \<open>Pull\<close>

definition PULL_MAX_ROUNDS :: nat where "PULL_MAX_ROUNDS = 32"

text \<open>Nodes and bound entities below a root that the store lacks; a node that is missing hides what is below it.\<close>

primrec missing_of_entries ::
  "(bytes \<Rightarrow> bytes set \<times> bytes list \<Rightarrow> (bytes set \<times> bytes list) result) \<Rightarrow> rev_store
     \<Rightarrow> trie_entry list \<Rightarrow> bytes set \<times> bytes list \<Rightarrow> (bytes set \<times> bytes list) result" where
  "missing_of_entries rec cs [] acc = Inr acc"
| "missing_of_entries rec cs (item # entries) acc =
     bind_r (case item of
               Link h \<Rightarrow> rec h acc
             | Bucket bucket \<Rightarrow> Inr (fst acc, snd acc @ filter (\<lambda>h. \<not> cs_has cs h) (map snd bucket)))
       (missing_of_entries rec cs entries)"

primrec visit_missing ::
  "nat \<Rightarrow> rev_store \<Rightarrow> bytes \<Rightarrow> bytes set \<times> bytes list \<Rightarrow> (bytes set \<times> bytes list) result" where
  "visit_missing 0 cs h acc = Inl RecursionError"
| "visit_missing (Suc n) cs h acc =
     (case acc of (seen, missing) \<Rightarrow>
        if h = [] \<or> h \<in> seen then Inr acc
        else case cs_get cs h of
          None \<Rightarrow> Inr (insert h seen, missing @ [h])
        | Some (TrieNode node) \<Rightarrow>
            missing_of_entries (visit_missing n cs) cs (nd_data node) (insert h seen, missing)
        | Some (OtherEntity x) \<Rightarrow> Inr (insert h seen, missing))"

definition collect_missing_pull_hashes :: "nat \<Rightarrow> rev_store \<Rightarrow> bytes option \<Rightarrow> bytes list result" where
  "collect_missing_pull_hashes limit cs root =
     (case root of
        None \<Rightarrow> Inr []
      | Some r \<Rightarrow> if r = [] then Inr [] else map_sum id snd (visit_missing limit cs r ({}, [])))"

text \<open>Entities are stored under their own hash, whatever the key they came with.\<close>

definition ingest :: "rev_env \<Rightarrow> (bytes, rev_entity stored) dict \<Rightarrow> rev_state \<Rightarrow> rev_state" where
  "ingest env included st =
     st\<lparr>es_store := fold (\<lambda>(h, e) cs. snd (cs_put (env_hash env) e cs)) included (es_store st)\<rparr>"

text \<open>
  The rounds end with no hash missing, with an answer that adds nothing, or with their number; an answer that
  is an error ends the pull, which \<open>Inr (Some r)\<close> stands for.
\<close>

primrec pull_rounds ::
  "rev_env \<Rightarrow> 'r remote \<Rightarrow> string \<Rightarrow> string \<Rightarrow> bytes option \<Rightarrow> nat \<Rightarrow> rev_state \<Rightarrow> 'r
     \<Rightarrow> (rev_response option result \<times> rev_state) \<times> 'r" where
  "pull_rounds env remote peer p root 0 st r = ((Inr None, st), r)"
| "pull_rounds env remote peer p root (Suc n) st r =
     (case collect_missing_pull_hashes (env_limit env) (es_store st) root of
        Inl e \<Rightarrow> ((Inl e, st), r)
      | Inr missing \<Rightarrow>
          if missing = [] then ((Inr None, st), r)
          else
            (case remote peer (FetchEntities p root missing) r of
               (Inl e, r') \<Rightarrow> ((Inr (Some (Err 502 ''remote_fetch_failed'')), st), r')
             | (Inr (Err status code), r') \<Rightarrow> ((Inr (Some (Err 502 ''remote_fetch_failed'')), st), r')
             | (Inr (Ok (FetchedEntities found miss included)), r') \<Rightarrow>
                 if included = [] then ((Inr None, st), r')
                 else pull_rounds env remote peer p root n (ingest env included st) r'
             | (Inr (Ok _), r') \<Rightarrow> ((Inr None, st), r')))"

definition handle_pull ::
  "rev_env \<Rightarrow> 'r remote \<Rightarrow> string option \<Rightarrow> string \<Rightarrow> string option \<Rightarrow> bytes option \<Rightarrow> int option \<Rightarrow> rev_state \<Rightarrow> 'r
     \<Rightarrow> rev_outcome \<times> 'r" where
  "handle_pull env remote prefix_param peer remote_prefix since depth st r =
     (case prefix_param of
        None \<Rightarrow> (err 400 ''invalid_params'' st, r)
      | Some p \<Rightarrow>
          if peer = [] then (err 400 ''invalid_params'' st, r)
          else if \<not> env_permits env ''pull'' p then (err 403 ''capability_denied'' st, r)
          else
            let q = (case remote_prefix of None \<Rightarrow> p | Some rp \<Rightarrow> if rp = [] then p else rp) in
            case remote peer (Fetch q since depth) r of
              (Inl e, r') \<Rightarrow> (err 502 ''remote_fetch_failed'' st, r')
            | (Inr (Err status code), r') \<Rightarrow> (err 502 ''remote_fetch_failed'' st, r')
            | (Inr (Ok (FetchResult head versions has_more included)), r') \<Rightarrow>
                let st1 = ingest env included st in
                (case (case head of None \<Rightarrow> None | Some h \<Rightarrow> if h = [] then None else Some h) of
                   None \<Rightarrow> ((Inr (Ok (RemoteEmpty p)), st1), r')
                 | Some h \<Rightarrow>
                     (case get_version_entity (es_store st1) h of
                        None \<Rightarrow> (err 500 ''internal_error'' st1, r')
                      | Some v \<Rightarrow>
                          (case pull_rounds env remote peer q (ve_root v) PULL_MAX_ROUNDS st1 r' of
                             ((Inl e, st2), r'') \<Rightarrow> ((Inl e, st2), r'')
                           | ((Inr (Some answer), st2), r'') \<Rightarrow> ((Inr answer, st2), r'')
                           | ((Inr None, st2), r'') \<Rightarrow> (handle_merge env p (Inl h) ''three-way'' False st2, r''))))
            | (Inr (Ok _), r') \<Rightarrow> (err 502 ''remote_fetch_failed'' st, r'))"

subsection \<open>Push\<close>

text \<open>The versions from the head on, not past the head of the remote.\<close>

function versions_ahead :: "rev_store \<Rightarrow> bytes option \<Rightarrow> bytes list \<Rightarrow> bytes set \<Rightarrow> bytes list \<Rightarrow> bytes list" where
  "versions_ahead cs remote_head out seen [] = out"
| "versions_ahead cs remote_head out seen (current # queue) =
     (if current \<in> seen then versions_ahead cs remote_head out seen queue
      else
        let seen' = insert current seen in
        if remote_head = Some current \<and> current \<noteq> [] then versions_ahead cs remote_head out seen' queue
        else versions_ahead cs remote_head (out @ [current]) seen'
               (queue @ filter (\<lambda>q. q \<notin> seen') (parents_of cs current)))"
  by pat_completeness auto
termination
proof (relation "measures [\<lambda>(cs, _, _, seen, _). unseen cs seen, \<lambda>(_, _, _, _, queue). length queue]", goal_cases)
  case 1
  show ?case by simp
next
  case (2 cs rh out seen current queue)
  then show ?case by simp
next
  case (3 cs rh out seen current queue x)
  then show ?case using unseen_mono [of cs current seen] by auto
next
  case (4 cs rh out seen current queue x)
  then show ?case using walk_round_smaller [of current seen cs "\<lambda>q. q \<notin> x"] by auto
qed

primrec push_each :: "'r remote \<Rightarrow> string \<Rightarrow> rev_store \<Rightarrow> bytes list \<Rightarrow> nat \<Rightarrow> 'r \<Rightarrow> nat result \<times> 'r" where
  "push_each remote peer cs [] pushed r = (Inr pushed, r)"
| "push_each remote peer cs (vh # vhs) pushed r =
     (case get_version_entity cs vh of
        None \<Rightarrow> push_each remote peer cs vhs pushed r
      | Some v \<Rightarrow> and_then (remote peer (ReceiveVersion v) r)
                    (\<lambda>answer r'. push_each remote peer cs vhs
                       (case answer of Ok x \<Rightarrow> pushed + 1 | Err status code \<Rightarrow> pushed) r'))"

definition refused_push :: "rev_store \<Rightarrow> bytes option \<Rightarrow> bytes \<Rightarrow> bool \<Rightarrow> string option" where
  "refused_push cs local_head remote_head force =
     (case check_relationship cs local_head (Some remote_head) of
        BEHIND \<Rightarrow> Some ''non_fast_forward''
      | DIVERGED \<Rightarrow> if force then None else Some ''diverged''
      | _ \<Rightarrow> None)"

definition push_versions ::
  "'r remote \<Rightarrow> string \<Rightarrow> string \<Rightarrow> string \<Rightarrow> bytes option \<Rightarrow> bytes option \<Rightarrow> rev_state \<Rightarrow> 'r \<Rightarrow> rev_outcome \<times> 'r" where
  "push_versions remote peer p q local_head remote_head st r =
     (let to_push = versions_ahead (es_store st) remote_head [] {} [case local_head of None \<Rightarrow> [] | Some h \<Rightarrow> h] in
      case push_each remote peer (es_store st) (rev to_push) 0 r of
        (Inl e, r') \<Rightarrow> ((Inl e, st), r')
      | (Inr pushed, r') \<Rightarrow>
          (case (if 0 < pushed then remote peer (UpdateHead q local_head) r' else (Inr (Err 0 []), r')) of
             (Inl e, r'') \<Rightarrow> ((Inl e, st), r'')
           | (Inr answer, r'') \<Rightarrow> ((Inr (Ok (Pushed p peer pushed local_head)), st), r'')))"

definition handle_push ::
  "rev_env \<Rightarrow> bool \<Rightarrow> 'r remote \<Rightarrow> string \<Rightarrow> string \<Rightarrow> string option \<Rightarrow> bool \<Rightarrow> rev_state \<Rightarrow> 'r \<Rightarrow> rev_outcome \<times> 'r" where
  "handle_push env has_dispatcher remote p peer remote_prefix force st r =
     (let ph = compute_prefix_hash (env_path_hash env) (es_tree st) p;
          q = (case remote_prefix of None \<Rightarrow> p | Some rp \<Rightarrow> rp)
      in if \<not> env_permits env ''push'' p then (err 403 ''capability_denied'' st, r)
         else if peer = [] then (err 400 ''invalid_params'' st, r)
         else if \<not> has_dispatcher then (err 501 ''unsupported_operation'' st, r)
         else case get_entity_at_path (es_tree st) (es_store st) (head_path ph) of
           None \<Rightarrow> (err 400 ''no_head'' st, r)
         | Some e \<Rightarrow>
             (case hash_field e of
                Inl x \<Rightarrow> ((Inl x, st), r)
              | Inr local_head \<Rightarrow>
                  (case remote peer (Status q) r of
                     (Inl x, r') \<Rightarrow> ((Inl x, st), r')
                   | (Inr (Err status code), r') \<Rightarrow> (err status ''push_failed'' st, r')
                   | (Inr (Ok answer), r') \<Rightarrow>
                       let remote_head = (case answer of
                               StatusResult s \<Rightarrow> if sr_head s = [] then None else Some (sr_head s)
                             | _ \<Rightarrow> None)
                       in if remote_head \<noteq> None \<and> check_relationship (es_store st) local_head remote_head = IN_SYNC
                          then ((Inr (Ok (UpToDate p peer)), st), r')
                          else case (case remote_head of None \<Rightarrow> None
                                     | Some h \<Rightarrow> refused_push (es_store st) local_head h force) of
                            Some code \<Rightarrow> (err 409 code st, r')
                          | None \<Rightarrow> push_versions remote peer p q local_head remote_head st r')))"

subsection \<open>The dispatcher\<close>

definition revision_handler :: "rev_env \<Rightarrow> bool \<Rightarrow> 'r remote \<Rightarrow> rev_request \<Rightarrow> rev_state \<Rightarrow> 'r \<Rightarrow> rev_outcome \<times> 'r" where
  "revision_handler env has_dispatcher remote req st r =
     (case req of
        Commit p \<Rightarrow> (handle_commit env p st, r)
      | Log p limit since start_at \<Rightarrow> (handle_log env p limit since start_at st, r)
      | Status p \<Rightarrow> (handle_status env p st, r)
      | MergeVersion p source_ref strategy dry_run \<Rightarrow> (handle_merge env p source_ref strategy dry_run st, r)
      | Resolve p path resolved \<Rightarrow> (handle_resolve env p path resolved st, r)
      | FindAncestor a b \<Rightarrow> (handle_find_ancestor a b st, r)
      | Diff p base target \<Rightarrow> (handle_diff env p base target st, r)
      | Branch p action name from_ref \<Rightarrow> (handle_branch env p action name from_ref st, r)
      | Checkout p name version_param \<Rightarrow> (handle_checkout env p name version_param st, r)
      | Tag p action name version_param \<Rightarrow> (handle_tag env p action name version_param st, r)
      | CherryPick p version_ref parent_param \<Rightarrow> (handle_cherry_pick env p version_ref parent_param st, r)
      | Revert p version_ref parent_param \<Rightarrow> (handle_revert env p version_ref parent_param st, r)
      | Fetch p since depth \<Rightarrow> (handle_fetch env p since depth st, r)
      | FetchEntities p root requested \<Rightarrow> (handle_fetch_entities env p root requested st, r)
      | FetchDiff prefix_param base \<Rightarrow> (handle_fetch_diff env prefix_param base st, r)
      | Pull prefix_param peer remote_prefix since depth \<Rightarrow> handle_pull env remote prefix_param peer remote_prefix since depth st r
      | Push p peer remote_prefix force \<Rightarrow> handle_push env has_dispatcher remote p peer remote_prefix force st r
      | SetConfig name action config p expected \<Rightarrow> (handle_config env name action config p expected st, r)
      | SetMergeConfig scope name action config_arg expected \<Rightarrow>
          (handle_merge_config env scope name action config_arg expected st, r)
      | ReceiveVersion v \<Rightarrow> (err 501 ''unsupported_operation'' st, r)
      | UpdateHead p h \<Rightarrow> (err 501 ''unsupported_operation'' st, r)
      | OtherOperation operation \<Rightarrow> (err 501 ''unsupported_operation'' st, r))"

end
