(* ===== verification/Commits.thy ===== *)
theory Commits
  imports Revision_Refs "HOL-Library.Countable"
begin

section \<open>What a commit does\<close>

text \<open>
  The commit of \<open>Revision_Ops\<close> on a pathway where nothing listens: the snapshot it stores, the version entry
  over it, the head it moves; and what the status operation says afterwards.
\<close>

subsection \<open>Sound environments and states\<close>

text \<open>What is assumed of the hashes, and of the recursion limit; what every operation keeps of the state.\<close>

definition sound_env :: "rev_env \<Rightarrow> bool" where
  "sound_env env \<longleftrightarrow> inj (env_hash env) \<and> (\<forall>e. env_hash env e \<noteq> []) \<and> (\<forall>k. length (env_route env k) = 32)
     \<and> MAX_LEVELS < env_limit env"

definition well :: "rev_env \<Rightarrow> rev_state \<Rightarrow> bool" where
  "well env st \<longleftrightarrow> quiet st \<and> cs_ok (env_hash env) (es_store st) \<and> tree_ok (es_tree st)"

text \<open>One state leads to another that keeps the content and changes the tree only below a path.\<close>

definition moves :: "rev_env \<Rightarrow> string \<Rightarrow> rev_state \<Rightarrow> rev_state \<Rightarrow> bool" where
  "moves env dir st st' \<longleftrightarrow> well env st' \<and> cs.grows (es_store st) (es_store st') \<and> same_outside dir (es_tree st) (es_tree st')"

lemma moves_refl: "well env st \<Longrightarrow> moves env dir st st"
  by (simp add: moves_def cs.grows_refl same_outside_refl)

lemma moves_trans: "moves env dir st st' \<Longrightarrow> moves env dir st' st'' \<Longrightarrow> moves env dir st st''"
  using cs.grows_trans same_outside_trans by (auto simp: moves_def)

lemma moves_local: "moves env dir st st' \<Longrightarrow> et_local (es_tree st') = et_local (es_tree st)"
  by (simp add: moves_def same_outside_def)

text \<open>Storing an entity is such a step, and so is a write of the engine.\<close>

lemma put_moves:
  assumes "well env st"
  shows "moves env dir st (st\<lparr>es_store := snd (cs_put (env_hash env) e (es_store st))\<rparr>)"
  using assms cs.grows_put [of "env_hash env" "es_store st" e] cs_ok_put [of "env_hash env" "es_store st" e]
  by (auto simp: moves_def well_def quiet_def same_outside_refl)

lemma emit_moves:
  assumes "well env st" "sound_env env" "ends_with dir ''/''" "dir \<noteq> ''entity:/''"
  shows "moves env dir st (snd (env_emit env (dir @ x) e ctx st))"
    "get_entity_at_path (es_tree (snd (env_emit env (dir @ x) e ctx st)))
       (es_store (snd (env_emit env (dir @ x) e ctx st))) (dir @ x) = Some e"
    "x \<noteq> y \<Longrightarrow> et_get (es_tree (snd (env_emit env (dir @ x) e ctx st))) (dir @ y) = et_get (es_tree st) (dir @ y)"
    "es_tree (snd (env_emit env (dir @ x) e ctx st)) = et_set (dir @ x) (env_hash env e) (es_tree st)"
proof -
  let ?out = "env_emit env (dir @ x) e ctx st"
  let ?s = "snd (cs_put (env_hash env) e (es_store st))"
  have q: "quiet st" and ok: "cs_ok (env_hash env) (es_store st)" and t: "tree_ok (es_tree st)"
    using assms(1) by (simp_all add: well_def)
  have w: "es_tree (snd ?out) = et_set (dir @ x) (env_hash env e) (es_tree st)" "es_store (snd ?out) = ?s" "quiet (snd ?out)"
    using quiet_emit [OF q, of "env_pf env" "env_beh env" "env_hash env" "dir @ x" e ctx] by (simp_all add: wrote_def)
  then show "es_tree (snd ?out) = et_set (dir @ x) (env_hash env e) (es_tree st)" by simp
  show "moves env dir st (snd ?out)"
    using cs.grows_put [OF ok, of e] cs_ok_put [OF ok] tree_ok_set [OF t] set_below(2) [OF assms(3,4)]
    by (simp add: moves_def well_def w)
  have "cs_get ?s (env_hash env e) = Some e"
    using cs.present_after_put [OF ok, of e] assms(2) by (auto simp: sound_env_def dest: injD)
  then show "get_entity_at_path (es_tree (snd ?out)) (es_store (snd ?out)) (dir @ x) = Some e"
    using assms(2) by (simp add: get_entity_at_path_def get_hash_at_path_def w et_get_set normalize_uri_idem sound_env_def)
  show "x \<noteq> y \<Longrightarrow> et_get (es_tree (snd ?out)) (dir @ y) = et_get (es_tree st) (dir @ y)"
    by (simp add: w et_get_set normalize_below [OF assms(3,4)])
qed

lemma engine_dir: "ends_with ''system/revision/'' ''/''" "''system/revision/'' \<noteq> ''entity:/''"
  by (simp_all add: suffix_def)

lemma entity_kept:
  assumes "cs.grows (es_store st) (es_store st')" "et_local (es_tree st') = et_local (es_tree st)"
    and "et_get (es_tree st') path = et_get (es_tree st) path"
    and "get_entity_at_path (es_tree st) (es_store st) path = Some e"
  shows "get_entity_at_path (es_tree st') (es_store st') path = Some e"
  using assms by (auto simp: get_entity_at_path_def get_hash_at_path_def cs.grows_def normalize_uri_idem et_get_def
      split: option.splits if_splits)

lemma head_path_engine: "head_path ph = ''system/revision/'' @ ph @ ''/head''"
  by (simp add: head_path_def)

lemma config_path_engine: "config_path_for_prefix ph = ''system/revision/'' @ ph @ ''/config''"
  by (simp add: config_path_for_prefix_def)

lemma branch_not_head: "ph @ ''/branches/'' @ name \<noteq> ph @ ''/head''"
  by simp

lemma not_config: "ph @ ''/branches/'' @ name \<noteq> ph @ ''/config''" "ph @ ''/head'' \<noteq> ph @ ''/config''"
  by simp_all

lemma update_head_moves:
  assumes "well env st" "sound_env env"
  shows "moves env ''system/revision/'' st (update_head_and_branch env ph v operation st)"
    "typed_head (update_head_and_branch env ph v operation st) ph = Some v"
    "et_get (es_tree (update_head_and_branch env ph v operation st)) (config_path_for_prefix ph)
       = et_get (es_tree st) (config_path_for_prefix ph)"
proof -
  let ?ctx = "from_handler_grant (env_ctx env) operation"
  let ?st1 = "snd (env_emit env (head_path ph) (hash_ref (Some v)) ?ctx st)"
  have m1: "moves env ''system/revision/'' st ?st1"
    and g1: "get_entity_at_path (es_tree ?st1) (es_store ?st1) (head_path ph) = Some (hash_ref (Some v))"
    unfolding head_path_engine by (rule emit_moves [OF assms engine_dir])+
  have w1: "well env ?st1" using m1 by (simp add: moves_def)
  show "moves env ''system/revision/'' st (update_head_and_branch env ph v operation st)"
  proof (cases "active_branch ?st1 ph")
    case None
    then show ?thesis using m1 by (simp add: update_head_and_branch_def)
  next
    case (Some name)
    have "moves env ''system/revision/'' ?st1 (snd (env_emit env (branch_path ph name) (hash_ref (Some v)) ?ctx ?st1))"
      unfolding branch_path_def by (rule emit_moves(1) [OF w1 assms(2) engine_dir])
    from moves_trans [OF m1 this] Some show ?thesis by (simp add: update_head_and_branch_def Let_def)
  qed
  have "get_entity_at_path (es_tree (update_head_and_branch env ph v operation st))
      (es_store (update_head_and_branch env ph v operation st)) (head_path ph) = Some (hash_ref (Some v))"
  proof (cases "active_branch ?st1 ph")
    case None
    then show ?thesis using g1 by (simp add: update_head_and_branch_def)
  next
    case (Some name)
    let ?st2 = "snd (env_emit env (branch_path ph name) (hash_ref (Some v)) ?ctx ?st1)"
    have "moves env ''system/revision/'' ?st1 ?st2"
      unfolding branch_path_def by (rule emit_moves(1) [OF w1 assms(2) engine_dir])
    moreover have "et_get (es_tree ?st2) (head_path ph) = et_get (es_tree ?st1) (head_path ph)"
      unfolding branch_path_def head_path_engine by (rule emit_moves(3) [OF w1 [unfolded head_path_engine] assms(2) engine_dir branch_not_head])
    ultimately have "get_entity_at_path (es_tree ?st2) (es_store ?st2) (head_path ph) = Some (hash_ref (Some v))"
      by (intro entity_kept [OF _ _ _ g1]) (simp_all add: moves_def same_outside_def)
    with Some show ?thesis by (simp add: update_head_and_branch_def Let_def)
  qed
  then show "typed_head (update_head_and_branch env ph v operation st) ph = Some v"
    by (simp add: typed_head_def hash_ref_def)
  have c1: "et_get (es_tree ?st1) (config_path_for_prefix ph) = et_get (es_tree st) (config_path_for_prefix ph)"
    unfolding head_path_engine config_path_engine by (rule emit_moves(3) [OF assms engine_dir not_config(2)])
  show "et_get (es_tree (update_head_and_branch env ph v operation st)) (config_path_for_prefix ph)
       = et_get (es_tree st) (config_path_for_prefix ph)"
  proof (cases "active_branch ?st1 ph")
    case None
    then show ?thesis using c1 by (simp add: update_head_and_branch_def)
  next
    case (Some name)
    have "et_get (es_tree (snd (env_emit env (branch_path ph name) (hash_ref (Some v)) ?ctx ?st1))) (config_path_for_prefix ph)
        = et_get (es_tree ?st1) (config_path_for_prefix ph)"
      unfolding branch_path_def config_path_engine by (rule emit_moves(3) [OF w1 assms(2) engine_dir not_config(1)])
    with c1 Some show ?thesis by (simp add: update_head_and_branch_def Let_def)
  qed
qed

subsection \<open>Versions over snapshots\<close>

lemma build_version:
  assumes "well env st" "sound_env env" "distinct (map fst bindings)" "spread (env_route env) (fst ` set bindings)"
  obtains root st' where "build_version_trie env bindings st = (Inr root, st')"
    "snapshot (env_route env) (env_hash env) (es_store st') root (map_of bindings)"
    "moves env dir st st'" "es_tree st' = es_tree st"
proof -
  let ?kvs = "sort_key fst bindings"
  have k: "keyed ?kvs" by (rule keyed_sort [OF assms(3)])
  have m: "map_of (rev ?kvs) = map_of bindings"
    using map_of_rev [of ?kvs] k map_of_inject_set [of ?kvs bindings] assms(3) by (simp add: keyed_def)
  obtain root cs' where b: "build_trie (env_route env) (env_hash env) ?kvs (es_store st) = (Inr root, cs')"
    "snapshot (env_route env) (env_hash env) cs' root (map_of (rev ?kvs))" "cs.grows (es_store st) cs'" "cs_ok (env_hash env) cs'"
    using build_snapshot [where route = "env_route env" and hsh = "env_hash env" and cs = "es_store st" and kvs = ?kvs]
      assms by (auto simp: sound_env_def well_def)
  have "moves env dir st (st\<lparr>es_store := cs'\<rparr>)"
    using assms(1) b(3,4) by (simp add: moves_def well_def quiet_def same_outside_refl)
  with b show ?thesis
    by (intro that [of root "st\<lparr>es_store := cs'\<rparr>"]) (simp_all add: build_version_trie_def m)
qed

lemma snapshot_hash: "snapshot route hsh cs root m \<Longrightarrow> \<exists>n. root = hsh (TrieNode n)"
  by (auto simp: snapshot_def)

text \<open>The bindings of a version over a snapshot are those of the map the snapshot stands for.\<close>

lemma version_bindings:
  assumes "sound_env env" "get_version_entity cs v = Some ve" "ve_root ve = Some root"
    and "snapshot (env_route env) (env_hash env) cs root m"
  obtains b where "get_version_bindings env cs v = Inr (Some b)" "map_of b = m" "distinct (map fst b)"
proof -
  obtain kvs where k: "collect_reachable (env_limit env) (load_node root cs) cs = Inr kvs" "map_of kvs = m" "distinct (map fst kvs)"
    using collect_snapshot [OF assms(4), of "env_limit env"] assms(1) by (auto simp: sound_env_def)
  have "root \<noteq> []" using snapshot_hash [OF assms(4)] assms(1) by (auto simp: sound_env_def)
  moreover have "map (\<lambda>(k, v). (join_path [] k, v)) kvs = kvs" by (simp add: join_path_def)
  ultimately have "get_version_bindings env cs v = Inr (Some (dict_of kvs))"
    by (simp add: get_version_bindings_def assms collect_all_bindings_def k)
  moreover have "map_of (dict_of kvs) = m"
    using map_of_dict_of [of kvs] map_of_rev [OF k(3)] by (auto simp: fun_eq_iff k)
  ultimately show ?thesis using that map_of_dict_of by blast
qed

lemma version_bindings_distinct: "get_version_bindings env cs v = Inr (Some b) \<Longrightarrow> distinct (map fst b)"
  using map_of_dict_of
  by (auto simp: get_version_bindings_def bind_r_Inr_iff split: option.splits if_splits)

lemma put_version_found:
  assumes "well env st" "sound_env env" "put_version env root parents st = (v, st')"
  shows "get_version_entity (es_store st') v = Some \<lparr>ve_root = Some root, ve_parents = sorted_parents parents\<rparr>"
    "moves env dir st st'" "es_tree st' = es_tree st" "v \<noteq> []"
proof -
  let ?e = "OtherEntity (VersionEntry \<lparr>ve_root = Some root, ve_parents = sorted_parents parents\<rparr>)"
  have p: "v = env_hash env ?e" "st' = st\<lparr>es_store := snd (cs_put (env_hash env) ?e (es_store st))\<rparr>"
    using assms(3) by (auto simp: put_version_def split_beta Let_def)
  have "cs_get (snd (cs_put (env_hash env) ?e (es_store st))) (env_hash env ?e) = Some ?e"
    using cs.present_after_put [of "env_hash env" "es_store st" ?e] assms(1,2) by (auto simp: well_def sound_env_def dest: injD)
  then show "get_version_entity (es_store st') v = Some \<lparr>ve_root = Some root, ve_parents = sorted_parents parents\<rparr>"
    by (simp add: get_version_entity_def p)
  show "moves env dir st st'" "es_tree st' = es_tree st" "v \<noteq> []"
    using put_moves [OF assms(1)] assms(2) by (simp_all add: p sound_env_def)
qed

subsection \<open>Commit\<close>

text \<open>What a commit records: the bindings of the tree, and a marker where the parent bound a path it does not.\<close>

definition committed :: "rev_env \<Rightarrow> (string \<Rightarrow> bytes option) \<Rightarrow> (string \<Rightarrow> bytes option) \<Rightarrow> string \<Rightarrow> bytes option" where
  "committed env parent current k =
     (case current k of
        Some h \<Rightarrow> Some h
      | None \<Rightarrow> if parent k = None then None else Some (deletion_marker_hash env))"

lemma with_markers_map:
  assumes "distinct (map fst bindings)"
  shows "map_of (with_markers env parent_bindings bindings) = committed env (map_of parent_bindings) (map_of bindings)"
    "distinct (map fst (with_markers env parent_bindings bindings))"
    "fst ` set (with_markers env parent_bindings bindings) = fst ` set bindings \<union> fst ` set parent_bindings"
proof -
  let ?h = "deletion_marker_hash env"
  have fold: "map_of (fold (\<lambda>path. AList.update path ?h) ps b) = (\<lambda>k. if k \<in> set ps then Some ?h else map_of b k)
      \<and> (distinct (map fst b) \<longrightarrow> distinct (map fst (fold (\<lambda>path. AList.update path ?h) ps b)))" for ps b
    by (induction ps arbitrary: b) (auto simp: update_conv' fun_eq_iff distinct_update)
  show m: "map_of (with_markers env parent_bindings bindings) = committed env (map_of parent_bindings) (map_of bindings)"
  proof
    fix k
    let ?gone = "filter (\<lambda>path. path \<notin> fst ` set bindings) (map fst parent_bindings)"
    have gone: "k \<in> set ?gone \<longleftrightarrow> map_of bindings k = None \<and> map_of parent_bindings k \<noteq> None"
      unfolding set_filter set_map map_of_eq_None_iff by blast
    have "map_of (with_markers env parent_bindings bindings) k = (if k \<in> set ?gone then Some ?h else map_of bindings k)"
      unfolding with_markers_def by (simp only: fold [THEN conjunct1])
    then show "map_of (with_markers env parent_bindings bindings) k = committed env (map_of parent_bindings) (map_of bindings) k"
      unfolding gone by (cases "map_of bindings k") (simp_all add: committed_def)
  qed
  show "distinct (map fst (with_markers env parent_bindings bindings))"
    unfolding with_markers_def using fold assms by blast
  have "fst ` set (with_markers env parent_bindings bindings) = dom (committed env (map_of parent_bindings) (map_of bindings))"
    unfolding m [symmetric] by (simp add: dom_map_of_conv_image_fst)
  also have "\<dots> = fst ` set bindings \<union> fst ` set parent_bindings"
    unfolding dom_map_of_conv_image_fst [symmetric] by (auto simp: committed_def split: option.splits if_splits)
  finally show "fst ` set (with_markers env parent_bindings bindings) = fst ` set bindings \<union> fst ` set parent_bindings" .
qed

abbreviation env_ph :: "rev_env \<Rightarrow> rev_state \<Rightarrow> string \<Rightarrow> string" where
  "env_ph env st p \<equiv> compute_prefix_hash (env_path_hash env) (es_tree st) p"

lemma current_distinct: "well env st \<Longrightarrow> distinct (map fst (current_bindings env p st))"
  using captured_keys by (simp add: current_bindings_def get_snapshot_bindings_def well_def)

lemma bindings_or_empty_distinct: "bindings_or_empty env st h = Inr b \<Longrightarrow> distinct (map fst b)"
  by (auto simp: bindings_or_empty_def bind_r_Inr_iff split: option.splits dest: version_bindings_distinct)

lemma typed_head_entity:
  "typed_head st ph = Some v \<Longrightarrow> get_entity_at_path (es_tree st) (es_store st) (head_path ph) = Some (OtherEntity (HashRef (Some v)))"
  by (auto simp: typed_head_def split: option.splits stored.splits rev_entity.splits)

lemma typed_head_tree: "es_tree st' = es_tree st \<Longrightarrow> cs.grows (es_store st) (es_store st') \<Longrightarrow>
  typed_head st ph = Some v \<Longrightarrow> typed_head st' ph = Some v"
  using entity_kept [of st st' "head_path ph"]
  by (auto simp: typed_head_def split: option.splits stored.splits rev_entity.splits)

lemma commit_obtain:
  assumes "sound_env env" "well env st" "env_permits env ''commit'' p" "p = [] \<or> ends_with p ''/''"
    and "bindings_or_empty env st (typed_head st (env_ph env st p)) = Inr parent"
    and "spread (env_route env) (fst ` set (current_bindings env p st) \<union> fst ` set parent)"
  obtains v root ve st' where "handle_commit env p st = (Inr (Ok (CommitResult v root)), st')"
    "moves env ''system/revision/'' st st'"
    "snapshot (env_route env) (env_hash env) (es_store st') root
       (committed env (map_of parent) (map_of (current_bindings env p st)))"
    "get_version_entity (es_store st') v = Some ve" "ve_root ve = Some root"
    "typed_head st' (env_ph env st p) = Some v"
    "et_get (es_tree st') (config_path_for_prefix (env_ph env st p)) = et_get (es_tree st) (config_path_for_prefix (env_ph env st p))"
    "typed_head st (env_ph env st p) = Some v \<and> es_tree st' = es_tree st
      \<or> \<not> describes_root st (typed_head st (env_ph env st p)) root
        \<and> ve_parents ve = (case typed_head st (env_ph env st p) of None \<Rightarrow> [] | Some h \<Rightarrow> if h = [] then [] else [h])"
proof -
  let ?ph = "env_ph env st p" and ?cb = "current_bindings env p st"
  let ?h = "typed_head st ?ph" and ?wm = "with_markers env parent ?cb"
  note wm = with_markers_map [OF current_distinct [OF assms(2), of p], of env parent]
  have sp: "spread (env_route env) (fst ` set ?wm)" using assms(6) by (simp only: wm(3))
  obtain root st1 where b: "build_version_trie env ?wm st = (Inr root, st1)"
    "snapshot (env_route env) (env_hash env) (es_store st1) root (map_of ?wm)"
    "moves env ''system/revision/'' st st1" "es_tree st1 = es_tree st"
    by (rule build_version [OF assms(2,1) wm(2) sp])
  have w1: "well env st1" and g1: "cs.grows (es_store st) (es_store st1)" using b(3) by (simp_all add: moves_def)
  have pre: "\<not> (p \<noteq> [] \<and> \<not> ends_with p ''/'')" using assms(4) by blast
  show ?thesis
  proof (cases "describes_root st1 ?h root")
    case True
    then obtain v ve where v: "?h = Some v" "get_version_entity (es_store st1) v = Some ve" "ve_root ve = Some root"
      by (auto simp: describes_root_def split: option.splits)
    have res: "handle_commit env p st = (Inr (Ok (CommitResult v root)), st1)"
      unfolding handle_commit_def Let_def if_not_P [OF pre]
      using True by (simp add: assms(3) assms(5) [unfolded v(1)] b(1) v(1))
    show ?thesis
      by (rule that [OF res b(3) b(2) [unfolded wm(1)] v(2,3) typed_head_tree [OF b(4) g1 v(1)]]) (simp_all add: v(1) b(4))
  next
    case False
    let ?ps = "case ?h of None \<Rightarrow> [] | Some h \<Rightarrow> if h = [] then [] else [h]"
    obtain v st2 where put: "put_version env root ?ps st1 = (v, st2)" by (cases "put_version env root ?ps st1")
    note f = put_version_found [OF w1 assms(1) put]
    have w2: "well env st2" using f(2) by (simp add: moves_def)
    let ?st3 = "update_head_and_branch env ?ph v ''commit'' st2"
    note u = update_head_moves [OF w2 assms(1), of ?ph v "''commit''"]
    have res: "handle_commit env p st = (Inr (Ok (CommitResult v root)), ?st3)"
      unfolding handle_commit_def Let_def if_not_P [OF pre]
      using False by (simp add: assms(3,5) b(1) put)
    have m: "moves env ''system/revision/'' st1 ?st3" by (rule moves_trans [OF f(2) u(1)])
    have g: "cs.grows (es_store st1) (es_store ?st3)" "cs.grows (es_store st2) (es_store ?st3)" "cs_ok (env_hash env) (es_store ?st3)"
      using m u(1) by (simp_all add: moves_def well_def)
    have s: "snapshot (env_route env) (env_hash env) (es_store ?st3) root (committed env (map_of parent) (map_of ?cb))"
      using snapshot_grows [OF b(2) g(1,3)] by (simp only: wm(1))
    let ?ve = "\<lparr>ve_root = Some root, ve_parents = sorted_parents ?ps\<rparr>"
    have ve: "get_version_entity (es_store ?st3) v = Some ?ve"
      using f(1) g(2) by (auto simp: get_version_entity_def cs.grows_def split: option.splits stored.splits rev_entity.splits)
    have ps: "sorted_parents ?ps = ?ps" by (simp add: sorted_parents_def split: option.split)
    have "\<not> describes_root st ?h root"
    proof
      assume "describes_root st ?h root"
      then have "describes_root st1 ?h root"
        using g1 by (fastforce simp: describes_root_def get_version_entity_def cs.grows_def
            split: option.splits stored.splits rev_entity.splits)
      with False show False by contradiction
    qed
    then show ?thesis
      by (intro that [OF res moves_trans [OF b(3) m] s ve _ u(2)]) (simp_all add: ps u(3) f(3) b(4))
  qed
qed

text \<open>Nothing of the engine is below the prefix, and every bound hash is of an entity of the store.\<close>

definition apart :: "rev_state \<Rightarrow> string \<Rightarrow> bool" where
  "apart st p \<longleftrightarrow> \<not> starts_with (env_uri st p) (env_uri st ''system/revision/'')
     \<and> \<not> starts_with (env_uri st ''system/revision/'') (env_uri st p)"

definition complete :: "rev_state \<Rightarrow> bool" where
  "complete st \<longleftrightarrow> (\<forall>uri h. et_get (es_tree st) uri = Some h \<longrightarrow> cs_get (es_store st) h \<noteq> None)"

lemma apart_below:
  assumes "apart st p" "same_outside ''system/revision/'' (es_tree st) t"
  shows "et_get t (env_uri st p @ k) = et_get (es_tree st) (env_uri st p @ k)"
proof -
  have "\<not> starts_with (env_uri st p @ k) (env_uri st ''system/revision/'')"
    using assms(1) prefix_same_cases [of "env_uri st p" "env_uri st p @ k" "env_uri st ''system/revision/''"]
    by (auto simp: apart_def)
  then show ?thesis using assms(2) by (simp add: same_outside_def below_absolute)
qed

lemma complete_get:
  assumes "complete st" "cs.grows (es_store st) (es_store st')" "et_get (es_tree st) uri = Some h"
  shows "cs_get (es_store st') h = cs_get (es_store st) h"
  using assms unfolding complete_def cs.grows_def by (metis not_None_eq)

lemma config_kept:
  assumes "complete st" "cs.grows (es_store st) (es_store st')" "et_local (es_tree st') = et_local (es_tree st)"
    and "et_get (es_tree st') (config_path_for_prefix ph) = et_get (es_tree st) (config_path_for_prefix ph)"
  shows "get_config (es_tree st') (es_store st') ph = get_config (es_tree st) (es_store st) ph"
proof -
  have hash: "get_hash_at_path t path = et_get t path" for t :: entity_tree and path
    by (simp add: get_hash_at_path_def)
  show ?thesis
    using complete_get [OF assms(1,2)] assms(4) unfolding get_config_def get_entity_at_path_def hash
    by (auto split: option.split)
qed

lemma current_kept:
  assumes "well env st" "well env st'" "complete st" "apart st p" "moves env ''system/revision/'' st st'"
    and "et_get (es_tree st') (config_path_for_prefix (env_ph env st p)) = et_get (es_tree st) (config_path_for_prefix (env_ph env st p))"
  shows "current_bindings env p st' = current_bindings env p st"
proof -
  let ?c = "get_config (es_tree st) (es_store st) (env_ph env st p)"
  have l: "et_local (es_tree st') = et_local (es_tree st)" by (rule moves_local [OF assms(5)])
  have g: "cs.grows (es_store st) (es_store st')" and so: "same_outside ''system/revision/'' (es_tree st) (es_tree st')"
    using assms(5) by (simp_all add: moves_def)
  have ph: "env_ph env st' p = env_ph env st p" by (simp add: compute_prefix_hash_def l)
  have c: "get_config (es_tree st') (es_store st') (env_ph env st p) = ?c"
    by (rule config_kept [OF assms(3) g l assms(6)])
  have t: "tree_ok (es_tree st)" "tree_ok (es_tree st')" using assms(1,2) by (simp_all add: well_def)
  have "map_of (current_bindings env p st') k = Some h \<longleftrightarrow> map_of (current_bindings env p st) k = Some h" for k h
    unfolding current_bindings_def get_snapshot_bindings_def ph c captured_lookup [OF t(1)] captured_lookup [OF t(2)] l
      apart_below [OF assms(4) so]
    using complete_get [OF assms(3) g] by (auto simp: excluded_def split: option.splits)
  then have m: "map_of (current_bindings env p st') = map_of (current_bindings env p st)"
    by (intro ext) (rule option_ext)
  have "keyed (current_bindings env p st')" "keyed (current_bindings env p st)"
    using captured_keys t by (auto simp: current_bindings_def get_snapshot_bindings_def keyed_def)
  then show ?thesis using m by (rule map_of_keyed_inj)
qed

subsection \<open>An injective hash, and a state to commit\<close>

text \<open>Entities are countable, so there is an injective hash of them.\<close>

instance val :: countable by countable_datatype
instance trie_entry :: countable by countable_datatype
instance trie_node :: countable by countable_datatype
instance stored :: (countable) countable by countable_datatype

instance version_ext :: (countable) countable
  by (rule countable_classI [of "\<lambda>v. to_nat (ve_root v, ve_parents v, version.more v)"]) simp

instance conflict_ext :: (countable) countable
  by (rule countable_classI [of "\<lambda>c. to_nat (cf_path c, cf_base c, cf_local c, cf_remote c, cf_strategy c,
        cf_version_local c, cf_version_remote c, cf_supersedes c, conflict.more c)"]) simp

instance rev_config_ext :: (countable) countable
  by (rule countable_classI [of "\<lambda>c. to_nat (rc_prefix c, rc_auto_version c, rc_exclude c, rc_exclude_types c,
        rc_merge_order c, rc_oscillation_depth c, rev_config.more c)"]) simp

instance rev_entity :: countable by countable_datatype

definition distinct_hash :: "rev_entity stored \<Rightarrow> bytes" where
  "distinct_hash e = put_nat (to_nat e)"

lemma inj_distinct_hash: "inj distinct_hash"
  by (auto simp: inj_def distinct_hash_def put_nat_def dest: arg_cong [where f = length])

lemma sound_sample: "sound_env (sample_env distinct_hash)"
  using inj_distinct_hash
  by (auto simp: sound_env_def sample_env_def length_toy_route distinct_hash_def put_nat_def MAX_LEVELS_def
      HASH_BITS_def BIT_WIDTH_def)

lemma spread_few:
  assumes "finite K" "card K \<le> BUCKET_SIZE"
  shows "spread route K"
  unfolding spread_def
proof
  fix k
  have "card {k' \<in> K. \<forall>i < MAX_LEVELS. pos route i k' = pos route i k} \<le> card K"
    by (rule card_mono [OF assms(1)]) blast
  with assms(2) show "card {k' \<in> K. \<forall>i < MAX_LEVELS. pos route i k' = pos route i k} \<le> BUCKET_SIZE"
    by simp
qed


definition sample_entity :: "rev_entity stored" where
  "sample_entity = OtherEntity (TextEntity ''x'')"

definition sample_state :: rev_state where
  "sample_state = empty_state\<lparr>es_store := [(distinct_hash sample_entity, sample_entity)],
     es_tree := et_set ''doc/a'' (distinct_hash sample_entity) (new_tree ''P'')\<rparr>"

lemma sample_local: "et_local (es_tree sample_state) = ''P''"
  by (simp add: sample_state_def et_set_def new_tree_def)

lemma sample_uris: "env_uri sample_state ''doc/'' = ''/P/doc/''" "env_uri sample_state ''doc/a'' = ''/P/doc/a''"
  "env_uri sample_state ''system/revision/'' = ''/P/system/revision/''"
  unfolding sample_local by code_simp+

lemma sample_well: "well (sample_env distinct_hash) sample_state"
  by (simp add: well_def quiet_def sample_state_def empty_state_def SYSTEM_REFUSE_DEPTH_def cs_ok_def dict_ok_def
      sample_env_def tree_ok_set new_tree_ok)

lemma sample_get: "et_get (es_tree sample_state) uri =
   (if env_uri sample_state uri = ''/P/doc/a'' then Some (distinct_hash sample_entity) else None)"
proof -
  have "normalize_uri ''P'' ''doc/a'' = ''/P/doc/a''" by code_simp
  then show ?thesis by (simp add: sample_state_def et_get_set) (simp add: et_get_def new_tree_def et_set_def)
qed

lemma sample_complete: "complete sample_state"
  by (auto simp: complete_def sample_get) (simp add: sample_state_def cs_get_def)

lemma sample_apart: "apart sample_state ''doc/''"
  by (simp add: apart_def sample_uris)

lemma sample_no_head: "typed_head sample_state ph = None"
proof -
  have "env_uri sample_state (head_path ph) = env_uri sample_state ''system/revision/'' @ ph @ ''/head''"
    unfolding head_path_engine by (rule normalize_below [OF engine_dir])
  then have "et_get (es_tree sample_state) (head_path ph) = None"
    by (simp add: sample_get sample_uris)
  then show ?thesis by (simp add: typed_head_def get_entity_at_path_def get_hash_at_path_def)
qed

lemma sample_current: "fst ` set (current_bindings (sample_env distinct_hash) ''doc/'' sample_state) \<subseteq> {''a''}"
proof -
  have t: "tree_ok (es_tree sample_state)" using sample_well by (simp add: well_def)
  have "k = ''a''" if "et_get (es_tree sample_state) (''/P/doc/'' @ k) = Some h" for k h
  proof -
    have "env_uri sample_state (''/P/doc/'' @ k) = ''/P/doc/'' @ k" by (rule normalize_uri_id) simp
    with that show ?thesis by (simp add: sample_get split: if_splits)
  qed
  then show ?thesis
    unfolding dom_map_of_conv_image_fst [symmetric] current_bindings_def get_snapshot_bindings_def
    using captured_lookup [OF t] sample_uris(1) by auto
qed

subsection \<open>Properties of the commit\<close>

text \<open>
  C10. A permitted commit, where nothing listens, makes a version of what is there: its bindings are those the
  configuration captures and a deletion marker for every path of the parent version that it does not
  capture any more; its parent is the head, and it becomes the head. When the head already describes this
  snapshot it is returned and the tree is left alone. Only the engine's own paths change.
\<close>

theorem commit_exact:
  assumes "sound_env env" "well env st" "env_permits env ''commit'' p" "p = [] \<or> ends_with p ''/''"
    and "bindings_or_empty env st (typed_head st (env_ph env st p)) = Inr parent"
    and "spread (env_route env) (fst ` set (current_bindings env p st) \<union> fst ` set parent)"
  shows "\<exists>v root st' ve b. handle_commit env p st = (Inr (Ok (CommitResult v root)), st')
    \<and> get_version_entity (es_store st') v = Some ve \<and> ve_root ve = Some root
    \<and> get_version_bindings env (es_store st') v = Inr (Some b)
    \<and> map_of b = committed env (map_of parent) (map_of (current_bindings env p st))
    \<and> typed_head st' (env_ph env st p) = Some v
    \<and> moves env ''system/revision/'' st st'
    \<and> (typed_head st (env_ph env st p) = Some v \<and> es_tree st' = es_tree st
       \<or> \<not> describes_root st (typed_head st (env_ph env st p)) root
         \<and> ve_parents ve = (case typed_head st (env_ph env st p) of None \<Rightarrow> [] | Some h \<Rightarrow> if h = [] then [] else [h]))"
proof -
  obtain v root ve st' where c: "handle_commit env p st = (Inr (Ok (CommitResult v root)), st')"
    "moves env ''system/revision/'' st st'"
    "snapshot (env_route env) (env_hash env) (es_store st') root
       (committed env (map_of parent) (map_of (current_bindings env p st)))"
    "get_version_entity (es_store st') v = Some ve" "ve_root ve = Some root"
    "typed_head st' (env_ph env st p) = Some v"
    and d: "typed_head st (env_ph env st p) = Some v \<and> es_tree st' = es_tree st
      \<or> \<not> describes_root st (typed_head st (env_ph env st p)) root
        \<and> ve_parents ve = (case typed_head st (env_ph env st p) of None \<Rightarrow> [] | Some h \<Rightarrow> if h = [] then [] else [h])"
    by (rule commit_obtain [OF assms])
  obtain b where "get_version_bindings env (es_store st') v = Inr (Some b)"
    "map_of b = committed env (map_of parent) (map_of (current_bindings env p st))"
    by (rule version_bindings [OF assms(1) c(4,5,3)])
  with c d show ?thesis by blast
qed

lemma sample_commit_prems:
  "env_permits (sample_env distinct_hash) op p"
  "bindings_or_empty (sample_env distinct_hash) sample_state (typed_head sample_state ph) = Inr []"
  "spread (env_route (sample_env distinct_hash))
     (fst ` set (current_bindings (sample_env distinct_hash) ''doc/'' sample_state) \<union> fst ` set ([] :: (string \<times> bytes) list))"
proof -
  have "card (fst ` set (current_bindings (sample_env distinct_hash) ''doc/'' sample_state)) \<le> 1"
    using card_mono [OF _ sample_current] by simp
  then show "spread (env_route (sample_env distinct_hash))
     (fst ` set (current_bindings (sample_env distinct_hash) ''doc/'' sample_state) \<union> fst ` set ([] :: (string \<times> bytes) list))"
    by (intro spread_few) (simp_all add: BUCKET_SIZE_def)
qed (simp_all add: sample_env_def sample_no_head bindings_or_empty_def)

theorem commit_exact_witness:
  "\<exists>v root st'. handle_commit (sample_env distinct_hash) ''doc/'' sample_state = (Inr (Ok (CommitResult v root)), st')
     \<and> typed_head st' (env_ph (sample_env distinct_hash) sample_state ''doc/'') = Some v"
proof -
  have "''doc/'' = [] \<or> ends_with ''doc/'' ''/''" by (simp add: suffix_def)
  from commit_exact [OF sound_sample sample_well sample_commit_prems(1) this sample_commit_prems(2,3)]
  show ?thesis by blast
qed



end
