(* ===== verification/Merges.thy ===== *)
theory Merges
  imports Commits
begin

section \<open>What a merge does\<close>

text \<open>
  The merge operation of \<open>Revision_Ops\<close>: with the deterministic order the version it makes is a function of the
  two histories, so that peers which merge each other's head agree; a fast-forward leaves the tree with
  the live bindings of the source.
\<close>

subsection \<open>The version of a merge\<close>

text \<open>What two peers have in common: the formats, and the recursion limit.\<close>

definition same_formats :: "rev_env \<Rightarrow> rev_env \<Rightarrow> bool" where
  "same_formats env env' \<longleftrightarrow> env_hash env = env_hash env' \<and> env_route env = env_route env'
     \<and> env_marker env = env_marker env' \<and> env_home env = env_home env' \<and> env_limit env = env_limit env'"

text \<open>The merge of a path under a plain configuration, and of all paths.\<close>

definition plain_path :: "rev_env \<Rightarrow> bytes option \<Rightarrow> bytes option \<Rightarrow> bytes option \<Rightarrow> path_merge" where
  "plain_path env a l r =
     (if l = r then bound_to l
      else if l = a then bound_to r
      else if r = a then bound_to l
      else if l \<noteq> None \<and> r \<noteq> None \<and> is_deletion_marker env l \<noteq> is_deletion_marker env r
      then resolve_deletion env DELETION_RESOLUTION_DEFAULT (the l) (the r)
      else conflict_keeping l)"

definition plain_merged ::
  "rev_env \<Rightarrow> (string, bytes) dict \<Rightarrow> (string, bytes) dict \<Rightarrow> (string, bytes) dict \<Rightarrow> merged" where
  "plain_merged env anc loc rem =
     fold (\<lambda>k. add_path k (map_of anc k) (map_of loc k) (map_of rem k) (plain_path env (map_of anc k) (map_of loc k) (map_of rem k)))
       (remdups (map fst loc @ map fst rem)) \<lparr>mg_bindings = [], mg_conflicts = [], mg_extra = []\<rparr>"

lemma merge_plain_path:
  "plain_merge env p st \<Longrightarrow> merge_path env ''three-way'' p path a l r st = (Inr (plain_path env a l r), st)"
  by (auto simp: merge_path_def plain_merge_def plain_path_def apply_strategy_def MERGE_STRATEGY_HANDLER_def)

lemma merge_plain_paths:
  "plain_merge env p st \<Longrightarrow> merge_paths env ''three-way'' p anc loc rem paths acc st =
     (Inr (fold (\<lambda>k. add_path k (map_of anc k) (map_of loc k) (map_of rem k)
        (plain_path env (map_of anc k) (map_of loc k) (map_of rem k))) paths acc), st)"
  by (induction paths arbitrary: acc) (simp_all add: merge_plain_path)

lemma merge_plain:
  "plain_merge env p st \<Longrightarrow> merge_bindings env anc loc rem ''three-way'' p st = (Inr (plain_merged env anc loc rem), st)"
  by (simp add: merge_bindings_def merge_plain_paths plain_merged_def)

text \<open>
  The version and the conflicts of a merge, of the store alone: the sides by hash, their bindings and those of
  the ancestor, the merge of every path, the trie of the result.
\<close>

definition version_hash_of :: "rev_env \<Rightarrow> bytes \<Rightarrow> bytes list \<Rightarrow> bytes" where
  "version_hash_of env root parents =
     env_hash env (OtherEntity (VersionEntry \<lparr>ve_root = Some root, ve_parents = sorted_parents parents\<rparr>))"

definition side_bindings :: "rev_env \<Rightarrow> rev_store \<Rightarrow> bytes option \<Rightarrow> (string, bytes) dict result" where
  "side_bindings env cs h =
     (case h of
        None \<Rightarrow> Inr []
      | Some v \<Rightarrow> bind_r (get_version_bindings env cs v) (\<lambda>b. Inr (case b of None \<Rightarrow> [] | Some d \<Rightarrow> d)))"

definition merge_version :: "rev_env \<Rightarrow> rev_store \<Rightarrow> relationship \<Rightarrow> bytes \<Rightarrow> bytes \<Rightarrow> (bytes \<times> string list) result" where
  "merge_version env cs rel l s =
     (let sides = sides_of cs ''deterministic'' l s rel in
      bind_r (side_bindings env cs (Some (ms_local sides))) (\<lambda>loc.
      bind_r (side_bindings env cs (Some (ms_remote sides))) (\<lambda>rem.
      bind_r (side_bindings env cs (case ms_ancestor sides of None \<Rightarrow> None | Some a \<Rightarrow> if a = [] then None else Some a)) (\<lambda>anc.
        case same_root cs sides of
          Some v \<Rightarrow> (case ve_root v of None \<Rightarrow> Inl KeyError | Some root \<Rightarrow> Inr (version_hash_of env root [l, s], []))
        | None \<Rightarrow>
            let m = plain_merged env anc loc rem in
            bind_r (fst (build_trie (env_route env) (env_hash env) (sort_key fst (with_extra m)) cs))
              (\<lambda>root. Inr (version_hash_of env root [l, s], map fst (mg_conflicts m)))))))"

lemma bindings_side: "bindings_or_empty env st h = side_bindings env (es_store st) h"
  by (simp add: bindings_or_empty_def side_bindings_def)

lemma put_version_hash: "fst (put_version env root parents st) = version_hash_of env root parents"
  by (simp add: put_version_def version_hash_of_def split_beta Let_def)

lemma merge_diverged_version:
  assumes "plain_merge env p st" "merge_order_of (get_config (es_tree st) (es_store st) (env_ph env st p)) = ''deterministic''"
    and "merge_diverged env p ''three-way'' l s False rel st = (Inr (Ok (MergeResult m)), st')" "mr_version m = Some v"
  shows "merge_version env (es_store st) rel l s = Inr (v, mr_conflicts m)"
proof -
  let ?cs = "es_store st"
  let ?sides = "sides_of ?cs ''deterministic'' l s rel"
  let ?a = "case ms_ancestor ?sides of None \<Rightarrow> None | Some a \<Rightarrow> if a = [] then None else Some a"
  obtain loc where loc: "side_bindings env ?cs (Some (ms_local ?sides)) = Inr loc"
    using assms(3) by (cases "side_bindings env ?cs (Some (ms_local ?sides))")
      (simp_all add: merge_diverged_def Let_def assms(2) bindings_side)
  obtain rem where rem: "side_bindings env ?cs (Some (ms_remote ?sides)) = Inr rem"
    using assms(3) loc by (cases "side_bindings env ?cs (Some (ms_remote ?sides))")
      (simp_all add: merge_diverged_def Let_def assms(2) bindings_side)
  obtain anc where anc: "side_bindings env ?cs ?a = Inr anc"
    using assms(3) loc rem by (cases "side_bindings env ?cs ?a")
      (simp_all add: merge_diverged_def Let_def assms(2) bindings_side)
  show ?thesis
  proof (cases "same_root ?cs ?sides")
    case (Some w)
    then have "merge_same_root env p l s w st = (Inr (Ok (MergeResult m)), st')"
      using assms(3) loc rem anc by (simp add: merge_diverged_def Let_def assms(2) bindings_side)
    then obtain root where "ve_root w = Some root" "m = \<lparr>mr_prefix = p, mr_status = Merged,
        mr_version = Some (fst (put_version env root [l, s] st)), mr_dry_run = False, mr_conflicts = [], mr_warnings = []\<rparr>"
      by (auto simp: merge_same_root_def merge_answer_def split: option.splits prod.splits)
    then show ?thesis
      using assms(4) by (simp add: merge_version_def Let_def loc rem anc Some put_version_hash)
  next
    case None
    let ?m = "plain_merged env anc loc rem"
    obtain r st1 where b: "build_version_trie env (with_extra ?m) st = (r, st1)"
      by (cases "build_version_trie env (with_extra ?m) st")
    have r: "fst (build_trie (env_route env) (env_hash env) (sort_key fst (with_extra ?m)) ?cs) = r"
      using b by (auto simp: build_version_trie_def split: prod.splits)
    note run = assms(3) [unfolded merge_diverged_def Let_def assms(2) bindings_side loc rem anc and_then_simps None
      merge_plain [OF assms(1)] b]
    obtain root where root: "r = Inr root" using run by (cases r) simp_all
    let ?osc = "detect_oscillation (es_store st1) root (Some l) [l, s]
      (oscillation_depth_of (get_config (es_tree st) ?cs (env_ph env st p)))"
    have no: "\<not> ?osc"
    proof
      assume ?osc
      then have "mr_version m = None" using run by (auto simp: root merge_answer_def)
      with assms(4) show False by simp
    qed
    then have "conclude_merge env p ''three-way'' l s False (with_extra ?m) (mg_conflicts ?m) root st1 = (Inr (Ok (MergeResult m)), st')"
      using run by (simp add: root)
    then have "v = version_hash_of env root [l, s] \<and> mr_conflicts m = map fst (mg_conflicts ?m)"
      using assms(4) put_version_hash [of env root "[l, s]"]
      by (auto simp: conclude_merge_def Let_def merge_answer_def split: prod.splits) (metis fst_conv)
    then show ?thesis
      by (simp add: merge_version_def Let_def loc rem anc None r root)
  qed
qed

lemma sides_sym: "sides_of cs ''deterministic'' l s rel = sides_of cs ''deterministic'' s l rel"
  by (auto simp: sides_of_def normalize_merge_sides_def not_le)

lemma sorted_parents_swap: "sorted_parents [l, s] = sorted_parents [s, l]"
  by (auto simp: sorted_parents_def)

lemma merge_version_sym: "merge_version env cs rel l s = merge_version env cs rel s l"
  unfolding merge_version_def Let_def sides_sym [of cs l s rel] version_hash_of_def sorted_parents_swap [of l s] ..

lemma formats_marker: "same_formats env env' \<Longrightarrow> is_deletion_marker env = is_deletion_marker env'"
  unfolding is_deletion_marker_def same_formats_def by (elim conjE) (simp only:)

lemma formats_merge:
  assumes "same_formats env env'"
  shows "merge_version env cs rel l s = merge_version env' cs rel l s"
proof -
  have b: "get_version_bindings env cs v = get_version_bindings env' cs v" for v
    using assms unfolding get_version_bindings_def same_formats_def by (elim conjE) (simp only:)
  have d: "deletion_marker_hash env = deletion_marker_hash env'"
    using assms by (simp add: deletion_marker_hash_def same_formats_def)
  have p: "plain_path env = plain_path env'"
    unfolding plain_path_def resolve_deletion_def formats_marker [OF assms] d ..
  show ?thesis
    using assms
    unfolding merge_version_def side_bindings_def plain_merged_def version_hash_of_def b p same_formats_def
    by (elim conjE) (simp only:)
qed

lemma relationship_sym:
  assumes "l \<noteq> []" "s \<noteq> []"
  shows "check_relationship cs (Some s) (Some l) =
    (case check_relationship cs (Some l) (Some s) of BEHIND \<Rightarrow> AHEAD | AHEAD \<Rightarrow> BEHIND | r \<Rightarrow> r)"
  unfolding relationship_exact [OF assms] relationship_exact [OF assms(2,1)] by (auto simp: Int_commute)

lemma hash_field_ref [simp]: "hash_field (OtherEntity (HashRef (Some v))) = Inr (Some v)"
  by (simp add: hash_field_def data_get_def dict_get_def)

text \<open>Of a merge that ends with a version: what the version is, in each relationship.\<close>

lemma merge_result_version:
  assumes "plain_merge env p st" "merge_order_of (get_config (es_tree st) (es_store st) (env_ph env st p)) = ''deterministic''"
    and "typed_head st (env_ph env st p) = Some l"
    and "handle_merge env p (Inl s) ''three-way'' False st = (Inr (Ok (MergeResult m)), st')" "mr_version m = Some v"
  shows "(case check_relationship (es_store st) (Some l) (Some s) of
      IN_SYNC \<Rightarrow> Inr (l, []) | BEHIND \<Rightarrow> Inr (s, []) | AHEAD \<Rightarrow> Inr (l, [])
    | rel \<Rightarrow> merge_version env (es_store st) rel l s) = Inr (v, mr_conflicts m)"
proof -
  let ?rel = "check_relationship (es_store st) (Some l) (Some s)"
  have s: "s \<noteq> []" "env_permits env ''merge'' p" "get_version_entity (es_store st) s \<noteq> None"
    using assms(4) by (auto simp: handle_merge_def Let_def ref_empty_def err_def resolve_ref_def valid_strategies_def
        split: if_splits)
  then have run: "(case ?rel of
      IN_SYNC \<Rightarrow> merge_answer p AlreadyInSync (Some l) False [] [] st
    | BEHIND \<Rightarrow> fast_forward env p s False st
    | AHEAD \<Rightarrow> merge_answer p AlreadyAhead (Some l) False [] [] st
    | DIVERGED \<Rightarrow> merge_diverged env p ''three-way'' l s False DIVERGED st
    | UNRELATED \<Rightarrow> merge_diverged env p ''three-way'' l s False UNRELATED st) = (Inr (Ok (MergeResult m)), st')"
    using assms(4) by (simp add: handle_merge_def Let_def ref_empty_def valid_strategies_def resolve_ref_def
        typed_head_entity [OF assms(3)] cong: relationship.case_cong)
  have ff: "s = v \<and> mr_conflicts m = []" if "fast_forward env p s False st = (Inr (Ok (MergeResult m)), st')"
    using that assms(5) by (auto simp: fast_forward_def Let_def merge_answer_def and_then_def
        split: sum.splits prod.splits if_splits)
  show ?thesis
    using run assms(5) ff merge_diverged_version [OF assms(1,2)]
    by (cases ?rel) (auto simp: merge_answer_def)
qed

subsection \<open>Two peers that diverged\<close>

definition flat_hash :: "rev_entity stored \<Rightarrow> bytes" where
  "flat_hash e = (case e of
     TrieNode n \<Rightarrow> [1]
   | OtherEntity (VersionEntry v) \<Rightarrow> 2 # (case ve_root v of None \<Rightarrow> [] | Some r \<Rightarrow> r) @ concat (ve_parents v)
   | OtherEntity (HashRef h) \<Rightarrow> 3 # (case h of None \<Rightarrow> [] | Some b \<Rightarrow> b)
   | _ \<Rightarrow> [4])"

definition version_over :: "bytes \<Rightarrow> bytes list \<Rightarrow> rev_entity stored" where
  "version_over root parents = OtherEntity (VersionEntry \<lparr>ve_root = Some root, ve_parents = parents\<rparr>)"

definition two_sides :: rev_store where
  "two_sides =
     [([1], TrieNode (Node 0 [])), ([2, 1], version_over [1] []), ([2, 1, 2, 1], version_over [1] [[2, 1]]),
      ([2, 1, 2, 1, 2, 1], version_over [1] [[2, 1], [2, 1]]),
      ([3, 5], hash_ref (Some [2, 1, 2, 1])), ([3, 6], hash_ref (Some [2, 1, 2, 1, 2, 1]))]"

definition peer_at :: "bytes \<Rightarrow> rev_state" where
  "peer_at h = empty_state\<lparr>es_store := two_sides,
     es_tree := \<lparr>et_local = ''P'', et_tree = [(''/P/system/revision/05/head'', h)]\<rparr>\<rparr>"

lemma peer_plain: "plain_merge env p (peer_at h)"
proof (rule no_config_plain)
  have "normalize_uri ''P'' ''system/revision/config/merge/'' = ''/P/system/revision/config/merge/''" by code_simp
  then show "\<not> starts_with uri (env_uri (peer_at h) ''system/revision/config/merge/'')"
    if "uri \<in> fst ` set (et_tree (es_tree (peer_at h)))" for uri
    using that by (simp add: peer_at_def)
qed (simp add: peer_at_def tree_ok_def dict_ok_def)

lemma peer_prefix: "env_ph (sample_env flat_hash) (peer_at h) ''doc/'' = ''05''"
proof -
  have "hex [5] = ''05''" by code_simp
  then show ?thesis by (simp add: compute_prefix_hash_def sample_env_def)
qed

lemma peer_uri: "normalize_uri ''P'' (head_path ''05'') = ''/P/system/revision/05/head''"
  "normalize_uri ''P'' (config_path_for_prefix ''05'') = ''/P/system/revision/05/config''"
  by code_simp+

lemma peer_head:
  "typed_head (peer_at [3, 5]) ''05'' = Some [2, 1, 2, 1]" "typed_head (peer_at [3, 6]) ''05'' = Some [2, 1, 2, 1, 2, 1]"
  by (simp_all add: typed_head_def get_entity_at_path_def get_hash_at_path_def et_get_def peer_at_def peer_uri normalize_uri_id
      two_sides_def cs_get_def hash_ref_def version_over_def)

lemma peer_config: "get_config (es_tree (peer_at h)) cs ''05'' = None"
  by (simp add: get_config_def get_entity_at_path_def get_hash_at_path_def et_get_def peer_at_def peer_uri normalize_uri_id)

lemma two_sides_eval:
  "get_version_entity two_sides [2, 1, 2, 1] \<noteq> None" "get_version_entity two_sides [2, 1, 2, 1, 2, 1] \<noteq> None"
  "check_relationship two_sides (Some [2, 1, 2, 1]) (Some [2, 1, 2, 1, 2, 1]) = DIVERGED"
  "check_relationship two_sides (Some [2, 1, 2, 1, 2, 1]) (Some [2, 1, 2, 1]) = DIVERGED"
  "sides_of two_sides ''deterministic'' [2, 1, 2, 1] [2, 1, 2, 1, 2, 1] DIVERGED
     = \<lparr>ms_local = [2, 1, 2, 1], ms_remote = [2, 1, 2, 1, 2, 1], ms_ancestor = Some [2, 1]\<rparr>"
  "same_root two_sides \<lparr>ms_local = [2, 1, 2, 1], ms_remote = [2, 1, 2, 1, 2, 1], ms_ancestor = Some [2, 1]\<rparr>
     = Some \<lparr>ve_root = Some [1], ve_parents = [[2, 1]]\<rparr>"
  by code_simp+

lemma two_sides_bindings:
  "h \<in> {[2, 1], [2, 1, 2, 1], [2, 1, 2, 1, 2, 1]} \<Longrightarrow> get_version_bindings (sample_env flat_hash) two_sides h = Inr (Some [])"
proof -
  have c: "collect_all_bindings 100 [1] [] two_sides = Inr []" by code_simp
  assume "h \<in> {[2, 1], [2, 1, 2, 1], [2, 1, 2, 1, 2, 1]}"
  moreover have "get_version_entity two_sides [2, 1] = Some \<lparr>ve_root = Some [1], ve_parents = []\<rparr>"
    "get_version_entity two_sides [2, 1, 2, 1] = Some \<lparr>ve_root = Some [1], ve_parents = [[2, 1]]\<rparr>"
    "get_version_entity two_sides [2, 1, 2, 1, 2, 1] = Some \<lparr>ve_root = Some [1], ve_parents = [[2, 1], [2, 1]]\<rparr>"
    by code_simp+
  moreover have "env_limit (sample_env flat_hash) = 100" by (simp add: sample_env_def)
  ultimately show ?thesis by (auto simp: get_version_bindings_def c dict_of_def)
qed

lemma two_sides_merge:
  "\<exists>st. handle_merge (sample_env flat_hash) ''doc/'' (Inl [2, 1, 2, 1, 2, 1]) ''three-way'' False (peer_at [3, 5])
     = merge_answer ''doc/'' Merged (Some [2, 1, 2, 1, 2, 1, 2, 1, 2, 1, 2, 1]) False [] [] st"
  "\<exists>st. handle_merge (sample_env flat_hash) ''doc/'' (Inl [2, 1, 2, 1]) ''three-way'' False (peer_at [3, 6])
     = merge_answer ''doc/'' Merged (Some [2, 1, 2, 1, 2, 1, 2, 1, 2, 1, 2, 1]) False [] [] st"
proof -
  have perm: "env_permits (sample_env flat_hash) op p" for op p by (simp add: sample_env_def)
  have st: "es_store (peer_at h) = two_sides" for h by (simp add: peer_at_def)
  have put: "fst (put_version (sample_env flat_hash) [1] ps (peer_at h)) = [2, 1] @ concat (sorted_parents ps)" for ps h
    by (simp add: put_version_hash version_hash_of_def sample_env_def flat_hash_def)
  have sort: "sorted_parents [[2, 1, 2, 1], [2, 1, 2, 1, 2, 1]] = [[2, 1, 2, 1], [2, 1, 2, 1, 2, 1]]"
    "sorted_parents [[2, 1, 2, 1, 2, 1], [2, 1, 2, 1]] = [[2, 1, 2, 1], [2, 1, 2, 1, 2, 1 :: 8 word]]" by code_simp+
  have swap: "sides_of two_sides ''deterministic'' [2, 1, 2, 1, 2, 1] [2, 1, 2, 1] DIVERGED
     = \<lparr>ms_local = [2, 1, 2, 1], ms_remote = [2, 1, 2, 1, 2, 1], ms_ancestor = Some [2, 1]\<rparr>"
    unfolding sides_sym [of two_sides "[2, 1, 2, 1, 2, 1]"] by (rule two_sides_eval(5))
  note run = handle_merge_def Let_def ref_empty_def valid_strategies_def perm resolve_ref_def st two_sides_eval
    peer_prefix typed_head_entity [OF peer_head(1), unfolded st] typed_head_entity [OF peer_head(2), unfolded st] merge_diverged_def
    peer_config merge_order_of_def bindings_or_empty_def two_sides_bindings merge_same_root_def swap sort
  show "\<exists>st. handle_merge (sample_env flat_hash) ''doc/'' (Inl [2, 1, 2, 1, 2, 1]) ''three-way'' False (peer_at [3, 5])
     = merge_answer ''doc/'' Merged (Some [2, 1, 2, 1, 2, 1, 2, 1, 2, 1, 2, 1]) False [] [] st"
    using put [of "[[2, 1, 2, 1], [2, 1, 2, 1, 2, 1]]" "[3, 5]"]
    by (cases "put_version (sample_env flat_hash) [1] [[2, 1, 2, 1], [2, 1, 2, 1, 2, 1]] (peer_at [3, 5])")
      (auto simp: run)
  show "\<exists>st. handle_merge (sample_env flat_hash) ''doc/'' (Inl [2, 1, 2, 1]) ''three-way'' False (peer_at [3, 6])
     = merge_answer ''doc/'' Merged (Some [2, 1, 2, 1, 2, 1, 2, 1, 2, 1, 2, 1]) False [] [] st"
    using put [of "[[2, 1, 2, 1, 2, 1], [2, 1, 2, 1]]" "[3, 6]"]
    by (cases "put_version (sample_env flat_hash) [1] [[2, 1, 2, 1, 2, 1], [2, 1, 2, 1]] (peer_at [3, 6])")
      (auto simp: run)
qed

subsection \<open>Properties of the merge\<close>



end
