(* ===== verification/Checkouts.thy ===== *)
theory Checkouts
  imports Commits
begin

section \<open>What checkout, cherry-pick and revert do\<close>

text \<open>
  The operations of \<open>Revision_Refs\<close> that change the tree below a prefix, on a pathway where nothing listens: each
  leaves there what it should, moves the head, and touches nothing else.
\<close>

subsection \<open>Steps below a prefix that is apart from the engine\<close>

lemma apart_entity:
  assumes "apart st p" "same_outside p (es_tree st1) (es_tree st2)" "cs.grows (es_store st1) (es_store st2)"
    and "et_local (es_tree st1) = et_local (es_tree st)"
    and "get_entity_at_path (es_tree st1) (es_store st1) (''system/revision/'' @ x) = Some e"
  shows "get_entity_at_path (es_tree st2) (es_store st2) (''system/revision/'' @ x) = Some e"
proof (rule entity_kept [OF assms(3) _ _ assms(5)])
  have "normalize_uri (et_local (es_tree st)) (''system/revision/'' @ x) = env_uri st ''system/revision/'' @ x"
    by (rule normalize_below [OF engine_dir])
  moreover have "\<not> starts_with (env_uri st ''system/revision/'' @ x) (env_uri st p)"
    using assms(1) prefix_same_cases [of "env_uri st p" "env_uri st ''system/revision/'' @ x" "env_uri st ''system/revision/''"]
    by (auto simp: apart_def)
  ultimately show "et_get (es_tree st2) (''system/revision/'' @ x) = et_get (es_tree st1) (''system/revision/'' @ x)"
    using assms(2,4) by (simp add: same_outside_def)
qed (use assms(2) in \<open>simp add: same_outside_def\<close>)

lemma apart_typed_head:
  assumes "apart st p" "moves env p st1 st2" "et_local (es_tree st1) = et_local (es_tree st)" "typed_head st1 ph = Some v"
  shows "typed_head st2 ph = Some v"
proof -
  have e: "get_entity_at_path (es_tree st1) (es_store st1) (head_path ph) = Some (OtherEntity (HashRef (Some v)))"
    using assms(4) by (auto simp: typed_head_def split: option.splits stored.splits rev_entity.splits)
  have "same_outside p (es_tree st1) (es_tree st2)" "cs.grows (es_store st1) (es_store st2)"
    using assms(2) by (simp_all add: moves_def)
  from apart_entity [OF assms(1) this assms(3) e [unfolded head_path_engine]]
  have "get_entity_at_path (es_tree st2) (es_store st2) (head_path ph) = Some (OtherEntity (HashRef (Some v)))"
    unfolding head_path_engine .
  then show ?thesis by (simp add: typed_head_def)
qed

lemma apart_below_map: "apart st p \<Longrightarrow> same_outside ''system/revision/'' (es_tree st) t \<Longrightarrow> below p t = below p (es_tree st)"
proof
  fix k assume a: "apart st p" and s: "same_outside ''system/revision/'' (es_tree st) t"
  have "et_local t = et_local (es_tree st)" using s by (simp add: same_outside_def)
  then show "below p t k = below p (es_tree st) k" by (simp add: below_def apart_below [OF a s])
qed

lemma remove_moves:
  assumes "well env st" "ends_with dir ''/''" "dir \<noteq> ''entity:/''"
  shows "moves env dir st (st\<lparr>es_tree := snd (et_remove (dir @ x) (es_tree st))\<rparr>)"
  using assms(1) remove_below(2) [OF assms(2,3)] tree_ok_remove [of "es_tree st"]
  by (simp add: moves_def well_def quiet_def cs.grows_refl)

lemma remove_path_moves:
  assumes "well env st"
  shows "moves env ''system/revision/'' st (remove_path (active_branch_path ph) st)"
  using remove_moves [OF assms engine_dir, of "ph @ ''/active-branch''"]
  by (simp add: remove_path_def active_branch_path_def)

text \<open>Writes and deletions below a prefix.\<close>

lemma write_moves:
  assumes "well env st" "ends_with p ''/''" "p \<noteq> ''entity:/''"
  shows "moves env p st (snd (env_emit_hash env (env_uri st (p @ k)) h ctx st))"
    "below p (es_tree (snd (env_emit_hash env (env_uri st (p @ k)) h ctx st))) = (below p (es_tree st))(k \<mapsto> h)"
    "er_status (fst (env_emit_hash env (env_uri st (p @ k)) h ctx st)) = 200"
    "moves env p st (snd (env_delete env (env_uri st (p @ k)) ctx st))"
    "below p (es_tree (snd (env_delete env (env_uri st (p @ k)) ctx st))) = (below p (es_tree st))(k := None)"
    "er_status (fst (env_delete env (env_uri st (p @ k)) ctx st)) = 200"
proof -
  have q: "quiet st" using assms(1) by (simp add: well_def)
  note w = quiet_emit_hash [OF q, of "env_pf env" "env_beh env" "env_uri st (p @ k)" h ctx, unfolded wrote_def]
  note d = quiet_delete [OF q, of "env_pf env" "env_beh env" "env_uri st (p @ k)" ctx, unfolded wrote_def]
  show "moves env p st (snd (env_emit_hash env (env_uri st (p @ k)) h ctx st))"
    "below p (es_tree (snd (env_emit_hash env (env_uri st (p @ k)) h ctx st))) = (below p (es_tree st))(k \<mapsto> h)"
    "er_status (fst (env_emit_hash env (env_uri st (p @ k)) h ctx st)) = 200"
    using w assms(1) set_below [OF assms(2,3)] tree_ok_set [of "es_tree st"]
    by (simp_all add: moves_def well_def cs.grows_refl)
  show "moves env p st (snd (env_delete env (env_uri st (p @ k)) ctx st))"
    "below p (es_tree (snd (env_delete env (env_uri st (p @ k)) ctx st))) = (below p (es_tree st))(k := None)"
    "er_status (fst (env_delete env (env_uri st (p @ k)) ctx st)) = 200"
    using d assms(1) remove_below [OF assms(2,3)] tree_ok_remove [of "es_tree st"]
    by (simp_all add: moves_def well_def cs.grows_refl)
qed

lemma apply_each_well:
  assumes "ends_with p ''/''" "p \<noteq> ''entity:/''"
  shows "well env st \<Longrightarrow> apply_each env p ctx bindings acc st = (acc', st') \<Longrightarrow> well env st'"
proof (induction bindings arbitrary: acc st)
  case (Cons b bindings)
  obtain k h where b: "b = (k, h)" by (cases b)
  have "well env (snd (env_emit_hash env (env_uri st (p @ k)) h ctx st))"
    "well env (snd (env_delete env (env_uri st (p @ k)) ctx st))"
    using write_moves(1,4) [OF Cons.prems(1) assms] by (simp_all add: moves_def)
  then show ?case
    using Cons.IH Cons.prems by (auto simp: b Let_def split: if_splits prod.splits)
qed simp

lemma apply_moves:
  assumes "well env st" "ends_with p ''/''" "p \<noteq> ''entity:/''" "distinct (map fst bindings)"
    and "apply_bindings_to_tree env bindings p ctx True st = (acc, st')"
  shows "moves env p st st'" "below p (es_tree st') = transcribed env bindings (below p (es_tree st))" "ap_warnings acc = []"
proof -
  let ?acc0 = "\<lparr>ap_applied = 0, ap_removed = 0, ap_warnings = []\<rparr>"
  have a: "apply_each env p ctx bindings ?acc0 st = (acc, st')"
    using assms(5) by (simp add: apply_bindings_to_tree_def split: prod.splits)
  have "quiet st" using assms(1) by (simp add: well_def)
  note A = quiet_apply_each [OF assms(2,3) this assms(4) a]
  have "tree_ok (es_tree st')" using apply_each_well [OF assms(2,3,1) a] by (simp add: well_def)
  then show "moves env p st st'" "below p (es_tree st') = transcribed env bindings (below p (es_tree st))" "ap_warnings acc = []"
    using A assms(1) by (simp_all add: moves_def well_def cs.grows_refl)
qed

subsection \<open>Checkout\<close>

lemma leave_behind_moves:
  assumes "ends_with p ''/''" "p \<noteq> ''entity:/''"
  shows "well env st \<Longrightarrow> leave_behind env p ctx bindings ws st = (ws', st') \<Longrightarrow>
    moves env p st st' \<and> ws' = ws
    \<and> below p (es_tree st') = (\<lambda>k. if \<exists>h. (k, h) \<in> set bindings \<and> \<not> is_deletion_marker env (Some h) then None
                                     else below p (es_tree st) k)"
proof (induction bindings arbitrary: ws st)
  case Nil
  then show ?case by (simp add: moves_refl)
next
  case (Cons b bindings)
  obtain k h where b: "b = (k, h)" by (cases b)
  let ?uri = "env_uri st (p @ k)"
  have get: "et_get (es_tree st) (p @ k) = below p (es_tree st) k" by (simp add: below_get [OF assms])
  show ?case
  proof (cases "is_deletion_marker env (Some h) \<or> et_get (es_tree st) ?uri = None")
    case True
    then have "leave_behind env p ctx bindings ws st = (ws', st')" using Cons.prems(2) by (simp add: b)
    from Cons.IH [OF Cons.prems(1) this] True show ?thesis by (auto simp: b get fun_eq_iff)
  next
    case False
    obtain r st1 where del: "env_delete env ?uri ctx st = (r, st1)" by (cases "env_delete env ?uri ctx st")
    have w: "moves env p st st1" "below p (es_tree st1) = (below p (es_tree st))(k := None)" "er_status r = 200"
      using write_moves(4-6) [OF Cons.prems(1) assms, of k ctx] by (simp_all add: del)
    have "leave_behind env p ctx bindings (ws @ halt_warning k r) st1 = (ws', st')"
      using Cons.prems(2) False by (auto simp: b del)
    from Cons.IH [OF _ this] w moves_trans [OF w(1)] False show ?thesis
      by (auto simp: b moves_def halt_warning_def fun_eq_iff)
  qed
qed

lemma checkout_obtain:
  assumes "sound_env env" "well env st" "ends_with p ''/''" "p \<noteq> ''entity:/''" "apart st p"
    and "distinct (map fst vb)" "distinct (map fst sb)"
  obtains st' where "checkout_version env p v None vb sb st = (Inr (Ok (CheckedOut v (Some v) None [])), st')"
    "well env st'" "typed_head st' (env_ph env st p) = Some v"
    "below p (es_tree st') = (\<lambda>k. case map_of vb k of
        Some h \<Rightarrow> if is_deletion_marker env (Some h) then None else Some h
      | None \<Rightarrow> if live env (map_of sb) k \<noteq> None then None else below p (es_tree st) k)"
proof -
  let ?ph = "env_ph env st p" and ?ctx = "handler_context_of env ''checkout''"
  let ?st1 = "snd (env_emit env (head_path ?ph) (hash_ref (Some v)) ?ctx st)"
  let ?st2 = "remove_path (active_branch_path ?ph) ?st1"
  have m1: "moves env ''system/revision/'' st ?st1"
    and g1: "get_entity_at_path (es_tree ?st1) (es_store ?st1) (head_path ?ph) = Some (hash_ref (Some v))"
    unfolding head_path_engine by (rule emit_moves [OF assms(2,1) engine_dir])+
  have w1: "well env ?st1" using m1 by (simp add: moves_def)
  have m2: "moves env ''system/revision/'' ?st1 ?st2" by (rule remove_path_moves [OF w1])
  note m12 = moves_trans [OF m1 m2]
  have w2: "well env ?st2" using m2 by (simp add: moves_def)
  have ne: "normalize_uri l (active_branch_path ?ph) \<noteq> normalize_uri l (head_path ?ph)" for l
    unfolding active_branch_path_def head_path_engine normalize_below [OF engine_dir] by simp
  have h2: "typed_head ?st2 ?ph = Some v"
  proof -
    have "et_get (es_tree ?st2) (head_path ?ph) = et_get (es_tree ?st1) (head_path ?ph)"
      using ne [THEN not_sym] by (simp add: remove_path_def et_get_removed)
    then have "get_entity_at_path (es_tree ?st2) (es_store ?st2) (head_path ?ph) = Some (hash_ref (Some v))"
      using m2 by (intro entity_kept [OF _ _ _ g1]) (simp_all add: moves_def same_outside_def)
    then show ?thesis by (simp add: typed_head_def hash_ref_def)
  qed
  obtain acc st3 where a: "apply_bindings_to_tree env vb p ?ctx True ?st2 = (acc, st3)"
    by (cases "apply_bindings_to_tree env vb p ?ctx True ?st2")
  note A = apply_moves [OF w2 assms(3,4,6) a]
  have w3: "well env st3" using A(1) by (simp add: moves_def)
  let ?gone = "filter (\<lambda>(path, h). path \<notin> fst ` set vb) sb"
  obtain ws st4 where l: "leave_behind env p ?ctx ?gone (ap_warnings acc) st3 = (ws, st4)"
    by (cases "leave_behind env p ?ctx ?gone (ap_warnings acc) st3")
  have L: "moves env p st3 st4" "ws = []" "below p (es_tree st4) =
      (\<lambda>k. if \<exists>h. (k, h) \<in> set ?gone \<and> \<not> is_deletion_marker env (Some h) then None else below p (es_tree st3) k)"
    using leave_behind_moves [OF assms(3,4) w3 l] A(3) by simp_all
  have m: "moves env p ?st2 st4" by (rule moves_trans [OF A(1) L(1)])
  have head: "typed_head st4 ?ph = Some v"
    by (rule apart_typed_head [OF assms(5) m moves_local [OF m12] h2])
  have "es_tree ?st2 = es_tree ?st2 \<and> same_outside ''system/revision/'' (es_tree st) (es_tree ?st2)"
    using m12 by (simp add: moves_def)
  then have b2: "below p (es_tree ?st2) = below p (es_tree st)" using apart_below_map [OF assms(5)] by blast
  have gone: "(\<exists>h. (k, h) \<in> set ?gone \<and> \<not> is_deletion_marker env (Some h)) \<longleftrightarrow> map_of vb k = None \<and> live env (map_of sb) k \<noteq> None" for k
  proof -
    have "(\<exists>h. (k, h) \<in> set ?gone \<and> \<not> is_deletion_marker env (Some h))
        \<longleftrightarrow> k \<notin> fst ` set vb \<and> (\<exists>h. map_of sb k = Some h \<and> \<not> is_deletion_marker env (Some h))"
      using assms(7) by auto
    then show ?thesis by (auto simp: live_def map_of_eq_None_iff)
  qed
  have "checkout_version env p v None vb sb st = (Inr (Ok (CheckedOut v (Some v) None [])), st4)"
    using typed_head_entity [OF head] by (simp add: checkout_version_def Let_def a l L(2))
  moreover have "below p (es_tree st4) = (\<lambda>k. case map_of vb k of
        Some h \<Rightarrow> if is_deletion_marker env (Some h) then None else Some h
      | None \<Rightarrow> if live env (map_of sb) k \<noteq> None then None else below p (es_tree st) k)"
    unfolding L(3) gone A(2) b2 by (auto simp: transcribed_def fun_eq_iff split: option.split)
  ultimately show ?thesis using that [OF _ _ head] L(1) by (simp add: moves_def)
qed

subsection \<open>Applying a difference\<close>

lemma patched_lookup:
  "map_of (patched (compute_snapshot_diff env b t) cur) =
     (\<lambda>k. if live env (map_of b) k = live env (map_of t) k then map_of cur k else live env (map_of t) k)"
proof -
  have upd: "map_of (fold (\<lambda>(path, h). AList.update path h) xs m) = map_of m ++ map_of (rev xs)" for xs and m :: "(string, bytes) dict"
    by (induction xs arbitrary: m) (auto simp: update_conv' map_add_def fun_eq_iff split: option.split)
  have chg: "map_of (fold (\<lambda>(path, _, h). AList.update path h) xs m) = map_of m ++ (map_option snd \<circ> map_of (rev xs))"
    for xs :: "(string \<times> bytes \<times> bytes) list" and m :: "(string, bytes) dict"
    by (induction xs arbitrary: m) (auto simp: update_conv' map_add_def fun_eq_iff split: option.split)
  have del: "map_of (fold (\<lambda>(path, h). AList.delete path) xs m) = (\<lambda>k. if k \<in> fst ` set xs then None else map_of m k)"
    for xs and m :: "(string, bytes) dict"
    by (induction xs arbitrary: m) (auto simp: delete_conv' fun_eq_iff)
  let ?d = "compute_snapshot_diff env b t"
  note d = snapshot_diff_lookup [of env b t]
  have dist: "distinct (map fst (sd_added ?d))" "distinct (map fst (sd_changed ?d))" "distinct (map fst (sd_removed ?d))"
    by (rule diff_distinct)+
  have rem: "k \<in> fst ` set (sd_removed ?d) \<longleftrightarrow> live env (map_of t) k = None \<and> live env (map_of b) k \<noteq> None" for k
    unfolding dom_map_of_conv_image_fst [symmetric] using d by (auto split: if_splits)
  have a: "map_of (rev (sd_added ?d)) = (\<lambda>k. if live env (map_of b) k = None then live env (map_of t) k else None)"
    using d map_of_rev_distinct [OF dist(1)] by simp
  have c: "map_of (rev (sd_changed ?d)) = (\<lambda>k. case (live env (map_of b) k, live env (map_of t) k) of
            (Some h, Some h') \<Rightarrow> if h \<noteq> h' then Some (h, h') else None | _ \<Rightarrow> None)"
    using d map_of_rev_distinct [OF dist(2)] by simp
  show ?thesis
    unfolding patched_def del chg upd a c rem
    by (auto simp: fun_eq_iff map_add_def split: option.split)
qed

text \<open>The three loops, each with the bindings it leaves.\<close>

lemma added_moves:
  assumes "ends_with p ''/''" "p \<noteq> ''entity:/''"
  shows "well env st \<Longrightarrow> distinct (map fst xs) \<Longrightarrow> apply_added env p ctx xs (n, ws) st = ((n', ws'), st') \<Longrightarrow>
    moves env p st st' \<and> ws' = ws \<and> below p (es_tree st') = transcribed env xs (below p (es_tree st))"
proof (induction xs arbitrary: n ws st)
  case Nil
  then show ?case by (simp add: moves_refl transcribed_def)
next
  case (Cons b xs)
  obtain k h where b: "b = (k, h)" by (cases b)
  let ?uri = "env_uri st (p @ k)" and ?mk = "is_deletion_marker env (Some h)"
  have k: "map_of xs k = None" and d: "distinct (map fst xs)" using Cons.prems(2) by (simp_all add: b map_of_eq_None_iff)
  have get: "et_get (es_tree st) (p @ k) = below p (es_tree st) k" by (simp add: below_get [OF assms])
  show ?case
  proof (cases "?mk \<and> et_get (es_tree st) ?uri = None")
    case True
    then have "apply_added env p ctx xs (n + 1, ws) st = ((n', ws'), st')" using Cons.prems(3) by (simp add: b)
    from Cons.IH [OF Cons.prems(1) d this] True show ?thesis
      by (auto simp: b transcribed_def fun_eq_iff get k split: option.split)
  next
    case False
    let ?out = "if ?mk then env_delete env ?uri ctx st else env_emit_hash env ?uri h ctx st"
    obtain r st1 where out: "?out = (r, st1)" by (cases ?out)
    have w: "moves env p st st1" "er_status r = 200"
      "below p (es_tree st1) = (below p (es_tree st))(k := if ?mk then None else Some h)"
      using write_moves(1-3) [OF Cons.prems(1) assms, of k h ctx] write_moves(4-6) [OF Cons.prems(1) assms, of k ctx] out
      by (auto split: if_splits)
    have "apply_added env p ctx xs (n + 1, ws @ halt_warning k r) st1 = ((n', ws'), st')"
      using Cons.prems(3) False out by (auto simp: b)
    from Cons.IH [OF _ d this] w moves_trans [OF w(1)] show ?thesis
      by (auto simp: b moves_def halt_warning_def transcribed_def fun_eq_iff k split: option.split)
  qed
qed

lemma changed_moves:
  assumes "ends_with p ''/''" "p \<noteq> ''entity:/''"
  shows "well env st \<Longrightarrow> distinct (map fst xs) \<Longrightarrow> apply_changed env p ctx xs (n, ws) st = ((n', ws'), st') \<Longrightarrow>
    moves env p st st' \<and> ws' = ws
    \<and> below p (es_tree st') = (\<lambda>k. case map_of xs k of None \<Rightarrow> below p (es_tree st) k
         | Some (old, h) \<Rightarrow> if is_deletion_marker env (Some h) then None else Some h)"
proof (induction xs arbitrary: n ws st)
  case Nil
  then show ?case by (simp add: moves_refl)
next
  case (Cons b xs)
  obtain k old h where b: "b = (k, old, h)" by (cases b)
  let ?uri = "env_uri st (p @ k)" and ?mk = "is_deletion_marker env (Some h)"
  have k: "map_of xs k = None" and d: "distinct (map fst xs)" using Cons.prems(2) by (simp_all add: b map_of_eq_None_iff)
  let ?out = "if ?mk then env_delete env ?uri ctx st else env_emit_hash env ?uri h ctx st"
  obtain r st1 where out: "?out = (r, st1)" by (cases ?out)
  have w: "moves env p st st1" "er_status r = 200"
    "below p (es_tree st1) = (below p (es_tree st))(k := if ?mk then None else Some h)"
    using write_moves(1-3) [OF Cons.prems(1) assms, of k h ctx] write_moves(4-6) [OF Cons.prems(1) assms, of k ctx] out
    by (auto split: if_splits)
  have "apply_changed env p ctx xs (n + 1, ws @ halt_warning k r) st1 = ((n', ws'), st')"
    using Cons.prems(3) out by (auto simp: b)
  from Cons.IH [OF _ d this] w moves_trans [OF w(1)] show ?case
    by (auto simp: b moves_def halt_warning_def fun_eq_iff k split: option.split)
qed

lemma removed_moves:
  assumes "ends_with p ''/''" "p \<noteq> ''entity:/''"
  shows "well env st \<Longrightarrow> apply_removed env p ctx xs (n, ws) st = ((n', ws'), st') \<Longrightarrow>
    moves env p st st' \<and> ws' = ws
    \<and> below p (es_tree st') = (\<lambda>k. if k \<in> fst ` set xs then None else below p (es_tree st) k)"
proof (induction xs arbitrary: n ws st)
  case Nil
  then show ?case by (simp add: moves_refl)
next
  case (Cons b xs)
  obtain k h where b: "b = (k, h)" by (cases b)
  obtain r st1 where out: "env_delete env (env_uri st (p @ k)) ctx st = (r, st1)"
    by (cases "env_delete env (env_uri st (p @ k)) ctx st")
  have w: "moves env p st st1" "er_status r = 200" "below p (es_tree st1) = (below p (es_tree st))(k := None)"
    using write_moves(4-6) [OF Cons.prems(1) assms, of k ctx] by (simp_all add: out)
  have "apply_removed env p ctx xs (n + 1, ws @ halt_warning k r) st1 = ((n', ws'), st')"
    using Cons.prems(2) by (simp add: b out)
  from Cons.IH [OF _ this] w moves_trans [OF w(1)] show ?case
    by (auto simp: b moves_def halt_warning_def fun_eq_iff)
qed

lemma apply_diff_moves:
  assumes "ends_with p ''/''" "p \<noteq> ''entity:/''" "well env st"
    and "apply_diff env p ctx (compute_snapshot_diff env b t) st = ((n, ws), st')"
  shows "moves env p st st'" "ws = []"
    "below p (es_tree st') = (\<lambda>k. if live env (map_of b) k = live env (map_of t) k then below p (es_tree st) k
                                  else live env (map_of t) k)"
proof -
  let ?d = "compute_snapshot_diff env b t"
  obtain n1 ws1 st1 where 1: "apply_added env p ctx (sd_added ?d) (0, []) st = ((n1, ws1), st1)" by (metis prod.exhaust)
  obtain n2 ws2 st2 where 2: "apply_changed env p ctx (sd_changed ?d) (n1, ws1) st1 = ((n2, ws2), st2)" by (metis prod.exhaust)
  have 3: "apply_removed env p ctx (sd_removed ?d) (n2, ws2) st2 = ((n, ws), st')"
    using assms(4) by (simp add: apply_diff_def 1 2)
  note A = added_moves [OF assms(1,2,3) diff_distinct(1) 1]
  have w1: "well env st1" using A by (simp add: moves_def)
  note C = changed_moves [OF assms(1,2) w1 diff_distinct(2) 2]
  have w2: "well env st2" using C by (simp add: moves_def)
  note R = removed_moves [OF assms(1,2) w2 3]
  show "moves env p st st'" using A C R moves_trans by blast
  show "ws = []" using A C R by simp
  note d = snapshot_diff_lookup [of env b t]
  have rem: "k \<in> fst ` set (sd_removed ?d) \<longleftrightarrow> live env (map_of t) k = None \<and> live env (map_of b) k \<noteq> None" for k
    unfolding dom_map_of_conv_image_fst [symmetric] using d by (auto split: if_splits)
  have alive: "live env m k = Some h \<Longrightarrow> \<not> is_deletion_marker env (Some h)" for m k h
    by (auto simp: live_def split: if_splits)
  have a: "map_of (sd_added ?d) = (\<lambda>k. if live env (map_of b) k = None then live env (map_of t) k else None)"
    and c: "map_of (sd_changed ?d) = (\<lambda>k. case (live env (map_of b) k, live env (map_of t) k) of
            (Some h, Some h') \<Rightarrow> if h \<noteq> h' then Some (h, h') else None | _ \<Rightarrow> None)"
    using d by blast+
  show "below p (es_tree st') = (\<lambda>k. if live env (map_of b) k = live env (map_of t) k then below p (es_tree st) k
                                  else live env (map_of t) k)"
  proof
    fix k
    have "below p (es_tree st') k = (if k \<in> fst ` set (sd_removed ?d) then None else
       case map_of (sd_changed ?d) k of
         None \<Rightarrow> transcribed env (sd_added ?d) (below p (es_tree st)) k
       | Some (old, h) \<Rightarrow> if is_deletion_marker env (Some h) then None else Some h)"
      unfolding R [THEN conjunct2, THEN conjunct2] C [THEN conjunct2, THEN conjunct2] A [THEN conjunct2, THEN conjunct2] ..
    then show "below p (es_tree st') k = (if live env (map_of b) k = live env (map_of t) k then below p (es_tree st) k
                                  else live env (map_of t) k)"
      unfolding rem c transcribed_def a
      by (cases "live env (map_of b) k"; cases "live env (map_of t) k") (auto dest!: alive)
  qed
qed

lemma patched_distinct: "distinct (map fst bindings) \<Longrightarrow> distinct (map fst (patched d bindings))"
proof -
  have upd: "distinct (map fst m) \<Longrightarrow> distinct (map fst (fold (\<lambda>(path, h). AList.update path h) xs m))"
    for xs and m :: "(string, bytes) dict"
    by (induction xs arbitrary: m) (auto simp: distinct_update)
  have chg: "distinct (map fst m) \<Longrightarrow> distinct (map fst (fold (\<lambda>(path, _, h). AList.update path h) xs m))"
    for xs :: "(string \<times> bytes \<times> bytes) list" and m :: "(string, bytes) dict"
    by (induction xs arbitrary: m) (auto simp: distinct_update)
  have del: "distinct (map fst m) \<Longrightarrow> distinct (map fst (fold (\<lambda>(path, h). AList.delete path) xs m))"
    for xs :: "(string, bytes) dict" and m :: "(string, bytes) dict"
    by (induction xs arbitrary: m) (auto simp: distinct_delete)
  assume "distinct (map fst bindings)"
  then show ?thesis unfolding patched_def by (intro del chg upd)
qed

text \<open>What a difference makes of bindings: where the two sides of it agree nothing, elsewhere what the target says.\<close>

definition patch_map ::
  "(string \<Rightarrow> bytes option) \<Rightarrow> (string \<Rightarrow> bytes option) \<Rightarrow> (string \<Rightarrow> bytes option) \<Rightarrow> string \<Rightarrow> bytes option" where
  "patch_map b t m k = (if b k = t k then m k else t k)"

lemma commit_diff_obtain:
  assumes "sound_env env" "well env st" "ends_with p ''/''" "p \<noteq> ''entity:/''" "apart st p"
    and "typed_head st (env_ph env st p) = Some l" "l \<noteq> []"
    and "spread (env_route env) (dom (patch_map (live env (map_of b)) (live env (map_of t)) (map_of (current_bindings env p st))))"
  obtains new root n st' bindings where
    "commit_diff env p operation status v (compute_snapshot_diff env b t) st = (Inr (Ok (Picked status v new n [])), st')"
    "well env st'" "typed_head st' (env_ph env st p) = Some new"
    "get_version_entity (es_store st') new = Some \<lparr>ve_root = Some root, ve_parents = [l]\<rparr>"
    "get_version_bindings env (es_store st') new = Inr (Some bindings)"
    "map_of bindings = patch_map (live env (map_of b)) (live env (map_of t)) (map_of (current_bindings env p st))"
    "below p (es_tree st') = patch_map (live env (map_of b)) (live env (map_of t)) (below p (es_tree st))"
proof -
  let ?ph = "env_ph env st p" and ?cb = "current_bindings env p st" and ?d = "compute_snapshot_diff env b t"
  let ?m = "patch_map (live env (map_of b)) (live env (map_of t))"
  have pm: "map_of (patched ?d ?cb) = ?m (map_of ?cb)" by (simp add: patched_lookup patch_map_def fun_eq_iff)
  have pd: "distinct (map fst (patched ?d ?cb))" by (rule patched_distinct [OF current_distinct [OF assms(2)]])
  have sp: "spread (env_route env) (fst ` set (patched ?d ?cb))"
    using assms(8) unfolding dom_map_of_conv_image_fst [symmetric] pm .
  obtain root st1 where r: "build_version_trie env (patched ?d ?cb) st = (Inr root, st1)"
    "snapshot (env_route env) (env_hash env) (es_store st1) root (map_of (patched ?d ?cb))"
    "moves env ''system/revision/'' st st1" "es_tree st1 = es_tree st"
    by (rule build_version [OF assms(2,1) pd sp])
  have w1: "well env st1" and g1: "cs.grows (es_store st) (es_store st1)" using r(3) by (simp_all add: moves_def)
  have head1: "get_entity_at_path (es_tree st1) (es_store st1) (head_path ?ph) = Some (OtherEntity (HashRef (Some l)))"
    by (rule typed_head_entity [OF typed_head_tree [OF r(4) g1 assms(6)]])
  obtain new st2 where put: "put_version env root [l] st1 = (new, st2)" by (cases "put_version env root [l] st1")
  note f = put_version_found [OF w1 assms(1) put]
  have w2: "well env st2" using f(2) by (simp add: moves_def)
  let ?st3 = "update_head_and_branch env ?ph new operation st2"
  note u = update_head_moves [OF w2 assms(1), of ?ph new operation]
  have w3: "well env ?st3" using u(1) by (simp add: moves_def)
  have m13: "moves env ''system/revision/'' st ?st3" by (rule moves_trans [OF r(3) moves_trans [OF f(2) u(1)]])
  obtain n ws st4 where a: "apply_diff env p (handler_context_of env operation) ?d ?st3 = ((n, ws), st4)"
    by (metis prod.exhaust)
  note A = apply_diff_moves [OF assms(3,4) w3 a]
  have hf: "hash_field (OtherEntity (HashRef (Some l))) = Inr (Some l)"
    by (simp add: hash_field_def data_get_def dict_get_def)
  have res: "commit_diff env p operation status v ?d st = (Inr (Ok (Picked status v new n [])), st4)"
    by (simp add: commit_diff_def Let_def r(1) head1 hf assms(7) put a A(2))
  have g: "cs.grows (es_store st1) (es_store st4)" "cs.grows (es_store st2) (es_store st4)" "well env st4"
    using f(2) u(1) A(1) cs.grows_trans by (auto simp: moves_def) blast+
  have "sorted_parents [l] = [l]" by (simp add: sorted_parents_def)
  then have ve: "get_version_entity (es_store st4) new = Some \<lparr>ve_root = Some root, ve_parents = [l]\<rparr>"
    using f(1) g(2) by (auto simp: get_version_entity_def cs.grows_def split: option.splits stored.splits rev_entity.splits)
  have s4: "snapshot (env_route env) (env_hash env) (es_store st4) root (map_of (patched ?d ?cb))"
    using snapshot_grows [OF r(2) g(1)] g(3) by (simp add: well_def)
  have vr: "ve_root \<lparr>ve_root = Some root, ve_parents = [l]\<rparr> = Some root" by simp
  obtain bindings where b: "get_version_bindings env (es_store st4) new = Inr (Some bindings)"
    "map_of bindings = map_of (patched ?d ?cb)"
    by (rule version_bindings [OF assms(1) ve vr s4])
  have head: "typed_head st4 ?ph = Some new"
    by (rule apart_typed_head [OF assms(5) A(1) moves_local [OF m13] u(2)])
  have "below p (es_tree ?st3) = below p (es_tree st)"
    using apart_below_map [OF assms(5)] m13 by (simp add: moves_def)
  then have "below p (es_tree st4) = ?m (below p (es_tree st))" unfolding A(3) by (simp add: patch_map_def fun_eq_iff)
  with that [OF res g(3) head ve b(1) b(2) [unfolded pm]] show ?thesis .
qed

subsection \<open>Two versions to pick from\<close>

text \<open>The first has no bindings, the second, the head, binds a path.\<close>

abbreviation sample :: rev_env where "sample \<equiv> sample_env distinct_hash"

definition two_versions :: "bytes \<times> bytes \<times> rev_state" where
  "two_versions =
     (let (r0, t0) = build_version_trie sample [] sample_state;
          (v0, t1) = put_version sample (projr r0) [] t0;
          (r1, s1) = build_version_trie sample [(''a'', distinct_hash sample_entity)] t1;
          (v1, s3) = put_version sample (projr r1) [v0] s1
      in (v0, v1, update_head_and_branch sample (env_ph sample sample_state ''doc/'') v1 ''commit'' s3))"

lemma sample_live: "live sample [''a'' \<mapsto> distinct_hash sample_entity] = [''a'' \<mapsto> distinct_hash sample_entity]"
proof -
  have "distinct_hash sample_entity \<noteq> [0, 9]"
    by (cases "to_nat sample_entity") (simp_all add: distinct_hash_def put_nat_def)
  then have "\<not> is_deletion_marker sample (Some (distinct_hash sample_entity))"
    by (auto simp: is_deletion_marker_def sample_env_def split: sum.split)
  then show ?thesis by (simp add: live_def fun_eq_iff)
qed

lemma sample_bindings: "map_of (current_bindings sample ''doc/'' sample_state) = [''a'' \<mapsto> distinct_hash sample_entity]"
proof
  fix k
  let ?c = "get_config (es_tree sample_state) (es_store sample_state) (env_ph sample sample_state ''doc/'')"
  have t: "tree_ok (es_tree sample_state)" using sample_well by (simp add: well_def)
  have "env_uri sample_state (config_path_for_prefix ph) = env_uri sample_state ''system/revision/'' @ ph @ ''/config''" for ph
    unfolding config_path_engine by (rule normalize_below [OF engine_dir])
  then have "et_get (es_tree sample_state) (config_path_for_prefix ph) = None" for ph
    by (simp add: sample_get sample_uris)
  then have c: "?c = None" by (simp add: get_config_def get_entity_at_path_def get_hash_at_path_def)
  have u: "env_uri sample_state (''/P/doc/'' @ k) = ''/P/doc/'' @ k" by (rule normalize_uri_id) simp
  have ne: "distinct_hash sample_entity \<noteq> []" by (simp add: distinct_hash_def put_nat_def)
  have "map_of (current_bindings sample ''doc/'' sample_state) k = Some h \<longleftrightarrow> k = ''a'' \<and> h = distinct_hash sample_entity" for h
    unfolding current_bindings_def get_snapshot_bindings_def c captured_lookup [OF t] sample_uris(1)
    using u ne by (auto simp: sample_get excluded_def)
  then show "map_of (current_bindings sample ''doc/'' sample_state) k = [''a'' \<mapsto> distinct_hash sample_entity] k"
    by (intro option_ext) auto
qed

lemma two_versions_facts:
  obtains v0 v1 st ve vb pb where "two_versions = (v0, v1, st)" "well sample st" "apart st ''doc/''"
    "typed_head st (env_ph sample st ''doc/'') = Some v1" "v1 \<noteq> []"
    "get_version_entity (es_store st) v1 = Some ve" "ve_parents ve = [v0]"
    "get_version_bindings sample (es_store st) v1 = Inr (Some vb)" "map_of vb = [''a'' \<mapsto> distinct_hash sample_entity]"
    "get_version_bindings sample (es_store st) v0 = Inr (Some pb)" "map_of pb = Map.empty"
    "map_of (current_bindings sample ''doc/'' st) = [''a'' \<mapsto> distinct_hash sample_entity]"
proof -
  let ?h = "distinct_hash sample_entity" and ?ph = "env_ph sample sample_state ''doc/''"
  let ?b = "[(''a'', ?h)]"
  have sp0: "spread (env_route sample) (fst ` set ([] :: (string \<times> bytes) list))"
    and sp1: "spread (env_route sample) (fst ` set ?b)" by (rule spread_few; simp add: BUCKET_SIZE_def)+
  have db: "distinct (map fst ([] :: (string \<times> bytes) list))" "distinct (map fst ?b)" by simp_all
  obtain r0 t0 where b0: "build_version_trie sample [] sample_state = (Inr r0, t0)"
    "snapshot (env_route sample) (env_hash sample) (es_store t0) r0 (map_of [])"
    "moves sample ''system/revision/'' sample_state t0" "es_tree t0 = es_tree sample_state"
    by (rule build_version [OF sample_well sound_sample db(1) sp0])
  have w0: "well sample t0" using b0(3) by (simp add: moves_def)
  obtain v0 t1 where p0: "put_version sample r0 [] t0 = (v0, t1)" by (cases "put_version sample r0 [] t0")
  note f0 = put_version_found [OF w0 sound_sample p0]
  have w1: "well sample t1" using f0(2) by (simp add: moves_def)
  obtain r1 s1 where b1: "build_version_trie sample ?b t1 = (Inr r1, s1)"
    "snapshot (env_route sample) (env_hash sample) (es_store s1) r1 (map_of ?b)"
    "moves sample ''system/revision/'' t1 s1" "es_tree s1 = es_tree t1"
    by (rule build_version [OF w1 sound_sample db(2) sp1])
  have w2: "well sample s1" using b1(3) by (simp add: moves_def)
  obtain v1 s3 where p1: "put_version sample r1 [v0] s1 = (v1, s3)" by (cases "put_version sample r1 [v0] s1")
  note f1 = put_version_found [OF w2 sound_sample p1]
  have w3: "well sample s3" using f1(2) by (simp add: moves_def)
  let ?st = "update_head_and_branch sample ?ph v1 ''commit'' s3"
  note u = update_head_moves [OF w3 sound_sample, of ?ph v1 "''commit''"]
  have two: "two_versions = (v0, v1, ?st)" by (simp add: two_versions_def b0(1) b1(1) p0 p1)
  have m: "moves sample ''system/revision/'' sample_state ?st"
    by (rule moves_trans [OF b0(3) moves_trans [OF f0(2) moves_trans [OF b1(3) moves_trans [OF f1(2) u(1)]]]])
  have w: "well sample ?st" using m by (simp add: moves_def)
  have ph: "env_ph sample ?st ''doc/'' = ?ph" using moves_local [OF m] by (simp add: compute_prefix_hash_def)
  have ap: "apart ?st ''doc/''" using sample_apart moves_local [OF m] by (simp add: apart_def)
  have g3: "cs.grows (es_store s3) (es_store ?st)" using u(1) by (simp add: moves_def)
  have g2: "cs.grows (es_store s1) (es_store ?st)" using f1(2) cs.grows_trans [OF _ g3] by (simp add: moves_def)
  have g1: "cs.grows (es_store t1) (es_store ?st)" using b1(3) cs.grows_trans [OF _ g2] by (simp add: moves_def)
  have g0: "cs.grows (es_store t0) (es_store ?st)" using f0(2) cs.grows_trans [OF _ g1] by (simp add: moves_def)
  have keep: "get_version_entity (es_store s) v = Some x \<Longrightarrow> cs.grows (es_store s) (es_store ?st) \<Longrightarrow>
      get_version_entity (es_store ?st) v = Some x" for s :: rev_state and v x
    by (auto simp: get_version_entity_def cs.grows_def split: option.splits stored.splits rev_entity.splits)
  note e0 = keep [OF f0(1) g1] and e1 = keep [OF f1(1) g3]
  have s0: "snapshot (env_route sample) (env_hash sample) (es_store ?st) r0 (map_of [])"
    using snapshot_grows [OF b0(2) g0] w by (simp add: well_def)
  have s1: "snapshot (env_route sample) (env_hash sample) (es_store ?st) r1 (map_of ?b)"
    using snapshot_grows [OF b1(2) g2] w by (simp add: well_def)
  obtain pb where pb: "get_version_bindings sample (es_store ?st) v0 = Inr (Some pb)" "map_of pb = map_of []"
    by (rule version_bindings [OF sound_sample e0 version.select_convs(1) s0])
  obtain vb where vb: "get_version_bindings sample (es_store ?st) v1 = Inr (Some vb)" "map_of vb = map_of ?b"
    by (rule version_bindings [OF sound_sample e1 version.select_convs(1) s1])
  have "current_bindings sample ''doc/'' ?st = current_bindings sample ''doc/'' sample_state"
    by (rule current_kept [OF sample_well w sample_complete sample_apart m]) (simp add: u(3) f1(3) b1(4) f0(3) b0(4))
  then show ?thesis
    using that [OF two w ap _ f1(4) e1 _ vb(1) _ pb(1)] u(2) sample_bindings
    by (simp add: ph vb(2) pb(2) sorted_parents_def)
qed

subsection \<open>Properties\<close>

text \<open>
  C13. Checking out a version, where nothing listens: below the prefix every path of it is bound to its hash or, if
  that is a marker, not at all; what the version left behind kept alive and this one does not mention is
  unbound; every other path stays. The head is the version, and the active branch is none.
\<close>

theorem checkout_exact:
  assumes "sound_env env" "well env st" "ends_with p ''/''" "p \<noteq> ''entity:/''" "apart st p" "env_permits env ''checkout'' p"
    and "get_version_bindings env (es_store st) v = Inr (Some vb)"
    and "bindings_or_empty env st (case typed_head st (env_ph env st p) of None \<Rightarrow> None | Some h \<Rightarrow> if h = [] then None else Some h)
      = Inr sb"
  shows "\<exists>st'. handle_checkout env p [] (Some v) st = (Inr (Ok (CheckedOut v (Some v) None [])), st')
    \<and> well env st' \<and> typed_head st' (env_ph env st p) = Some v
    \<and> below p (es_tree st') = (\<lambda>k. case map_of vb k of
        Some h \<Rightarrow> if is_deletion_marker env (Some h) then None else Some h
      | None \<Rightarrow> if live env (map_of sb) k \<noteq> None then None else below p (es_tree st) k)"
proof -
  obtain st' where c: "checkout_version env p v None vb sb st = (Inr (Ok (CheckedOut v (Some v) None [])), st')"
    "well env st'" "typed_head st' (env_ph env st p) = Some v"
    "below p (es_tree st') = (\<lambda>k. case map_of vb k of
        Some h \<Rightarrow> if is_deletion_marker env (Some h) then None else Some h
      | None \<Rightarrow> if live env (map_of sb) k \<noteq> None then None else below p (es_tree st) k)"
    by (rule checkout_obtain [OF assms(1-5) version_bindings_distinct [OF assms(7)] bindings_or_empty_distinct [OF assms(8)]])
  have "handle_checkout env p [] (Some v) st = checkout_version env p v None vb sb st"
    by (simp add: handle_checkout_def Let_def assms(6,7,8))
  with c show ?thesis by auto
qed

lemma pick_reaches:
  assumes "sound_env env" "well env st" "env_permits env operation p"
    and "get_version_entity (es_store st) v = Some ve" "ve_parents ve = [q]"
    and "get_version_bindings env (es_store st) v = Inr (Some vb)" "get_version_bindings env (es_store st) q = Inr (Some pb)"
  shows "pick_version env operation p (Inl v) None go st = go v vb pb st"
proof -
  obtain e where "cs_get (es_store st) v = Some e" using assms(4) by (auto simp: get_version_entity_def split: option.splits)
  then have "v \<noteq> []"
    using cs.addressed [of "env_hash env" "es_store st" v] assms(1,2) by (auto simp: well_def sound_env_def)
  then show ?thesis
    by (simp add: pick_version_def Let_def ref_empty_def assms(3-7) resolve_ref_def chosen_parent_def)
qed

text \<open>
  C14. Cherry-picking a version with one parent onto a head, where nothing listens: the paths on which the version
  and its parent keep alive different things get what the version says, in the tree and in the version
  made, whatever the head and the tree say of them: a change made there since is overwritten, and no conflict is
  reported. The other paths stay. The version made follows the head and becomes it.
\<close>

theorem cherry_pick_exact:
  assumes "sound_env env" "well env st" "ends_with p ''/''" "p \<noteq> ''entity:/''" "apart st p" "env_permits env ''cherry-pick'' p"
    and "typed_head st (env_ph env st p) = Some l" "l \<noteq> []"
    and "get_version_entity (es_store st) v = Some ve" "ve_parents ve = [q]"
    and "get_version_bindings env (es_store st) v = Inr (Some vb)" "get_version_bindings env (es_store st) q = Inr (Some pb)"
    and "spread (env_route env) (dom (patch_map (live env (map_of pb)) (live env (map_of vb)) (map_of (current_bindings env p st))))"
  shows "\<exists>new n st' b. handle_cherry_pick env p (Inl v) None st = (Inr (Ok (Picked ''cherry_picked'' v new n [])), st')
    \<and> typed_head st' (env_ph env st p) = Some new \<and> parents_of (es_store st') new = [l]
    \<and> get_version_bindings env (es_store st') new = Inr (Some b)
    \<and> map_of b = patch_map (live env (map_of pb)) (live env (map_of vb)) (map_of (current_bindings env p st))
    \<and> below p (es_tree st') = patch_map (live env (map_of pb)) (live env (map_of vb)) (below p (es_tree st))"
proof -
  obtain new root n st' b where c:
    "commit_diff env p ''cherry-pick'' ''cherry_picked'' v (compute_snapshot_diff env pb vb) st
      = (Inr (Ok (Picked ''cherry_picked'' v new n [])), st')"
    "typed_head st' (env_ph env st p) = Some new"
    "get_version_entity (es_store st') new = Some \<lparr>ve_root = Some root, ve_parents = [l]\<rparr>"
    "get_version_bindings env (es_store st') new = Inr (Some b)"
    "map_of b = patch_map (live env (map_of pb)) (live env (map_of vb)) (map_of (current_bindings env p st))"
    "below p (es_tree st') = patch_map (live env (map_of pb)) (live env (map_of vb)) (below p (es_tree st))"
    by (rule commit_diff_obtain [OF assms(1-5,7,8,13)])
  have "parents_of (es_store st') new = [l]" using assms(8) by (simp add: parents_of_def c(3))
  then show ?thesis
    using c by (simp add: handle_cherry_pick_def pick_reaches [OF assms(1,2,6,9-12)])
qed


lemma doc_prefix: "ends_with ''doc/'' ''/''" "''doc/'' \<noteq> ''entity:/''"
  by (simp_all add: suffix_def)

lemma sample_permits: "env_permits sample op p"
  by (simp add: sample_env_def)

lemma sample_spread: "spread (env_route sample) (dom [''a'' \<mapsto> distinct_hash sample_entity])" "spread (env_route sample) (dom Map.empty)"
  by (rule spread_few; simp add: BUCKET_SIZE_def)+

lemma live_empty: "live sample Map.empty = Map.empty"
  by (simp add: live_def fun_eq_iff)

lemma pick_sample:
  "patch_map (live sample Map.empty) (live sample [''a'' \<mapsto> distinct_hash sample_entity]) [''a'' \<mapsto> distinct_hash sample_entity]
     = [''a'' \<mapsto> distinct_hash sample_entity]"
  by (simp add: patch_map_def sample_live live_empty fun_eq_iff)

theorem checkout_exact_witness:
  "\<exists>v0 v1 st st'. two_versions = (v0, v1, st)
     \<and> handle_checkout sample ''doc/'' [] (Some v0) st = (Inr (Ok (CheckedOut v0 (Some v0) None [])), st')
     \<and> below ''doc/'' (es_tree st') ''a'' = None"
proof -
  obtain v0 v1 st vb pb where t: "two_versions = (v0, v1, st)" "well sample st" "apart st ''doc/''"
    "typed_head st (env_ph sample st ''doc/'') = Some v1" "v1 \<noteq> []"
    "get_version_bindings sample (es_store st) v1 = Inr (Some vb)" "map_of vb = [''a'' \<mapsto> distinct_hash sample_entity]"
    "get_version_bindings sample (es_store st) v0 = Inr (Some pb)" "map_of pb = Map.empty"
    by (rule two_versions_facts)
  have "bindings_or_empty sample st (case typed_head st (env_ph sample st ''doc/'') of None \<Rightarrow> None
      | Some h \<Rightarrow> if h = [] then None else Some h) = Inr vb"
    by (simp add: t(4,5) bindings_or_empty_def t(6))
  from checkout_exact [OF sound_sample t(2) doc_prefix t(3) sample_permits t(8) this]
  obtain st' where c: "handle_checkout sample ''doc/'' [] (Some v0) st = (Inr (Ok (CheckedOut v0 (Some v0) None [])), st')"
    "below ''doc/'' (es_tree st') = (\<lambda>k. case map_of pb k of
        Some h \<Rightarrow> if is_deletion_marker sample (Some h) then None else Some h
      | None \<Rightarrow> if live sample (map_of vb) k \<noteq> None then None else below ''doc/'' (es_tree st) k)" by blast
  have "below ''doc/'' (es_tree st') ''a'' = None" unfolding c(2) t(7,9) sample_live by simp
  with c(1) t(1) show ?thesis by blast
qed

theorem cherry_pick_exact_witness:
  "\<exists>v0 v1 st st' new n. two_versions = (v0, v1, st)
     \<and> get_version_bindings sample (es_store st) v0 = Inr (Some [])
     \<and> handle_cherry_pick sample ''doc/'' (Inl v1) None st = (Inr (Ok (Picked ''cherry_picked'' v1 new n [])), st')
     \<and> parents_of (es_store st') new = [v1]
     \<and> (\<exists>b. get_version_bindings sample (es_store st') new = Inr (Some b) \<and> map_of b = [''a'' \<mapsto> distinct_hash sample_entity])
     \<and> below ''doc/'' (es_tree st') ''a'' = Some (distinct_hash sample_entity)"
proof -
  obtain v0 v1 st ve vb pb where t: "two_versions = (v0, v1, st)" "well sample st" "apart st ''doc/''"
    "typed_head st (env_ph sample st ''doc/'') = Some v1" "v1 \<noteq> []"
    "get_version_entity (es_store st) v1 = Some ve" "ve_parents ve = [v0]"
    "get_version_bindings sample (es_store st) v1 = Inr (Some vb)" "map_of vb = [''a'' \<mapsto> distinct_hash sample_entity]"
    "get_version_bindings sample (es_store st) v0 = Inr (Some pb)" "map_of pb = Map.empty"
    "map_of (current_bindings sample ''doc/'' st) = [''a'' \<mapsto> distinct_hash sample_entity]"
    by (rule two_versions_facts)
  have "spread (env_route sample) (dom (patch_map (live sample (map_of pb)) (live sample (map_of vb))
      (map_of (current_bindings sample ''doc/'' st))))"
    unfolding t(9,11,12) pick_sample by (rule sample_spread)
  from cherry_pick_exact [OF sound_sample t(2) doc_prefix t(3) sample_permits t(4,5,6,7,8,10) this, unfolded t(9,11,12) pick_sample]
  obtain new n st' b where p: "handle_cherry_pick sample ''doc/'' (Inl v1) None st = (Inr (Ok (Picked ''cherry_picked'' v1 new n [])), st')"
    "parents_of (es_store st') new = [v1]" "get_version_bindings sample (es_store st') new = Inr (Some b)"
    "map_of b = [''a'' \<mapsto> distinct_hash sample_entity]"
    "below ''doc/'' (es_tree st') = patch_map (live sample Map.empty) (live sample [''a'' \<mapsto> distinct_hash sample_entity]) (below ''doc/'' (es_tree st))"
    by blast
  have "below ''doc/'' (es_tree st') ''a'' = Some (distinct_hash sample_entity)"
    unfolding p(5) sample_live live_empty by (simp add: patch_map_def)
  moreover have "pb = []" using t(11) by simp
  ultimately show ?thesis using t(1,10) p(1-4) by blast
qed


end
