(* ===== verification/Exchange.thy ===== *)
theory Exchange
  imports Revision_Remote Commits
begin

section \<open>What peers exchange\<close>

text \<open>
  What the operations of \<open>Revision_Remote\<close> serve and obtain: only what a version of the served history reaches; the
  difference of two closures; and when nothing is missing after a pull. A push transfers nothing.
\<close>

subsection \<open>The hashes of a trie\<close>

text \<open>\<open>linked\<close> follows the links between nodes, \<open>in_trie\<close> adds what the buckets of these nodes bind.\<close>

inductive linked :: "rev_store \<Rightarrow> bytes \<Rightarrow> bytes \<Rightarrow> bool" for cs root where
  linked_root: "linked cs root root"
| linked_step: "linked cs root h \<Longrightarrow> cs_get cs h = Some (TrieNode node) \<Longrightarrow> Link h' \<in> set (nd_data node) \<Longrightarrow> linked cs root h'"

definition bound_in :: "rev_store \<Rightarrow> bytes \<Rightarrow> bytes \<Rightarrow> bool" where
  "bound_in cs root v \<longleftrightarrow> (\<exists>h node bucket k. linked cs root h \<and> cs_get cs h = Some (TrieNode node)
     \<and> Bucket bucket \<in> set (nd_data node) \<and> (k, v) \<in> set bucket)"

definition in_trie :: "rev_store \<Rightarrow> bytes \<Rightarrow> bytes \<Rightarrow> bool" where
  "in_trie cs root h \<longleftrightarrow> linked cs root h \<or> bound_in cs root h"

lemma linked_trans: "linked cs h h' \<Longrightarrow> linked cs root h \<Longrightarrow> linked cs root h'"
  by (induction rule: linked.induct) (auto intro: linked.intros)

lemma in_trie_mono: "linked cs root h \<Longrightarrow> in_trie cs h h' \<Longrightarrow> in_trie cs root h'"
  using linked_trans by (fastforce simp: in_trie_def bound_in_def)

lemma enumerated_data: "enumerated node = Inr es \<Longrightarrow> set es \<subseteq> set (nd_data node)"
proof -
  have "map_r (item_at xs) is = Inr es \<Longrightarrow> set es \<subseteq> set xs" for xs :: "trie_entry list" and "is" es
    by (induction "is" arbitrary: es) (auto simp: bind_r_Inr_iff item_at_def split: if_splits)
  then show "enumerated node = Inr es \<Longrightarrow> set es \<subseteq> set (nd_data node)" by (simp add: enumerated_def)
qed

text \<open>What is collected is in the trie.\<close>

lemma hashes_sound:
  "collect_hashes_recursive n cs h found = Inr found' \<Longrightarrow> found' \<subseteq> found \<union> {x. in_trie cs h x}"
proof (induction n arbitrary: h found found')
  case (Suc n)
  have entries: "hashes_of_entries (collect_hashes_recursive n cs) es f = Inr f' \<Longrightarrow>
      set es \<subseteq> set (nd_data node) \<Longrightarrow> cs_get cs h = Some (TrieNode node) \<Longrightarrow> f' \<subseteq> f \<union> {x. in_trie cs h x}" for es f f' node
  proof (induction es arbitrary: f)
    case (Cons item es)
    show ?case
    proof (cases item)
      case (Bucket b)
      have step: "hashes_of_entries (collect_hashes_recursive n cs) es (f \<union> snd ` set b) = Inr f'"
        using Cons.prems(1) by (simp add: Bucket)
      have "f' \<subseteq> (f \<union> snd ` set b) \<union> {x. in_trie cs h x}"
        by (rule Cons.IH [OF step _ Cons.prems(3)]) (use Cons.prems(2) in simp)
      moreover have "snd ` set b \<subseteq> {x. in_trie cs h x}"
        using Cons.prems(2,3) by (force simp: in_trie_def bound_in_def Bucket intro: linked_root)
      ultimately show ?thesis by blast
    next
      case (Link l)
      obtain f1 where f1: "collect_hashes_recursive n cs l f = Inr f1"
        "hashes_of_entries (collect_hashes_recursive n cs) es f1 = Inr f'"
        using Cons.prems(1) by (auto simp: Link bind_r_Inr_iff)
      have "linked cs h l"
        using Cons.prems(2,3) by (auto simp: Link intro: linked_step [OF linked_root])
      then have "f1 \<subseteq> f \<union> {x. in_trie cs h x}"
        using Suc.IH [OF f1(1)] in_trie_mono by blast
      moreover have "f' \<subseteq> f1 \<union> {x. in_trie cs h x}"
        by (rule Cons.IH [OF f1(2) _ Cons.prems(3)]) (use Cons.prems(2) in simp)
      ultimately show ?thesis by blast
    qed
  qed simp
  show ?case
  proof (cases "h \<in> found")
    case True
    then show ?thesis using Suc.prems by simp
  next
    case False
    have h: "in_trie cs h h" by (simp add: in_trie_def linked_root)
    show ?thesis
    proof (cases "\<exists>node. cs_get cs h = Some (TrieNode node)")
      case True
      then obtain node es where "cs_get cs h = Some (TrieNode node)" "enumerated node = Inr es"
        "hashes_of_entries (collect_hashes_recursive n cs) es (insert h found) = Inr found'"
        using Suc.prems False by (auto simp: bind_r_Inr_iff Let_def)
      then show ?thesis using entries [OF _ enumerated_data] h by blast
    next
      case no: False
      then have "found' = insert h found"
        using Suc.prems False by (auto simp: Let_def split: option.splits stored.splits)
      with h show ?thesis by simp
    qed
  qed
qed simp

lemma trie_hashes_sound: "collect_trie_hashes limit root cs = Inr hs \<Longrightarrow> hs \<subseteq> {x. in_trie cs root x}"
  using hashes_sound [of limit cs root "{}" hs] by (simp add: collect_trie_hashes_def)

lemma sort_requested_exact:
  "sort_requested cs valid hs (f, m, inc) = (f', m', inc') \<Longrightarrow>
     set f' = set f \<union> {h \<in> set hs. h \<in> valid \<and> cs_get cs h \<noteq> None}
     \<and> set m' = set m \<union> {h \<in> set hs. h \<notin> valid \<or> cs_get cs h = None}
     \<and> map_of inc' = (\<lambda>h. if h \<in> set hs \<and> h \<in> valid \<and> cs_get cs h \<noteq> None then cs_get cs h else map_of inc h)"
proof (induction hs arbitrary: f m inc)
  case (Cons h hs)
  show ?case
  proof (cases "h \<in> valid \<and> cs_get cs h \<noteq> None")
    case True
    then obtain e where e: "cs_get cs h = Some e" by auto
    then have "sort_requested cs valid hs (f @ [h], m, AList.update h e inc) = (f', m', inc')"
      using Cons.prems True by simp
    from Cons.IH [OF this] e True show ?thesis by (auto simp: update_conv' fun_eq_iff)
  next
    case False
    then have "sort_requested cs valid hs (f, m @ [h], inc) = (f', m', inc')"
      using Cons.prems by (auto split: option.splits if_splits)
    from Cons.IH [OF this] False show ?thesis by (auto simp: fun_eq_iff)
  qed
qed auto

subsection \<open>Nothing missing\<close>

text \<open>
  The search for missing hashes, from a set of nodes seen: what it sees is closed under the links of the nodes
  it enters, and what these bind is there or reported.
\<close>

definition handled :: "rev_store \<Rightarrow> bytes set \<Rightarrow> bytes list \<Rightarrow> bytes \<Rightarrow> bool" where
  "handled cs seen missing h =
     (case cs_get cs h of
        None \<Rightarrow> h \<in> set missing
      | Some (TrieNode node) \<Rightarrow>
          (\<forall>l. Link l \<in> set (nd_data node) \<longrightarrow> l = [] \<or> l \<in> seen)
          \<and> (\<forall>b k v. Bucket b \<in> set (nd_data node) \<longrightarrow> (k, v) \<in> set b \<longrightarrow> cs_has cs v \<or> v \<in> set missing)
      | Some (OtherEntity x) \<Rightarrow> True)"

definition explored :: "rev_store \<Rightarrow> bytes set \<Rightarrow> bytes list \<Rightarrow> bytes set \<Rightarrow> bytes list \<Rightarrow> bool" where
  "explored cs seen missing seen' missing' \<longleftrightarrow> seen \<subseteq> seen' \<and> set missing \<subseteq> set missing'
     \<and> (\<forall>h \<in> seen' - seen. handled cs seen' missing' h)"

lemma handled_mono: "handled cs s m h \<Longrightarrow> s \<subseteq> s' \<Longrightarrow> set m \<subseteq> set m' \<Longrightarrow> handled cs s' m' h"
  by (auto simp: handled_def split: option.splits stored.splits) blast+

lemma explored_trans:
  assumes "explored cs s m s' m'" "explored cs s' m' s'' m''"
  shows "explored cs s m s'' m''"
proof -
  have "handled cs s'' m'' h" if "h \<in> s'' - s" for h
    using that assms handled_mono [of cs s' m' h s'' m''] by (auto simp: explored_def)
  then show ?thesis using assms by (auto simp: explored_def)
qed

lemma visit_explores:
  "visit_missing n cs h (seen, missing) = Inr (seen', missing') \<Longrightarrow>
     explored cs seen missing seen' missing' \<and> (h = [] \<or> h \<in> seen')"
proof (induction n arbitrary: h seen missing seen' missing')
  case (Suc n)
  have entries: "missing_of_entries (visit_missing n cs) cs es (s, m) = Inr (s', m') \<Longrightarrow>
      explored cs s m s' m' \<and> (\<forall>l. Link l \<in> set es \<longrightarrow> l = [] \<or> l \<in> s')
      \<and> (\<forall>b k v. Bucket b \<in> set es \<longrightarrow> (k, v) \<in> set b \<longrightarrow> cs_has cs v \<or> v \<in> set m')" for es s m s' m'
  proof (induction es arbitrary: s m)
    case Nil
    then show ?case by (simp add: explored_def)
  next
    case (Cons item es)
    show ?case
    proof (cases item)
      case (Bucket b)
      let ?m = "m @ filter (\<lambda>h. \<not> cs_has cs h) (map snd b)"
      have step: "missing_of_entries (visit_missing n cs) cs es (s, ?m) = Inr (s', m')"
        using Cons.prems by (simp add: Bucket)
      have "explored cs s m s ?m" by (simp add: explored_def)
      moreover have "\<forall>k v. (k, v) \<in> set b \<longrightarrow> cs_has cs v \<or> v \<in> set ?m" by force
      ultimately show ?thesis
        using Cons.IH [OF step] explored_trans [of cs s m s ?m s' m'] by (auto simp: Bucket explored_def)
    next
      case (Link l)
      obtain s1 m1 where 1: "visit_missing n cs l (s, m) = Inr (s1, m1)"
        "missing_of_entries (visit_missing n cs) cs es (s1, m1) = Inr (s', m')"
        using Cons.prems by (auto simp: Link bind_r_Inr_iff)
      note v = Suc.IH [OF 1(1)] and e = Cons.IH [OF 1(2)]
      have "explored cs s m s' m'" using explored_trans v e by blast
      moreover have "s1 \<subseteq> s'" using e by (simp add: explored_def)
      ultimately show ?thesis using v e by (auto simp: Link)
    qed
  qed
  show ?case
  proof (cases "h = [] \<or> h \<in> seen")
    case True
    then show ?thesis using Suc.prems by (auto simp: explored_def)
  next
    case False
    show ?thesis
    proof (cases "\<exists>node. cs_get cs h = Some (TrieNode node)")
      case True
      then obtain node where node: "cs_get cs h = Some (TrieNode node)" by blast
      have e: "missing_of_entries (visit_missing n cs) cs (nd_data node) (insert h seen, missing) = Inr (seen', missing')"
        using Suc.prems False by (simp add: node)
      note es = entries [OF e]
      have "handled cs seen' missing' h" using es by (simp add: handled_def node)
      then have "handled cs seen' missing' x" if "x \<in> seen' - seen" for x
        using es that by (cases "x = h") (auto simp: explored_def)
      moreover have "seen \<subseteq> seen'" "h \<in> seen'" "set missing \<subseteq> set missing'" using es by (auto simp: explored_def)
      ultimately show ?thesis by (simp add: explored_def)
    next
      case no: False
      then have "seen' = insert h seen \<and> (missing' = missing @ [h] \<and> cs_get cs h = None
          \<or> missing' = missing \<and> (\<exists>x. cs_get cs h = Some (OtherEntity x)))"
        using Suc.prems False by (auto split: option.splits stored.splits)
      then show ?thesis by (auto simp: explored_def handled_def)
    qed
  qed
qed simp

lemma nothing_missing:
  assumes "collect_missing_pull_hashes limit cs (Some root) = Inr []" "root \<noteq> []" "cs_get cs [] = None"
  shows "linked cs root h \<Longrightarrow> h = [] \<or> cs_has cs h" "bound_in cs root v \<Longrightarrow> cs_has cs v"
proof -
  obtain seen where v: "visit_missing limit cs root ({}, []) = Inr (seen, [])"
    using assms(1,2) by (cases "visit_missing limit cs root ({}, [])") (auto simp: collect_missing_pull_hashes_def)
  have all: "handled cs seen [] h" if "h \<in> seen" for h
    using visit_explores [OF v] that by (simp add: explored_def)
  have lk: "h = [] \<or> h \<in> seen" if "linked cs root h" for h
    using that
  proof induction
    case (linked_step h node h')
    then have "h \<noteq> []" using assms(3) by auto
    then show ?case using all [of h] linked_step by (simp add: handled_def)
  qed (use visit_explores [OF v] in simp)
  show "linked cs root h \<Longrightarrow> h = [] \<or> cs_has cs h"
    using lk [of h] all [of h] by (auto simp: handled_def cs_has_iff split: option.splits)
  show "bound_in cs root v \<Longrightarrow> cs_has cs v"
  proof -
    assume "bound_in cs root v"
    then obtain h node b k where h: "linked cs root h" "cs_get cs h = Some (TrieNode node)" "Bucket b \<in> set (nd_data node)"
      "(k, v) \<in> set b" by (auto simp: bound_in_def)
    then have "h \<in> seen" using lk [OF h(1)] assms(3) by auto
    then show "cs_has cs v" using all [of h] h by (auto simp: handled_def)
  qed
qed

subsection \<open>The difference of two closures\<close>

text \<open>
  The search of a difference treats a hash that a bucket binds as found, so it does not enter a node that is bound
  as well as linked. Without such nodes, what it collects is closed. Nodes hold as many entries as their
  bitmap says.
\<close>

definition plain_trie :: "rev_store \<Rightarrow> bytes \<Rightarrow> bool" where
  "plain_trie cs root \<longleftrightarrow>
     (\<forall>h node. linked cs root h \<longrightarrow> cs_get cs h = Some (TrieNode node) \<longrightarrow>
        \<not> bound_in cs root h \<and> length (nd_data node) = length (set_bits (nd_map node)))"

lemma enumerated_all: "length (nd_data node) = length (set_bits (nd_map node)) \<Longrightarrow> enumerated node = Inr (nd_data node)"
proof -
  assume l: "length (nd_data node) = length (set_bits (nd_map node))"
  have "map_r (item_at (nd_data node)) [0..<length (nd_data node)] = Inr (map ((!) (nd_data node)) [0..<length (nd_data node)])"
    by (rule map_r_Inr) (simp add: item_at_def)
  then show "enumerated node = Inr (nd_data node)" by (simp add: enumerated_def l [symmetric] map_nth)
qed

text \<open>What a search leaves to be collected: of a node it has entered, every entry is there, skipped or absent.\<close>

definition succs :: "trie_node \<Rightarrow> bytes set" where
  "succs node = {l. Link l \<in> set (nd_data node)} \<union> {v. \<exists>b k. Bucket b \<in> set (nd_data node) \<and> (k, v) \<in> set b}"

definition entered :: "rev_store \<Rightarrow> bytes set \<Rightarrow> bytes set \<Rightarrow> bytes \<Rightarrow> bool" where
  "entered cs skip keys h \<longleftrightarrow>
     (\<forall>node. cs_get cs h = Some (TrieNode node) \<longrightarrow> (\<forall>x \<in> succs node. x \<in> keys \<union> skip \<or> cs_get cs x = None))"

definition swept :: "rev_store \<Rightarrow> bytes \<Rightarrow> bytes set \<Rightarrow> bytes set \<Rightarrow> bytes set \<Rightarrow> bool" where
  "swept cs root skip keys keys' \<longleftrightarrow> keys \<subseteq> keys'
     \<and> (\<forall>h \<in> keys' - keys. bound_in cs root h \<or> entered cs skip keys' h)"

lemma entered_mono:
  assumes "entered cs skip keys h" "keys \<subseteq> keys'"
  shows "entered cs skip keys' h"
  unfolding entered_def
proof (intro allI impI ballI)
  fix node x assume "cs_get cs h = Some (TrieNode node)" "x \<in> succs node"
  then have "x \<in> keys \<union> skip \<or> cs_get cs x = None" using assms(1) by (simp add: entered_def)
  with assms(2) show "x \<in> keys' \<union> skip \<or> cs_get cs x = None" by auto
qed

lemma swept_trans:
  assumes "swept cs root skip k k'" "swept cs root skip k' k''"
  shows "swept cs root skip k k''"
proof -
  have "bound_in cs root h \<or> entered cs skip k'' h" if "h \<in> k'' - k" for h
    using that assms entered_mono [of cs skip k' h k''] by (cases "h \<in> k'") (auto simp: swept_def)
  then show ?thesis using assms by (auto simp: swept_def)
qed

abbreviation keys_of :: "(bytes, rev_entity stored) dict \<Rightarrow> bytes set" where
  "keys_of d \<equiv> fst ` set d"

lemma collect_bucket_exact:
  "collect_bucket skip cs b d = d' \<Longrightarrow> \<forall>(k, v) \<in> set b. bound_in cs root v \<Longrightarrow>
     swept cs root skip (keys_of d) (keys_of d')
     \<and> (\<forall>(k, v) \<in> set b. v \<in> keys_of d' \<union> skip \<or> cs_get cs v = None)"
proof (induction b arbitrary: d)
  case Nil
  then show ?case by (simp add: swept_def)
next
  case (Cons kv b)
  obtain k v where kv: "kv = (k, v)" by (cases kv)
  obtain d1 where step: "collect_bucket skip cs b d1 = d'"
    and d1: "keys_of d \<subseteq> keys_of d1" "keys_of d1 \<subseteq> insert v (keys_of d)" "v \<in> keys_of d1 \<union> skip \<or> cs_get cs v = None"
  proof (cases "v \<in> skip \<or> map_of d v \<noteq> None")
    case True
    then have "v \<in> keys_of d \<union> skip" by (auto simp: map_of_eq_None_iff)
    moreover have "collect_bucket skip cs b d = d'" using Cons.prems(1) True by (simp only: kv collect_bucket.simps if_True)
    ultimately show ?thesis by (intro that [of d]) auto
  next
    case False
    then have f: "collect_bucket skip cs ((k, v) # b) d = (case cs_get cs v of
        Some e \<Rightarrow> collect_bucket skip cs b (AList.update v e d) | None \<Rightarrow> collect_bucket skip cs b d)"
      by (simp only: collect_bucket.simps if_False)
    show ?thesis
    proof (cases "cs_get cs v")
      case None
      then show ?thesis using Cons.prems(1) f by (intro that [of d]) (auto simp: kv)
    next
      case (Some e)
      have "keys_of (AList.update v e d) = insert v (keys_of d)"
        using dom_update [of v e d] by (simp add: dom_map_of_conv_image_fst)
      then show ?thesis using Cons.prems(1) f Some by (intro that [of "AList.update v e d"]) (auto simp: kv)
    qed
  qed
  have "swept cs root skip (keys_of d) (keys_of d1)"
    using d1 Cons.prems(2) by (auto simp: swept_def kv)
  then have "swept cs root skip (keys_of d) (keys_of d')" if "swept cs root skip (keys_of d1) (keys_of d')"
    using that by (rule swept_trans)
  moreover have ih: "swept cs root skip (keys_of d1) (keys_of d')"
    "\<forall>(k, v) \<in> set b. v \<in> keys_of d' \<union> skip \<or> cs_get cs v = None"
    using Cons.IH [OF step] Cons.prems(2) by (simp_all add: kv)
  moreover have "v \<in> keys_of d' \<union> skip \<or> cs_get cs v = None"
    using d1(3) ih(1) by (auto simp: swept_def)
  ultimately show ?case using ih(2) by (simp add: kv)
qed

lemma except_sweeps:
  assumes "plain_trie cs root"
  shows "collect_trie_entities_except n skip cs h d = Inr d' \<Longrightarrow> linked cs root h \<Longrightarrow>
    swept cs root skip (keys_of d) (keys_of d') \<and> (h \<in> keys_of d' \<union> skip \<or> cs_get cs h = None)"
proof (induction n arbitrary: h d d')
  case (Suc n)
  have entries: "entities_of_entries (collect_trie_entities_except n skip cs) skip cs es d = Inr d' \<Longrightarrow>
      (\<And>l. Link l \<in> set es \<Longrightarrow> linked cs root l) \<Longrightarrow> (\<And>b k v. Bucket b \<in> set es \<Longrightarrow> (k, v) \<in> set b \<Longrightarrow> bound_in cs root v) \<Longrightarrow>
      swept cs root skip (keys_of d) (keys_of d')
      \<and> (\<forall>l. Link l \<in> set es \<longrightarrow> l \<in> keys_of d' \<union> skip \<or> cs_get cs l = None)
      \<and> (\<forall>b k v. Bucket b \<in> set es \<longrightarrow> (k, v) \<in> set b \<longrightarrow> v \<in> keys_of d' \<union> skip \<or> cs_get cs v = None)" for es d d'
  proof (induction es arbitrary: d)
    case Nil
    then show ?case by (simp add: swept_def)
  next
    case (Cons item es)
    obtain d1 where item: "(case item of Link h \<Rightarrow> collect_trie_entities_except n skip cs h d
          | Bucket bucket \<Rightarrow> Inr (collect_bucket skip cs bucket d)) = Inr d1"
      and rest: "entities_of_entries (collect_trie_entities_except n skip cs) skip cs es d1 = Inr d'"
      using Cons.prems(1) by (auto simp: bind_r_Inr_iff)
    have ih: "swept cs root skip (keys_of d1) (keys_of d')"
      "\<And>l. Link l \<in> set es \<Longrightarrow> l \<in> keys_of d' \<union> skip \<or> cs_get cs l = None"
      "\<And>b k v. Bucket b \<in> set es \<Longrightarrow> (k, v) \<in> set b \<Longrightarrow> v \<in> keys_of d' \<union> skip \<or> cs_get cs v = None"
      using Cons.IH [OF rest] Cons.prems(2,3) by (meson list.set_intros(2))+
    have sub: "keys_of d1 \<subseteq> keys_of d'" using ih(1) by (simp add: swept_def)
    show ?case
    proof (cases item)
      case (Link l)
      have "swept cs root skip (keys_of d) (keys_of d1)" "l \<in> keys_of d1 \<union> skip \<or> cs_get cs l = None"
        using Suc.IH [of l d d1] item Cons.prems(2) [of l] by (simp_all add: Link)
      then have sw: "swept cs root skip (keys_of d) (keys_of d')" and l: "l \<in> keys_of d' \<union> skip \<or> cs_get cs l = None"
        using swept_trans [OF _ ih(1)] sub by (blast, auto)
      have "x \<in> keys_of d' \<union> skip \<or> cs_get cs x = None" if "Link x \<in> set (item # es)" for x
        using that l ih(2) [of x] by (cases "x = l") (simp_all add: Link)
      moreover have "v \<in> keys_of d' \<union> skip \<or> cs_get cs v = None" if "Bucket b \<in> set (item # es)" "(k, v) \<in> set b" for b k v
        using that ih(3) by (simp add: Link)
      ultimately show ?thesis using sw by blast
    next
      case (Bucket b)
      have bnd: "\<forall>(k, v) \<in> set b. bound_in cs root v" using Cons.prems(3) [of b] by (auto simp: Bucket)
      have "collect_bucket skip cs b d = d1" using item by (simp add: Bucket)
      note c = collect_bucket_exact [OF this bnd]
      have here: "v \<in> keys_of d' \<union> skip \<or> cs_get cs v = None" if "(k, v) \<in> set b" for k v
      proof -
        from c that have "v \<in> keys_of d1 \<union> skip \<or> cs_get cs v = None" by (auto simp del: Un_iff)
        with sub show ?thesis by auto
      qed
      have sw: "swept cs root skip (keys_of d) (keys_of d')" by (rule swept_trans [OF _ ih(1)]) (use c in blast)
      have links: "\<forall>l. Link l \<in> set (item # es) \<longrightarrow> l \<in> keys_of d' \<union> skip \<or> cs_get cs l = None"
        using ih(2) by (simp add: Bucket)
      have "v \<in> keys_of d' \<union> skip \<or> cs_get cs v = None" if "Bucket b' \<in> set (item # es)" "(k, v) \<in> set b'" for b' k v
        using that here [of k v] ih(3) [of b' k v] by (cases "b' = b") (simp_all add: Bucket)
      with sw links show ?thesis by blast
    qed
  qed
  show ?case
  proof (cases "h \<in> skip \<or> map_of d h \<noteq> None")
    case True
    then have "h \<in> keys_of d \<union> skip" by (auto simp: map_of_eq_None_iff)
    moreover have "d' = d" using Suc.prems(1) True by (simp only: collect_trie_entities_except.simps if_True sum.inject)
    ultimately show ?thesis by (auto simp: swept_def)
  next
    case fresh: False
    note run = Suc.prems(1) [unfolded collect_trie_entities_except.simps(2) if_not_P [OF fresh]]
    show ?thesis
    proof (cases "cs_get cs h")
      case None
      then show ?thesis using run by (simp add: swept_def)
    next
      case (Some e)
      let ?d = "AList.update h e d"
      have keys: "keys_of ?d = insert h (keys_of d)"
        using dom_update [of h e d] by (simp add: dom_map_of_conv_image_fst)
      show ?thesis
      proof (cases e)
        case (OtherEntity x)
        then have "d' = ?d" using run Some by simp
        then have k: "keys_of d' = insert h (keys_of d)" using keys by simp
        have "entered cs skip (keys_of d') h" by (simp add: entered_def Some OtherEntity)
        then have "swept cs root skip (keys_of d) (keys_of d')" by (auto simp: swept_def k)
        then show ?thesis by (simp add: k)
      next
        case (TrieNode node)
        have node: "cs_get cs h = Some (TrieNode node)" by (simp add: Some TrieNode)
        have "length (nd_data node) = length (set_bits (nd_map node))"
          using assms Suc.prems(2) node by (auto simp: plain_trie_def)
        then have es: "entities_of_entries (collect_trie_entities_except n skip cs) skip cs (nd_data node) ?d = Inr d'"
          using run Some TrieNode by (simp add: enumerated_all Let_def)
        have lk: "linked cs root l" if "Link l \<in> set (nd_data node)" for l
          by (rule linked_step [OF Suc.prems(2) node that])
        have bd: "bound_in cs root v" if "Bucket b \<in> set (nd_data node)" "(k, v) \<in> set b" for b k v
          using Suc.prems(2) node that by (auto simp: bound_in_def)
        have all: "swept cs root skip (keys_of ?d) (keys_of d')
            \<and> (\<forall>l. Link l \<in> set (nd_data node) \<longrightarrow> l \<in> keys_of d' \<union> skip \<or> cs_get cs l = None)
            \<and> (\<forall>b k v. Bucket b \<in> set (nd_data node) \<longrightarrow> (k, v) \<in> set b \<longrightarrow> v \<in> keys_of d' \<union> skip \<or> cs_get cs v = None)"
          by (rule entries [OF es]) (rule lk, assumption, rule bd, assumption+)
        then have E: "swept cs root skip (keys_of ?d) (keys_of d')"
          and links: "\<forall>l. Link l \<in> set (nd_data node) \<longrightarrow> l \<in> keys_of d' \<union> skip \<or> cs_get cs l = None"
          and vals: "\<forall>b k v. Bucket b \<in> set (nd_data node) \<longrightarrow> (k, v) \<in> set b \<longrightarrow> v \<in> keys_of d' \<union> skip \<or> cs_get cs v = None"
          by simp_all
        have "x \<in> keys_of d' \<union> skip \<or> cs_get cs x = None" if "x \<in> succs node" for x
        proof -
          from that consider "Link x \<in> set (nd_data node)" | b k where "Bucket b \<in> set (nd_data node)" "(k, x) \<in> set b"
            by (auto simp: succs_def)
          then show ?thesis by cases (rule links [rule_format], assumption, rule vals [rule_format])
        qed
        then have here: "entered cs skip (keys_of d') h" by (simp add: entered_def node)
        have sub: "insert h (keys_of d) \<subseteq> keys_of d'" using E by (simp add: swept_def keys)
        have "entered cs skip (keys_of d') x \<or> bound_in cs root x" if "x \<in> keys_of d'" "x \<notin> keys_of d" for x
          using that here E by (cases "x = h") (auto simp: swept_def keys)
        then have "swept cs root skip (keys_of d) (keys_of d')" using sub by (auto simp: swept_def)
        then show ?thesis using sub by simp
      qed
    qed
  qed
qed simp

lemma walk_all: "start \<noteq> [] \<Longrightarrow> set (walk_history cs start None) = ancestry cs start"
  using walk_from_exact [of cs start "{}" "[start]" "[]"]
  by (simp add: walk_history_def parents_first_seen_def)

lemma hashes_collected:
  "collect_trie_hashes limit root cs = Inr hs \<Longrightarrow> x \<in> hs \<Longrightarrow> in_trie cs root x"
  using trie_hashes_sound by blast

lemma swept_linked:
  assumes "plain_trie cs root" "swept cs root skip {} keys" "root \<in> keys \<union> skip \<or> cs_get cs root = None"
    and skip: "\<And>h node x. h \<in> skip \<Longrightarrow> linked cs root h \<Longrightarrow> cs_get cs h = Some (TrieNode node) \<Longrightarrow> x \<in> succs node
      \<Longrightarrow> x \<in> skip \<or> cs_get cs x = None"
  shows "in_trie cs root h \<Longrightarrow> h \<in> keys \<union> skip \<or> cs_get cs h = None"
proof -
  have step: "x \<in> keys \<union> skip \<or> cs_get cs x = None"
    if "linked cs root h" "h \<in> keys \<union> skip \<or> cs_get cs h = None" "cs_get cs h = Some (TrieNode node)" "x \<in> succs node" for h node x
  proof (cases "h \<in> skip")
    case True
    then show ?thesis using skip [OF True that(1,3,4)] by auto
  next
    case False
    then have "h \<in> keys" using that(2,3) by simp
    moreover have "\<not> bound_in cs root h" using assms(1) that(1,3) by (auto simp: plain_trie_def)
    ultimately have "entered cs skip keys h" using assms(2) by (auto simp: swept_def)
    then show ?thesis using that(3,4) by (auto simp: entered_def)
  qed
  have lk: "h \<in> keys \<union> skip \<or> cs_get cs h = None" if "linked cs root h" for h
    using that
  proof induction
    case (linked_step h node h')
    show ?case by (rule step [OF linked_step(1,4,2)]) (use linked_step(3) in \<open>simp add: succs_def\<close>)
  qed (rule assms(3))
  have bd: "h \<in> keys \<union> skip \<or> cs_get cs h = None" if "bound_in cs root h" for h
  proof -
    from that obtain g node b k where g: "linked cs root g" "cs_get cs g = Some (TrieNode node)"
      "Bucket b \<in> set (nd_data node)" "(k, h) \<in> set b" by (auto simp: bound_in_def)
    show ?thesis by (rule step [OF g(1) lk [OF g(1)] g(2)]) (use g(3,4) in \<open>auto simp: succs_def\<close>)
  qed
  assume "in_trie cs root h"
  then have "linked cs root h \<or> bound_in cs root h" by (simp add: in_trie_def)
  then show "h \<in> keys \<union> skip \<or> cs_get cs h = None" by (rule disjE) (rule lk, assumption, rule bd, assumption)
qed

subsection \<open>Push\<close>

lemma refused_pushes:
  assumes "\<And>v. \<exists>status code. remote peer (ReceiveVersion v) r = (Inr (Err status code), r)"
  shows "push_each remote peer cs vhs n r = (Inr n, r)"
proof (induction vhs)
  case (Cons vh vhs)
  show ?case
  proof (cases "get_version_entity cs vh")
    case None
    then show ?thesis using Cons.IH by simp
  next
    case (Some v)
    obtain status code where "remote peer (ReceiveVersion v) r = (Inr (Err status code), r)" using assms by blast
    with Some Cons.IH show ?thesis by simp
  qed
qed simp

text \<open>Another peer that runs the handler on a state of its own, with nobody further behind it.\<close>

definition serving :: "(string \<Rightarrow> rev_env) \<Rightarrow> (string \<Rightarrow> rev_state) remote" where
  "serving envs peer req states =
     (case revision_handler (envs peer) False (\<lambda>_ _ u. (Inr (Err 502 []), u)) req (states peer) () of
        ((answer, st), _) \<Rightarrow> (answer, states(peer := st)))"

lemma status_reads: "snd (handle_status env p st) = st"
  by (auto simp: handle_status_def Let_def err_def and_then_def split: sum.splits)

lemma serving_status: "\<exists>answer. serving envs peer (Status q) r = (answer, r)"
proof -
  obtain answer st where s: "handle_status (envs peer) q (r peer) = (answer, st)"
    by (cases "handle_status (envs peer) q (r peer)")
  then have "st = r peer" using status_reads [of "envs peer" q "r peer"] by simp
  with s show ?thesis by (simp add: serving_def revision_handler_def)
qed

lemma serving_refuses: "\<exists>status code. serving envs peer (ReceiveVersion v) r = (Inr (Err status code), r)"
  by (simp add: serving_def revision_handler_def err_def)

lemma serving_pushes: "push_each (serving envs) peer cs vhs n r = (Inr n, r)"
  by (rule refused_pushes) (rule serving_refuses)

subsection \<open>A state that serves one version\<close>

definition served_state :: rev_state where
  "served_state = empty_state\<lparr>
     es_store := [([9], OtherEntity (HashRef (Some [7]))), ([7], OtherEntity (VersionEntry \<lparr>ve_root = Some [1], ve_parents = []\<rparr>)),
       ([1], TrieNode (Node 0 []))],
     es_tree := et_set (head_path (hex [5])) [9] (new_tree ''P'')\<rparr>"

lemma sample_fields [simp]:
  "env_path_hash (sample_env hsh) = (\<lambda>_. [5])" "env_limit (sample_env hsh) = 100" "env_permits (sample_env hsh) op p"
  by (simp_all add: sample_env_def)

lemma served_head:
  "get_entity_at_path (es_tree served_state) (es_store served_state) (head_path (compute_prefix_hash (\<lambda>_. [5]) (es_tree served_state) p))
   = Some (OtherEntity (HashRef (Some [7])))"
proof -
  have "et_get (es_tree served_state) (head_path (hex [5])) = Some [9]" by (simp add: served_state_def et_get_set)
  then have "get_hash_at_path (es_tree served_state) (head_path (compute_prefix_hash (\<lambda>_. [5]) (es_tree served_state) p)) = Some [9]"
    by (simp only: get_hash_at_path_def et_get_uri compute_prefix_hash_def)
  then show ?thesis by (simp add: get_entity_at_path_def) (simp add: served_state_def cs_get_def)
qed

lemma served_version: "get_version_entity (es_store served_state) [7] = Some \<lparr>ve_root = Some [1], ve_parents = []\<rparr>"
  by (simp add: served_state_def get_version_entity_def cs_get_def)

lemma served_node: "cs_get (es_store served_state) [1] = Some (TrieNode (Node 0 []))" "cs_get (es_store served_state) [2] = None"
  by (simp_all add: served_state_def cs_get_def)

lemma served_hashes: "collect_trie_hashes 100 [1] (es_store served_state) = Inr {[1]}"
  by (simp add: collect_trie_hashes_def numeral_eq_Suc served_node enumerated_def set_bits_def)

lemma served_plain: "plain_trie (es_store served_state) [1]"
proof -
  have "linked (es_store served_state) [1] h \<Longrightarrow> h = [1]" for h
    by (induction rule: linked.induct) (auto simp: served_node)
  note one = this
  show ?thesis by (auto dest!: one simp: plain_trie_def bound_in_def served_node set_bits_def numeral_eq_Suc)
qed

lemma zero_unrelated: "check_relationship (es_store served_state) (Some [7]) (Some (replicate 33 0)) \<notin> {IN_SYNC, BEHIND}"
proof -
  have "get_version_entity (es_store served_state) (replicate 33 0) = None"
    by (simp add: served_state_def get_version_entity_def cs_get_def numeral_eq_Suc)
  then have "ancestry (es_store served_state) (replicate 33 0) = {replicate 33 0}"
    unfolding ancestry_def parent_rel_def parents_of_def by (auto elim: converse_rtranclE)
  then have "\<not> is_ancestor (es_store served_state) [7] (replicate 33 0)" 
    by (simp add: is_ancestor_iff numeral_eq_Suc)
  then show ?thesis by (simp add: check_relationship_def numeral_eq_Suc)
qed

subsection \<open>Properties\<close>

text \<open>
  C16. What fetch-entities gives away: it answers only a caller permitted to fetch below the prefix, for a root
  that is the snapshot of a version in the history of the head; every entity it sends is one asked for, is
  in the trie of that root, and is the entity of the store under its hash. Every hash asked for is found or
  reported missing, and the state does not change.
\<close>

theorem fetch_entities_confined:
  assumes "handle_fetch_entities env p (Some root) requested st = (Inr (Ok (FetchedEntities found missing included)), st')"
  shows "st' = st \<and> env_permits env ''fetch-entities'' p
    \<and> (\<exists>head vh v. get_entity_at_path (es_tree st) (es_store st) (head_path (env_ph env st p)) = Some head
         \<and> hash_field head = Inr (Some vh) \<and> v \<in> ancestry (es_store st) vh
         \<and> (\<exists>ve. get_version_entity (es_store st) v = Some ve \<and> ve_root ve = Some root))
    \<and> (\<forall>h e. map_of included h = Some e \<longrightarrow> h \<in> set requested \<and> in_trie (es_store st) root h \<and> cs_get (es_store st) h = Some e)
    \<and> set found = fst ` set included \<and> set requested = set found \<union> set missing"
proof -
  let ?cs = "es_store st"
  have perm: "env_permits env ''fetch-entities'' p" and args: "root \<noteq> []" "requested \<noteq> []"
    using assms by (auto simp: handle_fetch_entities_def Let_def err_def split: if_splits)
  obtain head where head: "get_entity_at_path (es_tree st) ?cs (head_path (env_ph env st p)) = Some head"
    using assms perm args by (cases "get_entity_at_path (es_tree st) ?cs (head_path (env_ph env st p))")
      (simp_all add: handle_fetch_entities_def Let_def err_def)
  obtain hh where hh: "hash_field head = Inr hh"
    using assms perm args head by (cases "hash_field head") (simp_all add: handle_fetch_entities_def Let_def)
  have valid: "snapshot_valid ?cs root hh"
    using assms perm args head hh by (auto simp: handle_fetch_entities_def Let_def err_def split: if_splits)
  obtain hs where hs: "collect_trie_hashes (env_limit env) root ?cs = Inr hs"
    using assms perm args head hh valid by (cases "collect_trie_hashes (env_limit env) root ?cs")
      (simp_all add: handle_fetch_entities_def Let_def)
  have sort: "sort_requested ?cs hs requested ([], [], []) = (found, missing, included)" and st: "st' = st"
    using assms perm args head hh valid hs by (auto simp: handle_fetch_entities_def Let_def split: prod.splits)
  note S = sort_requested_exact [OF sort]
  obtain vh v ve where v: "hh = Some vh" "v \<in> ancestry ?cs vh" "get_version_entity ?cs v = Some ve" "ve_root ve = Some root"
  proof -
    obtain v ve where *: "v \<in> set (walk_history ?cs (case hh of None \<Rightarrow> [] | Some h \<Rightarrow> h) None)"
      "get_version_entity ?cs v = Some ve" "ve_root ve = Some root" using valid by (auto simp: snapshot_valid_def)
    then have ne: "(case hh of None \<Rightarrow> [] | Some h \<Rightarrow> h) \<noteq> []" by (auto simp: walk_history_def)
    then obtain vh where vh: "hh = Some vh" "vh \<noteq> []" by (cases hh) auto
    have "v \<in> ancestry ?cs vh" using *(1) walk_all [OF vh(2)] by (simp add: vh(1))
    with that vh * show ?thesis by blast
  qed
  have inc: "map_of included h = (if h \<in> set requested \<and> h \<in> hs \<and> cs_get ?cs h \<noteq> None then cs_get ?cs h else None)" for h
    using S by simp
  have "set found = fst ` set included"
    unfolding dom_map_of_conv_image_fst [symmetric] using S by (auto simp: dom_def inc)
  moreover have "set requested = set found \<union> set missing" using S by auto
  moreover have "h \<in> set requested \<and> in_trie ?cs root h \<and> cs_get ?cs h = Some e" if "map_of included h = Some e" for h e
    using that hashes_collected [OF hs] by (auto simp: inc split: if_splits)
  ultimately show ?thesis using st perm head hh v by blast
qed

theorem fetch_entities_confined_witness:
  "\<exists>st'. handle_fetch_entities (sample_env distinct_hash) ''doc/'' (Some [1]) [[1], [2]] served_state
     = (Inr (Ok (FetchedEntities [[1]] [[2]] [([1], TrieNode (Node 0 []))])), st') \<and> st' = served_state"
proof -
  have "snapshot_valid (es_store served_state) [1] (Some [7])"
    by (auto simp: snapshot_valid_def walk_all served_version intro!: bexI [of _ "[7]"])
  then obtain st' where r: "handle_fetch_entities (sample_env distinct_hash) ''doc/'' (Some [1]) [[1], [2]] served_state
     = (Inr (Ok (FetchedEntities [[1]] [[2]] [([1], TrieNode (Node 0 []))])), st')"
    by (simp add: handle_fetch_entities_def Let_def served_head hash_field_def data_get_def and_then_def served_hashes served_node)
  with fetch_entities_confined [OF r] show ?thesis by blast
qed

text \<open>
  C18. A pull that finds nothing missing has everything: every node that links reach from the root is in the
  store, and so is every entity that one of these nodes binds.
\<close>

theorem pulled_closure_complete:
  assumes "collect_missing_pull_hashes limit cs (Some root) = Inr []" "root \<noteq> []" "cs_get cs [] = None"
  shows "\<forall>h. in_trie cs root h \<longrightarrow> h = [] \<or> cs_has cs h"
  using nothing_missing [OF assms] by (auto simp: in_trie_def)

theorem pulled_closure_complete_witness:
  "collect_missing_pull_hashes 1 (es_store served_state) (Some [1]) = Inr [] \<and> cs_has (es_store served_state) [1]"
proof -
  have m: "collect_missing_pull_hashes 1 (es_store served_state) (Some [1]) = Inr []"
    by (simp add: collect_missing_pull_hashes_def served_node)
  have "cs_get (es_store served_state) [] = None" by (simp add: served_state_def cs_get_def)
  from pulled_closure_complete [OF m _ this, THEN spec, of "[1]"] m show ?thesis by (simp add: in_trie_def linked_root)
qed

text \<open>
  C17. A first fetch is complete, and of the head: an answer without a base names the root of the version that the
  head of the prefix points to, to a permitted caller and without changing the state, and it carries every entity
  that the trie of this root links to or binds and that the store holds. Stated for tries of which no node is also
  bound as a value and every node has as many children as bits in its map (\<open>plain_trie\<close>).
\<close>

theorem first_fetch_complete:
  assumes "handle_fetch_diff env (Some p) base st = (Inr (Ok (SnapshotResult (Some root) included)), st')"
    "is_zero_hash base" "plain_trie (es_store st) root"
  shows "st' = st \<and> env_permits env ''fetch-diff'' p
    \<and> (\<exists>head ve. get_entity_at_path (es_tree st) (es_store st) (head_path (env_ph env st p)) = Some (OtherEntity (HashRef (Some head)))
         \<and> get_version_entity (es_store st) head = Some ve \<and> ve_root ve = Some root)
    \<and> {h. in_trie (es_store st) root h \<and> cs_get (es_store st) h \<noteq> None} \<subseteq> keys_of included"
proof (intro conjI subsetI)
  have r: "st' = st \<and> env_permits env ''fetch-diff'' p
    \<and> (\<exists>head ve. get_entity_at_path (es_tree st) (es_store st) (head_path (env_ph env st p)) = Some (OtherEntity (HashRef (Some head)))
         \<and> get_version_entity (es_store st) head = Some ve \<and> ve_root ve = Some root)
    \<and> collect_trie_entities_except (env_limit env) {} (es_store st) root [] = Inr included"
    using assms(1,2) by (auto simp: handle_fetch_diff_def Let_def err_def base_root_def and_then_def
      split: if_splits option.splits stored.splits rev_entity.splits sum.splits)
  then show "st' = st" "env_permits env ''fetch-diff'' p"
    "\<exists>head ve. get_entity_at_path (es_tree st) (es_store st) (head_path (env_ph env st p)) = Some (OtherEntity (HashRef (Some head)))
       \<and> get_version_entity (es_store st) head = Some ve \<and> ve_root ve = Some root" by blast+
  have "collect_trie_entities_except (env_limit env) {} (es_store st) root [] = Inr included" using r by blast
  from except_sweeps [OF assms(3) this linked_root]
  have sw: "swept (es_store st) root {} {} (keys_of included)" "root \<in> keys_of included \<union> {} \<or> cs_get (es_store st) root = None"
    by simp_all
  fix h assume "h \<in> {h. in_trie (es_store st) root h \<and> cs_get (es_store st) h \<noteq> None}"
  with swept_linked [OF assms(3) sw, of h] show "h \<in> keys_of included" by auto
qed

theorem first_fetch_complete_witness:
  "\<exists>included. handle_fetch_diff (sample_env distinct_hash) (Some ''doc/'') None served_state
     = (Inr (Ok (SnapshotResult (Some [1]) included)), served_state) \<and> [1] \<in> keys_of included"
proof -
  have "collect_trie_entities_except 100 {} (es_store served_state) [1] [] = Inr [([1], TrieNode (Node 0 []))]"
    by (simp add: numeral_eq_Suc served_node enumerated_def set_bits_def)
  then have r: "handle_fetch_diff (sample_env distinct_hash) (Some ''doc/'') None served_state
     = (Inr (Ok (SnapshotResult (Some [1]) [([1], TrieNode (Node 0 []))])), served_state)"
    by (simp add: handle_fetch_diff_def Let_def served_head served_version base_root_def is_zero_hash_def and_then_def)
  have "{h. in_trie (es_store served_state) [1] h \<and> cs_get (es_store served_state) h \<noteq> None} \<subseteq> keys_of [([1], TrieNode (Node 0 []))]"
    using first_fetch_complete [OF r _ served_plain] by (simp add: is_zero_hash_def)
  moreover have "in_trie (es_store served_state) [1] [1]" "cs_get (es_store served_state) [1] \<noteq> None"
    by (simp_all add: in_trie_def linked_root served_node)
  ultimately show ?thesis using r by blast
qed

text \<open>
  C19. A push transfers nothing: to a peer that runs this handler, whatever its state, no version is counted as
  pushed and none is stored there, because the operations a push calls are not among those dispatched; yet
  the answer, when it is no error, says pushed or up to date.
\<close>

theorem push_transfers_nothing:
  assumes "handle_push env True (serving envs) p peer remote_prefix force st states = ((answer, st'), states')"
  shows "st' = st \<and> states' = states
    \<and> (\<forall>x. answer = Inr (Ok x) \<longrightarrow> x = UpToDate p peer \<or> (\<exists>head. x = Pushed p peer 0 head))"
proof -
  let ?ph = "env_ph env st p" and ?q = "case remote_prefix of None \<Rightarrow> p | Some rp \<Rightarrow> rp"
  obtain answer' where status: "serving envs peer (Status ?q) states = (answer', states)"
    using serving_status by blast
  have push: "push_versions (serving envs) peer p ?q l rh st states = ((Inr (Ok (Pushed p peer 0 l)), st), states)" for l rh
    by (simp add: push_versions_def serving_pushes)
  show ?thesis
    using assms status push
    by (auto simp: handle_push_def Let_def err_def split: if_splits option.splits sum.splits prod.splits rev_response.splits)
qed

theorem push_transfers_nothing_witness:
  "\<exists>st' states'. handle_push (sample_env distinct_hash) True (serving (\<lambda>_. sample_env distinct_hash)) ''doc/'' ''B'' None True
       served_state (\<lambda>_. empty_state) = ((Inr (Ok (Pushed ''doc/'' ''B'' 0 (Some [7]))), st'), states')
     \<and> st' = served_state \<and> states' = (\<lambda>_. empty_state)"
proof -
  obtain a where s: "handle_status (sample_env distinct_hash) ''doc/'' empty_state = (Inr (Ok (StatusResult a)), empty_state)"
      "sr_head a = replicate 33 0"
  proof -
    have "get_entity_at_path (es_tree empty_state) (es_store empty_state) path = None" for path
      by (simp add: empty_state_def get_entity_at_path_def get_hash_at_path_def et_get_def new_tree_def)
    then show ?thesis by (intro that) (auto simp: handle_status_def Let_def and_then_def)
  qed
  have "handle_push (sample_env distinct_hash) True (serving (\<lambda>_. sample_env distinct_hash)) ''doc/'' ''B'' None True served_state
     (\<lambda>_. empty_state) = push_versions (serving (\<lambda>_. sample_env distinct_hash)) ''B'' ''doc/'' ''doc/'' (Some [7])
        (Some (replicate 33 0)) served_state (\<lambda>_. empty_state)"
    using zero_unrelated s
    by (auto simp: handle_push_def Let_def served_head hash_field_def data_get_def serving_def revision_handler_def refused_push_def
        numeral_eq_Suc fun_upd_idem split: relationship.splits)
  also have "\<dots> = ((Inr (Ok (Pushed ''doc/'' ''B'' 0 (Some [7]))), served_state), \<lambda>_. empty_state)"
    by (simp add: push_versions_def serving_pushes)
  finally show ?thesis using push_transfers_nothing by blast
qed

end
