(* ===== verification/Type_Constraints.thy ===== *)
theory Type_Constraints
  imports Tokens Stores
begin

section \<open>Constraints on values\<close>

text \<open>
  \<open>entity_handlers/type_constraint.py\<close>: the evaluator of the eleven standard kinds of constraint. Data is what
  CBOR decodes to without floating-point numbers (\<open>val\<close>), so a number is an integer that is no \<open>bool\<close>. A
  verdict carries the class of its reason, not the text. Parameters of the model are the ECF encoding, the
  RE2 library (a pattern compiles to the strings it matches, or not at all) and the checkers of the named
  formats, which call the date, UUID and URL parsers of the standard library.
\<close>

subsection \<open>Verdicts\<close>

datatype failure = NotApplicable | BadConstraint | Violated | UnknownConstraint | UnknownFormat

datatype verdict = Satisfied | Failed failure

definition judge :: "bool \<Rightarrow> verdict" where
  "judge b = (if b then Satisfied else Failed Violated)"

lemma judge_iff [simp]: "judge b = Satisfied \<longleftrightarrow> b"
  by (simp add: judge_def)

text \<open>\<open>x.get(key)\<close>, of anything, and \<open>x or {}\<close>.\<close>

definition attr :: "val \<Rightarrow> string \<Rightarrow> val result" where
  "attr v key = (case v of VDict d \<Rightarrow> Inr (dict_get d key) | _ \<Rightarrow> Inl AttributeError)"

definition or_dict :: "val \<Rightarrow> val" where
  "or_dict v = (if truthy v then v else VDict [])"

lemma attr_dict [simp]: "attr (VDict d) key = Inr (dict_get d key)"
  by (simp add: attr_def)

lemma attr_Inr: "attr v key = Inr x \<Longrightarrow> \<exists>d. v = VDict d \<and> x = dict_get d key"
  by (cases v) (simp_all add: attr_def)

record typed_entity =
  te_type :: string
  te_data :: val

record type_env =
  ty_store :: "typed_entity content_store"
  ty_tree :: entity_tree
  ty_ecf :: "val \<Rightarrow> bytes"
  ty_re2 :: "string \<Rightarrow> (string \<Rightarrow> bool) option"
  ty_formats :: "string \<Rightarrow> (string \<Rightarrow> bool) option"
  ty_text :: "val \<Rightarrow> string"

subsection \<open>Bounds\<close>

text \<open>\<open>_is_numeric\<close>; and \<open>isinstance(x, int)\<close>, which a \<open>bool\<close> passes.\<close>

definition number :: "val \<Rightarrow> int option" where
  "number v = (case v of VInt i \<Rightarrow> Some i | _ \<Rightarrow> None)"

definition natural :: "val \<Rightarrow> int option" where
  "natural v = (case as_num v of Some i \<Rightarrow> if i < 0 then None else Some i | None \<Rightarrow> None)"

definition measure_length :: "val \<Rightarrow> int option" where
  "measure_length v = (case v of VStr s \<Rightarrow> Some (int (length s)) | VBytes b \<Rightarrow> Some (int (length b)) | _ \<Rightarrow> None)"

definition collection_size :: "val \<Rightarrow> int option" where
  "collection_size v = (case v of VList xs \<Rightarrow> Some (int (length xs)) | VDict d \<Rightarrow> Some (int (length d)) | _ \<Rightarrow> None)"

text \<open>The six bounds share their shape: measure the value, read the bound, compare.\<close>

definition bounded ::
  "(val \<Rightarrow> int option) \<Rightarrow> (val \<Rightarrow> int option) \<Rightarrow> string \<Rightarrow> (int \<Rightarrow> int \<Rightarrow> bool) \<Rightarrow> val \<Rightarrow> val \<Rightarrow> verdict result" where
  "bounded gauge read fld cmp value data =
     (case gauge value of
        None \<Rightarrow> Inr (Failed NotApplicable)
      | Some n \<Rightarrow>
          bind_r (attr data fld)
            (\<lambda>b. Inr (case read b of None \<Rightarrow> Failed BadConstraint | Some bound \<Rightarrow> judge (cmp bound n))))"

definition validate_min :: "val \<Rightarrow> val \<Rightarrow> verdict result" where
  "validate_min = bounded number number ''min'' (\<le>)"

definition validate_max :: "val \<Rightarrow> val \<Rightarrow> verdict result" where
  "validate_max = bounded number number ''max'' (\<ge>)"

definition validate_min_length :: "val \<Rightarrow> val \<Rightarrow> verdict result" where
  "validate_min_length = bounded measure_length natural ''min_length'' (\<le>)"

definition validate_max_length :: "val \<Rightarrow> val \<Rightarrow> verdict result" where
  "validate_max_length = bounded measure_length natural ''max_length'' (\<ge>)"

definition validate_min_count :: "val \<Rightarrow> val \<Rightarrow> verdict result" where
  "validate_min_count = bounded collection_size natural ''min_count'' (\<le>)"

definition validate_max_count :: "val \<Rightarrow> val \<Rightarrow> verdict result" where
  "validate_max_count = bounded collection_size natural ''max_count'' (\<ge>)"

subsection \<open>Patterns, enumerations, formats\<close>

definition validate_pattern :: "type_env \<Rightarrow> val \<Rightarrow> val \<Rightarrow> verdict result" where
  "validate_pattern env value data =
     (case value of
        VStr s \<Rightarrow>
          bind_r (attr data ''pattern'')
            (\<lambda>p. Inr (case p of
                VStr pattern \<Rightarrow>
                  (case ty_re2 env pattern of None \<Rightarrow> Failed BadConstraint | Some matches \<Rightarrow> judge (matches s))
              | _ \<Rightarrow> Failed BadConstraint))
      | _ \<Rightarrow> Inr (Failed NotApplicable))"

definition ecf_equal_any :: "(val \<Rightarrow> bytes) \<Rightarrow> val \<Rightarrow> val list \<Rightarrow> bool" where
  "ecf_equal_any ecf value candidates = list_ex (\<lambda>c. ecf c = ecf value) candidates"

definition validate_one_of :: "type_env \<Rightarrow> val \<Rightarrow> val \<Rightarrow> verdict result" where
  "validate_one_of env value data =
     bind_r (attr data ''values'')
       (\<lambda>vs. Inr (case vs of VList xs \<Rightarrow> judge (ecf_equal_any (ty_ecf env) value xs) | _ \<Rightarrow> Failed BadConstraint))"

definition validate_not_one_of :: "type_env \<Rightarrow> val \<Rightarrow> val \<Rightarrow> verdict result" where
  "validate_not_one_of env value data =
     bind_r (attr data ''values'')
       (\<lambda>vs. Inr (case vs of VList xs \<Rightarrow> judge (\<not> ecf_equal_any (ty_ecf env) value xs) | _ \<Rightarrow> Failed BadConstraint))"

definition validate_format :: "type_env \<Rightarrow> val \<Rightarrow> val \<Rightarrow> verdict result" where
  "validate_format env value data =
     bind_r (attr data ''format'')
       (\<lambda>name. Inr (case name of
            VStr f \<Rightarrow>
              (case value of
                 VStr s \<Rightarrow> (case ty_formats env f of None \<Rightarrow> Failed UnknownFormat | Some check \<Rightarrow> judge (check s))
               | _ \<Rightarrow> Failed NotApplicable)
          | _ \<Rightarrow> Failed BadConstraint))"

subsection \<open>Typed references\<close>

text \<open>
  The type of what a value refers to, by hash, by a hash in two fields (\<open>bytes([alg])\<close> raises beyond a byte) or
  by path; \<open>None\<close> when it is not there.
\<close>

definition type_at :: "type_env \<Rightarrow> bytes \<Rightarrow> string option" where
  "type_at env h = map_option te_type (cs_get (ty_store env) h)"

definition resolve_referenced_type :: "type_env \<Rightarrow> val \<Rightarrow> string option result" where
  "resolve_referenced_type env value =
     (case value of
        VBytes h \<Rightarrow> Inr (type_at env h)
      | VDict d \<Rightarrow>
          if map_of d ''algorithm'' = None \<or> map_of d ''digest'' = None then Inr None
          else (case (as_num (dict_get d ''algorithm''), dict_get d ''digest'') of
                  (Some alg, VBytes digest) \<Rightarrow>
                    if 0 \<le> alg \<and> alg < 256 then Inr (type_at env (word_of_int alg # digest)) else Inl ValueError
                | _ \<Rightarrow> Inr None)
      | VStr path \<Rightarrow>
          (case et_get (ty_tree env) (normalize_uri (et_local (ty_tree env)) path) of
             None \<Rightarrow> Inr None
           | Some h \<Rightarrow> Inr (type_at env h))
      | _ \<Rightarrow> Inr None)"

text \<open>A reference that leads nowhere passes.\<close>

definition validate_type_pattern :: "type_env \<Rightarrow> val \<Rightarrow> val \<Rightarrow> verdict result" where
  "validate_type_pattern env value data =
     bind_r (attr data ''pattern'')
       (\<lambda>p. case p of
          VStr pattern \<Rightarrow>
            bind_r (resolve_referenced_type env value)
              (\<lambda>t. Inr (case t of None \<Rightarrow> Satisfied | Some referenced \<Rightarrow> judge (matches_pattern pattern referenced)))
        | _ \<Rightarrow> Inr (Failed BadConstraint))"

subsection \<open>The handler\<close>

definition kind :: "string \<Rightarrow> string" where
  "kind name = ''system/type/constraint/'' @ name"

definition validators :: "type_env \<Rightarrow> (string \<times> (val \<Rightarrow> val \<Rightarrow> verdict result)) list" where
  "validators env =
     [(kind ''min'', validate_min), (kind ''max'', validate_max),
      (kind ''min-length'', validate_min_length), (kind ''max-length'', validate_max_length),
      (kind ''min-count'', validate_min_count), (kind ''max-count'', validate_max_count),
      (kind ''pattern'', validate_pattern env), (kind ''one-of'', validate_one_of env),
      (kind ''not-one-of'', validate_not_one_of env), (kind ''format'', validate_format env),
      (kind ''type-pattern'', validate_type_pattern env)]"

definition dispatch_constraint_kind :: "type_env \<Rightarrow> val \<Rightarrow> val \<Rightarrow> val \<Rightarrow> verdict result" where
  "dispatch_constraint_kind env value constraint_type data =
     (case constraint_type of
        VStr k \<Rightarrow>
          (case map_of (validators env) k of
             Some validate \<Rightarrow> validate value data
           | None \<Rightarrow> Inr (Failed UnknownConstraint))
      | _ \<Rightarrow> Inr (Failed UnknownConstraint))"

datatype type_response = Verdict verdict | TypeError_Response int string

text \<open>\<open>params.get("data", params) if isinstance(params, dict) else {}\<close>.\<close>

definition request_body :: "val \<Rightarrow> val" where
  "request_body params =
     (case params of
        VDict d \<Rightarrow> (case map_of d ''data'' of None \<Rightarrow> params | Some b \<Rightarrow> b)
      | _ \<Rightarrow> VDict [])"

definition type_constraint_handler :: "type_env \<Rightarrow> string \<Rightarrow> val \<Rightarrow> type_response result" where
  "type_constraint_handler env operation params =
     (if operation \<noteq> ''validate'' then Inr (TypeError_Response 501 ''unsupported_operation'')
      else case request_body params of
        VDict body \<Rightarrow>
          (case map_of body ''constraint_type'' of
             None \<Rightarrow> Inr (TypeError_Response 400 ''invalid_request'')
           | Some ctype \<Rightarrow>
               (case map_of body ''value'' of
                  None \<Rightarrow> Inr (TypeError_Response 400 ''invalid_request'')
                | Some value \<Rightarrow>
                    bind_r (dispatch_constraint_kind env value ctype (or_dict (dict_get body ''constraint_data'')))
                      (\<lambda>v. Inr (Verdict v))))
      | _ \<Rightarrow> Inl TypeError)"

end
