(* ===== verification/Type_Narrowing.thy ===== *)
theory Type_Narrowing
  imports Type_Constraints
begin

section \<open>Narrowing of constraints by a child type\<close>

text \<open>
  \<open>entity_handlers/type_narrowing.py\<close>: a type that extends another must repeat, for every field on which an
  ancestor has constraints, constraints that are equal or more restrictive. A type definition is the
  dictionary of its entity. A violation has the field, its kind and the constraint; its text is left out.
\<close>

type_synonym type_def = "(string \<times> val) list"
type_synonym type_resolver = "string \<Rightarrow> type_def option"

record violation =
  vi_field :: string
  vi_kind :: string
  vi_constraint :: "string option"

subsection \<open>One constraint against another of its kind\<close>

definition check_min_bound :: "string \<Rightarrow> val \<Rightarrow> val \<Rightarrow> bool result" where
  "check_min_bound fld child parent =
     bind_r (attr child fld) (\<lambda>c. bind_r (attr parent fld)
       (\<lambda>p. Inr (case (number c, number p) of (Some x, Some y) \<Rightarrow> y \<le> x | _ \<Rightarrow> False)))"

definition check_max_bound :: "string \<Rightarrow> val \<Rightarrow> val \<Rightarrow> bool result" where
  "check_max_bound fld child parent =
     bind_r (attr child fld) (\<lambda>c. bind_r (attr parent fld)
       (\<lambda>p. Inr (case (number c, number p) of (Some x, Some y) \<Rightarrow> x \<le> y | _ \<Rightarrow> False)))"

definition check_equal_field :: "(val \<Rightarrow> bytes) \<Rightarrow> val \<Rightarrow> val \<Rightarrow> string \<Rightarrow> bool result" where
  "check_equal_field ecf child parent fld =
     bind_r (attr child fld) (\<lambda>c. bind_r (attr parent fld) (\<lambda>p. Inr (ecf c = ecf p)))"

definition check_subset :: "(val \<Rightarrow> bytes) \<Rightarrow> val \<Rightarrow> val \<Rightarrow> bool result" where
  "check_subset ecf child parent =
     bind_r (attr child ''values'') (\<lambda>c. bind_r (attr parent ''values'')
       (\<lambda>p. Inr (case (c, p) of
            (VList cv, VList pv) \<Rightarrow> list_all (\<lambda>v. ecf v \<in> ecf ` set pv) cv
          | _ \<Rightarrow> False)))"

definition check_superset :: "(val \<Rightarrow> bytes) \<Rightarrow> val \<Rightarrow> val \<Rightarrow> bool result" where
  "check_superset ecf child parent =
     bind_r (attr child ''values'') (\<lambda>c. bind_r (attr parent ''values'')
       (\<lambda>p. Inr (case (c, p) of
            (VList cv, VList pv) \<Rightarrow> list_all (\<lambda>v. ecf v \<in> ecf ` set cv) pv
          | _ \<Rightarrow> False)))"

definition literal_prefix :: "string \<Rightarrow> string" where
  "literal_prefix pattern = takeWhile (\<lambda>x. x \<noteq> CHR ''*'') pattern"

definition check_type_pattern :: "val \<Rightarrow> val \<Rightarrow> bool result" where
  "check_type_pattern child parent =
     bind_r (attr child ''pattern'') (\<lambda>c. bind_r (attr parent ''pattern'')
       (\<lambda>p. Inr (case (c, p) of
            (VStr c, VStr p) \<Rightarrow> c = p \<or> starts_with c (literal_prefix p) \<and> length p < length c
          | _ \<Rightarrow> False)))"

text \<open>Of a custom kind only the same data narrows.\<close>

definition is_narrower :: "(val \<Rightarrow> bytes) \<Rightarrow> string \<Rightarrow> val \<Rightarrow> val \<Rightarrow> bool result" where
  "is_narrower ecf k child parent =
     (if k = kind ''min'' then check_min_bound ''min'' child parent
      else if k = kind ''min-length'' then check_min_bound ''min_length'' child parent
      else if k = kind ''min-count'' then check_min_bound ''min_count'' child parent
      else if k = kind ''max'' then check_max_bound ''max'' child parent
      else if k = kind ''max-length'' then check_max_bound ''max_length'' child parent
      else if k = kind ''max-count'' then check_max_bound ''max_count'' child parent
      else if k = kind ''pattern'' then check_equal_field ecf child parent ''pattern''
      else if k = kind ''format'' then check_equal_field ecf child parent ''format''
      else if k = kind ''one-of'' then check_subset ecf child parent
      else if k = kind ''not-one-of'' then check_superset ecf child parent
      else if k = kind ''type-pattern'' then check_type_pattern child parent
      else Inr (ecf child = ecf parent))"

subsection \<open>The constraints of a field\<close>

definition safe_fields :: "type_def \<Rightarrow> (string \<times> type_def) list" where
  "safe_fields d =
     (case dict_get d ''fields'' of
        VDict fs \<Rightarrow> List.map_filter (\<lambda>(k, v). case v of VDict spec \<Rightarrow> Some (k, spec) | _ \<Rightarrow> None) fs
      | _ \<Rightarrow> [])"

definition constraints_of :: "type_def \<Rightarrow> val list" where
  "constraints_of spec = (case dict_get spec ''constraints'' of VList cs \<Rightarrow> cs | _ \<Rightarrow> [])"

text \<open>The kind and the data of an entry that is a dictionary with a kind.\<close>

definition entry_of :: "val \<Rightarrow> (string \<times> val) option" where
  "entry_of c =
     (case c of
        VDict d \<Rightarrow> (case dict_get d ''type'' of VStr k \<Rightarrow> Some (k, or_dict (dict_get d ''data'')) | _ \<Rightarrow> None)
      | _ \<Rightarrow> None)"

text \<open>One narrower constraint of the kind is enough.\<close>

fun narrowed_by_any :: "(val \<Rightarrow> bytes) \<Rightarrow> string \<Rightarrow> val list \<Rightarrow> val \<Rightarrow> bool result" where
  "narrowed_by_any ecf k [] parent = Inr False"
| "narrowed_by_any ecf k (child # cs) parent =
     bind_r (is_narrower ecf k child parent)
       (\<lambda>ok. if ok then Inr True else narrowed_by_any ecf k cs parent)"

definition of_kind :: "string \<Rightarrow> val list \<Rightarrow> val list" where
  "of_kind k cs = List.map_filter (\<lambda>c. case entry_of c of Some (k', d) \<Rightarrow> if k' = k then Some d else None | None \<Rightarrow> None) cs"

fun diff_constraints :: "(val \<Rightarrow> bytes) \<Rightarrow> string \<Rightarrow> val list \<Rightarrow> val list \<Rightarrow> violation list result" where
  "diff_constraints ecf fld [] child_constraints = Inr []"
| "diff_constraints ecf fld (parent # ps) child_constraints =
     (case entry_of parent of
        None \<Rightarrow> diff_constraints ecf fld ps child_constraints
      | Some (k, data) \<Rightarrow>
          bind_r (narrowed_by_any ecf k (of_kind k child_constraints) data)
            (\<lambda>ok. bind_r (diff_constraints ecf fld ps child_constraints)
               (\<lambda>vs. Inr (if ok then vs
                          else \<lparr>vi_field = fld, vi_kind = ''structural'', vi_constraint = Some k\<rparr> # vs))))"

fun diff_fields :: "(val \<Rightarrow> bytes) \<Rightarrow> (string \<times> type_def) list \<Rightarrow> (string \<times> type_def) list \<Rightarrow> violation list result" where
  "diff_fields ecf child_fields [] = Inr []"
| "diff_fields ecf child_fields ((fld, parent_spec) # fs) =
     bind_r (diff_constraints ecf fld (constraints_of parent_spec)
               (case map_of child_fields fld of None \<Rightarrow> [] | Some spec \<Rightarrow> constraints_of spec))
       (\<lambda>vs. bind_r (diff_fields ecf child_fields fs) (\<lambda>ws. Inr (vs @ ws)))"

subsection \<open>The walk up the parents\<close>

text \<open>
  \<open>extends\<close>, when it is a string that is not empty, and \<open>name\<close>. The walk remembers the names it has resolved; not
  returning would be the value \<open>None\<close>.
\<close>

definition parent_name :: "type_def \<Rightarrow> string option" where
  "parent_name d = (case dict_get d ''extends'' of VStr s \<Rightarrow> if s = [] then None else Some s | _ \<Rightarrow> None)"

definition own_name :: "type_def \<Rightarrow> string option" where
  "own_name d = (case dict_get d ''name'' of VStr s \<Rightarrow> Some s | _ \<Rightarrow> None)"

partial_function (option) narrow_up ::
  "(val \<Rightarrow> bytes) \<Rightarrow> type_resolver \<Rightarrow> (string \<times> type_def) list \<Rightarrow> string \<Rightarrow> string list \<Rightarrow> violation list
     \<Rightarrow> violation list result option" where
  "narrow_up ecf resolve child_fields cursor visited out =
     (if cursor \<in> set visited then Some (Inr out)
      else case resolve cursor of
        None \<Rightarrow> Some (Inr out)
      | Some parent \<Rightarrow>
          (case diff_fields ecf child_fields (safe_fields parent) of
             Inl e \<Rightarrow> Some (Inl e)
           | Inr vs \<Rightarrow>
               (case parent_name parent of
                  None \<Rightarrow> Some (Inr (out @ vs))
                | Some next \<Rightarrow> narrow_up ecf resolve child_fields next (cursor # visited) (out @ vs))))"

definition verify_narrowing :: "(val \<Rightarrow> bytes) \<Rightarrow> type_resolver \<Rightarrow> type_def \<Rightarrow> violation list result option" where
  "verify_narrowing ecf resolve child =
     (case parent_name child of
        None \<Rightarrow> Some (Inr [])
      | Some p \<Rightarrow>
          narrow_up ecf resolve (safe_fields child) p (case own_name child of None \<Rightarrow> [] | Some n \<Rightarrow> [n]) [])"

end
