(* ===== verification/Type_Analysis.thy ===== *)
theory Type_Analysis
  imports Type_Narrowing
begin

section \<open>Comparing and merging type definitions\<close>

text \<open>
  \<open>entity_handlers/type_analysis.py\<close>: the effective fields of a definition, the signature of a field, and the
  operations compare, compatible, converge, adopt and reconcile. An operation that walks up \<open>extends\<close> may not
  return: it is a \<open>partial_function\<close> of which \<open>None\<close> is the value then. Fields and reports are in the order of the
  code. The text of a signature of a reference that is no string is a parameter (\<open>ty_text\<close>). Where a report
  names an arbitrary element of a set of signatures, only the name of the field is kept.
\<close>

subsection \<open>Names\<close>

definition lstrip_slash :: "string \<Rightarrow> string" where
  "lstrip_slash s = dropWhile (\<lambda>c. c = CHR ''/'') s"

text \<open>\<open>s.split("/", 2)\<close>.\<close>

definition split_twice :: "string \<Rightarrow> string list" where
  "split_twice s =
     (case split_once (CHR ''/'') s of
        (a, None) \<Rightarrow> [a]
      | (a, Some rest) \<Rightarrow> (case split_once (CHR ''/'') rest of (b, None) \<Rightarrow> [a, b] | (b, Some c) \<Rightarrow> [a, b, c]))"

definition type_below_peer :: "string \<Rightarrow> string option" where
  "type_below_peer s =
     (case split_twice s of
        [a, b, c] \<Rightarrow> if b = ''system'' \<and> starts_with c ''type/'' then Some (drop 5 c) else None
      | _ \<Rightarrow> None)"

definition normalize_type_lookup :: "string \<Rightarrow> string" where
  "normalize_type_lookup path =
     (let s = lstrip_slash path in
      if starts_with s ''system/type/'' then drop 12 s
      else case type_below_peer s of Some name \<Rightarrow> name | None \<Rightarrow> s)"

subsection \<open>Effective fields\<close>

partial_function (option) chain_up :: "type_resolver \<Rightarrow> type_def \<Rightarrow> string list \<Rightarrow> type_def list \<Rightarrow> type_def list option" where
  "chain_up resolve cursor visited chain =
     (case own_name cursor of
        Some n \<Rightarrow>
          if n \<in> set visited then Some chain
          else (case parent_name cursor of
                  None \<Rightarrow> Some (chain @ [cursor])
                | Some p \<Rightarrow>
                    (case resolve p of
                       None \<Rightarrow> Some (chain @ [cursor])
                     | Some next \<Rightarrow> chain_up resolve next (n # visited) (chain @ [cursor])))
      | None \<Rightarrow>
          (case parent_name cursor of
             None \<Rightarrow> Some (chain @ [cursor])
           | Some p \<Rightarrow>
               (case resolve p of
                  None \<Rightarrow> Some (chain @ [cursor])
                | Some next \<Rightarrow> chain_up resolve next visited (chain @ [cursor]))))"

text \<open>The fields of the definitions of a chain, those nearer to the type winning; validation merges them by the same loop.\<close>

definition merge_fields :: "type_def list \<Rightarrow> (string \<times> type_def) list" where
  "merge_fields chain = fold (\<lambda>link fs. fold (\<lambda>(k, spec). AList.update k spec) (safe_fields link) fs) (rev chain) []"

definition effective_fields :: "type_resolver \<Rightarrow> type_def \<Rightarrow> (string \<times> type_def) list option" where
  "effective_fields resolve d = map_option merge_fields (chain_up resolve d [] [])"

subsection \<open>Signatures\<close>

definition formatted :: "type_env \<Rightarrow> val \<Rightarrow> string" where
  "formatted env v = (case v of VStr s \<Rightarrow> s | _ \<Rightarrow> ty_text env v)"

fun join_with :: "string \<Rightarrow> string list \<Rightarrow> string" where
  "join_with sep [] = []"
| "join_with sep [x] = x"
| "join_with sep (x # y # xs) = x @ sep @ join_with sep (y # xs)"

definition dict_of_val :: "val \<Rightarrow> type_def option" where
  "dict_of_val v = (case v of VDict d \<Rightarrow> Some d | _ \<Rightarrow> None)"

lemma size_map_of: "map_of d k = Some v \<Longrightarrow> size v < size (VDict d)"
  by (induction d) (auto split: if_splits)

lemma size_dicts: "d \<in> set (List.map_filter dict_of_val alts) \<Longrightarrow> size (VDict d) < size (VList alts)"
  by (induction alts) (auto simp: List.map_filter_simps dict_of_val_def split: val.splits option.splits)

lemma size_alternative:
  "d \<in> set (List.map_filter dict_of_val alts) \<Longrightarrow> map_of spec k = Some (VList alts) \<Longrightarrow> size (VDict d) < size (VDict spec)"
  using size_dicts size_map_of less_trans by blast

function field_type_signature :: "type_env \<Rightarrow> type_def \<Rightarrow> string" where
  "field_type_signature env spec =
     (case map_of spec ''type_ref'' of
        Some r \<Rightarrow> ''type_ref:'' @ formatted env r
      | None \<Rightarrow>
     (case map_of spec ''array_of'' of
        Some inner \<Rightarrow>
          ''array_of:'' @ (case inner of VDict d \<Rightarrow> field_type_signature env d | _ \<Rightarrow> ''?'')
      | None \<Rightarrow>
     (case map_of spec ''map_of'' of
        Some inner \<Rightarrow>
          (let k = dict_get spec ''key_type'' in
           ''map_of['' @ (if truthy k then formatted env k else ''primitive/string'') @ '']:''
             @ (case inner of VDict d \<Rightarrow> field_type_signature env d | _ \<Rightarrow> ''?''))
      | None \<Rightarrow>
     (case map_of spec ''union_of'' of
        Some (VList alts) \<Rightarrow>
          ''union('' @ join_with ''|'' (sort (map (field_type_signature env) (List.map_filter dict_of_val alts))) @ '')''
      | _ \<Rightarrow> ''?''))))"
  by pat_completeness auto
termination
  by (relation "measure (\<lambda>(env, spec). size (VDict spec))") (auto dest: size_map_of dest!: size_alternative)

declare field_type_signature.simps [simp del]

definition constraint_signature :: "type_env \<Rightarrow> type_def \<Rightarrow> bytes" where
  "constraint_signature env spec =
     (let cs = constraints_of spec in
      if cs = [] then []
      else ty_ecf env (VList (map VBytes (sort (map (ty_ecf env) (filter (\<lambda>c. dict_of_val c \<noteq> None) cs))))))"

definition optional_field :: "type_def \<Rightarrow> bool" where
  "optional_field spec \<longleftrightarrow> dict_get spec ''optional'' = VBool True"

subsection \<open>Compare and compatible\<close>

record compare_row =
  rw_type_match :: bool
  rw_constraint_match :: bool
  rw_a_optional :: bool
  rw_b_optional :: bool

record compare_result =
  cm_shared :: "(string \<times> compare_row) list"
  cm_only_a :: "string list"
  cm_only_b :: "string list"
  cm_incompatible :: "(string \<times> string \<times> string) list"

definition fields_at :: "type_resolver \<Rightarrow> string \<Rightarrow> (string \<times> type_def) list option" where
  "fields_at resolve path =
     (case resolve (normalize_type_lookup path) of None \<Rightarrow> Some [] | Some d \<Rightarrow> effective_fields resolve d)"

definition field_names :: "(string \<times> type_def) list list \<Rightarrow> string list" where
  "field_names fs = sort (remdups (concat (map (map fst) fs)))"

definition the_field :: "(string \<times> type_def) list \<Rightarrow> string \<Rightarrow> type_def" where
  "the_field fs name = the (map_of fs name)"

definition has_field :: "(string \<times> type_def) list \<Rightarrow> string \<Rightarrow> bool" where
  "has_field fs name \<longleftrightarrow> map_of fs name \<noteq> None"

text \<open>The fields of both whose signatures differ, with the signatures.\<close>

definition mismatches ::
  "type_env \<Rightarrow> (string \<times> type_def) list \<Rightarrow> (string \<times> type_def) list \<Rightarrow> (string \<times> string \<times> string) list" where
  "mismatches env a b =
     List.map_filter (\<lambda>f. let sa = field_type_signature env (the_field a f); sb = field_type_signature env (the_field b f)
                     in if sa = sb then None else Some (f, sa, sb))
       (filter (\<lambda>f. has_field a f \<and> has_field b f) (field_names [a, b]))"

definition op_compare :: "type_env \<Rightarrow> type_resolver \<Rightarrow> string \<Rightarrow> string \<Rightarrow> compare_result option" where
  "op_compare env resolve path_a path_b =
     Option.bind (fields_at resolve path_a) (\<lambda>a. Option.bind (fields_at resolve path_b)
       (\<lambda>b. Some
          \<lparr>cm_shared = map (\<lambda>f. let sa = the_field a f; sb = the_field b f in
               (f, \<lparr>rw_type_match = (field_type_signature env sa = field_type_signature env sb),
                    rw_constraint_match = (constraint_signature env sa = constraint_signature env sb),
                    rw_a_optional = optional_field sa, rw_b_optional = optional_field sb\<rparr>))
             (filter (\<lambda>f. has_field a f \<and> has_field b f) (field_names [a, b])),
           cm_only_a = filter (\<lambda>f. has_field a f \<and> \<not> has_field b f) (field_names [a, b]),
           cm_only_b = filter (\<lambda>f. \<not> has_field a f) (field_names [a, b]),
           cm_incompatible = mismatches env a b\<rparr>))"

datatype compat_level = FullyCompatible | ForwardOnly | BackwardOnly | PartiallyCompatible | Incompatible

record compat_report =
  ct_level :: compat_level
  ct_shared :: "string list"
  ct_incompatible :: "(string \<times> string \<times> string) list"
  ct_missing_a :: "string list"
  ct_missing_b :: "string list"

definition missing_required :: "(string \<times> type_def) list \<Rightarrow> (string \<times> type_def) list \<Rightarrow> string list" where
  "missing_required a b = sort (map fst (filter (\<lambda>(f, spec). \<not> optional_field spec \<and> \<not> has_field b f) a))"

definition level_of :: "string \<Rightarrow> bool \<Rightarrow> bool \<Rightarrow> bool \<Rightarrow> compat_level" where
  "level_of direction forward_ok backward_ok some_shared =
     (if forward_ok \<and> backward_ok then FullyCompatible
      else if direction = ''forward''
      then (if forward_ok then ForwardOnly else if some_shared then PartiallyCompatible else Incompatible)
      else if direction = ''backward''
      then (if backward_ok then BackwardOnly else if some_shared then PartiallyCompatible else Incompatible)
      else if forward_ok then ForwardOnly
      else if backward_ok then BackwardOnly
      else if some_shared then PartiallyCompatible
      else Incompatible)"

definition op_compatible :: "type_env \<Rightarrow> type_resolver \<Rightarrow> string \<Rightarrow> string \<Rightarrow> string \<Rightarrow> compat_report result option" where
  "op_compatible env resolve path_a path_b direction =
     (if direction \<notin> {''forward'', ''backward'', ''bidirectional''} then Some (Inl ValueError)
      else
        Option.bind (fields_at resolve path_a) (\<lambda>a. Option.bind (fields_at resolve path_b)
          (\<lambda>b. let shared = filter (\<lambda>f. has_field a f \<and> has_field b f) (field_names [a, b]);
                   incompatible = mismatches env a b;
                   missing_a = missing_required a b; missing_b = missing_required b a;
                   forward_ok = (missing_b = [] \<and> incompatible = []); backward_ok = (missing_a = [] \<and> incompatible = [])
               in Some (Inr \<lparr>ct_level = level_of direction forward_ok backward_ok (shared \<noteq> []), ct_shared = shared,
                    ct_incompatible = incompatible, ct_missing_a = missing_a, ct_missing_b = missing_b\<rparr>))))"

subsection \<open>Merging constraints\<close>

text \<open>What \<open>for v in x\<close> iterates over.\<close>

definition items_of :: "val \<Rightarrow> val list result" where
  "items_of v =
     (case v of
        VList xs \<Rightarrow> Inr xs
      | VDict d \<Rightarrow> Inr (map (VStr \<circ> fst) d)
      | VStr s \<Rightarrow> Inr (map (\<lambda>c. VStr [c]) s)
      | VBytes b \<Rightarrow> Inr (map (VInt \<circ> uint) b)
      | _ \<Rightarrow> Inl TypeError)"

text \<open>\<open>c.get("data", {}).get(key)\<close> and \<open>c.get("data", {}).get("values", [])\<close>.\<close>

definition data_or_empty :: "type_def \<Rightarrow> val" where
  "data_or_empty c = (case map_of c ''data'' of None \<Rightarrow> VDict [] | Some d \<Rightarrow> d)"

definition listed_values :: "type_def \<Rightarrow> val list result" where
  "listed_values c =
     (case data_or_empty c of
        VDict d \<Rightarrow> (case map_of d ''values'' of None \<Rightarrow> Inr [] | Some v \<Rightarrow> items_of v)
      | _ \<Rightarrow> Inl AttributeError)"

text \<open>The last segment of a kind: the key under which the merge looks for a bound.\<close>

definition last_part :: "string \<Rightarrow> string" where
  "last_part k = last (split_all (CHR ''/'') k)"

definition merge_bounds :: "(int list \<Rightarrow> int) \<Rightarrow> string \<Rightarrow> type_def list \<Rightarrow> type_def option result" where
  "merge_bounds pick k items =
     bind_r (map_r (\<lambda>c. attr (data_or_empty c) (last_part k)) items)
       (\<lambda>vals. let nums = List.map_filter number vals in
          Inr (if nums = [] then None
               else Some [(''type'', VStr k), (''data'', VDict [(last_part k, VInt (pick nums))])]))"

text \<open>The values of all items in order, without those that encode like an earlier one, that are common.\<close>

definition distinct_common :: "(val \<Rightarrow> bytes) \<Rightarrow> bytes set \<Rightarrow> val list \<Rightarrow> val list" where
  "distinct_common ecf common vs =
     fold (\<lambda>v acc. if ecf v \<in> common \<and> \<not> list_ex (\<lambda>x. ecf v = ecf x) acc then acc @ [v] else acc) vs []"

definition merge_values :: "(val \<Rightarrow> bytes) \<Rightarrow> bool \<Rightarrow> string \<Rightarrow> type_def list \<Rightarrow> type_def option result" where
  "merge_values ecf intersecting k items =
     bind_r (map_r listed_values items)
       (\<lambda>vss. let encoded = map (\<lambda>vs. ecf ` set vs) vss;
                  common = (if intersecting then fold (\<inter>) (tl encoded) (hd encoded) else \<Union> (set encoded))
              in Inr (Some [(''type'', VStr k), (''data'', VDict [(''values'', VList (distinct_common ecf common (concat vss)))])]))"

definition merge_kind :: "(val \<Rightarrow> bytes) \<Rightarrow> string \<Rightarrow> type_def list \<Rightarrow> bool \<Rightarrow> type_def option result" where
  "merge_kind ecf k items restrictive =
     (if k \<in> {kind ''min'', kind ''min-length'', kind ''min-count''}
      then merge_bounds (if restrictive then Max \<circ> set else Min \<circ> set) k items
      else if k \<in> {kind ''max'', kind ''max-length'', kind ''max-count''}
      then merge_bounds (if restrictive then Min \<circ> set else Max \<circ> set) k items
      else if k = kind ''one-of'' then merge_values ecf restrictive k items
      else if k = kind ''not-one-of'' then merge_values ecf (\<not> restrictive) k items
      else Inr (if list_all (\<lambda>c. ecf (VDict c) = ecf (VDict (hd items))) (tl items) then Some (hd items) else None))"

text \<open>The constraints of each kind, of all sources in order: one is kept, several are merged.\<close>

definition entries_of :: "val list \<Rightarrow> (string \<times> type_def) list" where
  "entries_of cs = List.map_filter
     (\<lambda>c. case c of VDict d \<Rightarrow> (case dict_get d ''type'' of VStr k \<Rightarrow> Some (k, d) | _ \<Rightarrow> None) | _ \<Rightarrow> None) cs"

definition merge_constraints :: "(val \<Rightarrow> bytes) \<Rightarrow> bool \<Rightarrow> val list list \<Rightarrow> val list result" where
  "merge_constraints ecf restrictive sets =
     (let es = concat (map entries_of sets);
          merged = map_r (\<lambda>k. case map snd (filter (\<lambda>(k', c). k' = k) es) of
                                [c] \<Rightarrow> Inr (Some c)
                              | items \<Rightarrow> merge_kind ecf k items restrictive)
                     (sort (remdups (map fst es)))
      in map_sum id (\<lambda>ms. map VDict (List.map_filter id ms)) merged)"

definition intersect_constraints :: "(val \<Rightarrow> bytes) \<Rightarrow> val list list \<Rightarrow> val list result" where
  "intersect_constraints ecf sets = merge_constraints ecf True sets"

definition union_constraints :: "(val \<Rightarrow> bytes) \<Rightarrow> val list list \<Rightarrow> val list result" where
  "union_constraints ecf sets = merge_constraints ecf False sets"

text \<open>\<open>base["constraints"] = ...\<close>, or no constraints at all.\<close>

definition with_constraints :: "type_def \<Rightarrow> val list \<Rightarrow> type_def" where
  "with_constraints spec cs =
     (if cs \<noteq> [] then AList.update ''constraints'' (VList cs) spec else AList.delete ''constraints'' spec)"

subsection \<open>Converge, adopt, reconcile\<close>

definition signatures_agree :: "type_env \<Rightarrow> (string \<times> type_def) list list \<Rightarrow> string \<Rightarrow> bool" where
  "signatures_agree env fs f = (\<forall>a \<in> set fs. field_type_signature env (the_field a f) = field_type_signature env (the_field (hd fs) f))"

definition common_field :: "(string \<times> type_def) list list \<Rightarrow> string \<Rightarrow> bool" where
  "common_field fs f = (\<forall>a \<in> set fs. has_field a f)"

text \<open>The field of the first source, with the most, or least, restrictive constraints of all.\<close>

definition joined_field :: "type_env \<Rightarrow> bool \<Rightarrow> (string \<times> type_def) list list \<Rightarrow> string \<Rightarrow> type_def result" where
  "joined_field env restrictive fs f =
     bind_r (merge_constraints (ty_ecf env) restrictive (map (\<lambda>a. constraints_of (the_field a f)) fs))
       (\<lambda>cs. Inr (with_constraints (the_field (hd fs) f) cs))"

definition set_optional :: "type_def \<Rightarrow> type_def" where
  "set_optional spec = AList.update ''optional'' (VBool True) spec"

text \<open>The effective fields of all sources; a source that does not resolve is a \<open>ValueError\<close>.\<close>

fun sources :: "type_resolver \<Rightarrow> string list \<Rightarrow> (string \<times> type_def) list list result option" where
  "sources resolve [] = Some (Inr [])"
| "sources resolve (p # ps) =
     (case resolve (normalize_type_lookup p) of
        None \<Rightarrow> Some (Inl ValueError)
      | Some d \<Rightarrow>
          Option.bind (effective_fields resolve d)
            (\<lambda>fs. map_option (map_sum id ((#) fs)) (sources resolve ps)))"

definition synth_name :: "string \<Rightarrow> string list \<Rightarrow> string" where
  "synth_name stem paths = stem @ join_with ''+'' (sort (map normalize_type_lookup paths))"

definition op_converge ::
  "type_env \<Rightarrow> type_resolver \<Rightarrow> string list \<Rightarrow> (string \<times> (string \<times> type_def) list) result option" where
  "op_converge env resolve paths =
     (if length paths < 2 then Some (Inl ValueError)
      else
        map_option (\<lambda>r. bind_r r (\<lambda>fs.
            map_sum id (\<lambda>merged. (synth_name ''converged/'' paths, merged))
              (map_r (\<lambda>f. map_sum id
                        (\<lambda>spec. (f, if list_all (\<lambda>a. optional_field (the_field a f)) fs then set_optional spec else spec))
                        (joined_field env True fs f))
                (filter (\<lambda>f. common_field fs f \<and> signatures_agree env fs f) (field_names fs)))))
          (sources resolve paths))"

definition blank :: "string \<Rightarrow> bool" where
  "blank s = list_all (\<lambda>c. of_char c \<in> {9..13} \<union> {28..32} \<union> {133, 160 :: nat}) s"

definition derive_local_name :: "string \<Rightarrow> string" where
  "derive_local_name path =
     (case type_below_peer (rev (lstrip_slash (rev (lstrip_slash path)))) of
        Some name \<Rightarrow> name
      | None \<Rightarrow> normalize_type_lookup path)"

record adopted =
  ad_data :: type_def
  ad_unresolved_extends :: "string option"
  ad_collision :: bool

definition op_adopt :: "type_resolver \<Rightarrow> type_resolver \<Rightarrow> string \<Rightarrow> string option \<Rightarrow> adopted result" where
  "op_adopt resolve_remote resolve_local source_path local_name =
     (case resolve_remote (normalize_type_lookup source_path) of
        None \<Rightarrow> Inl ValueError
      | Some source \<Rightarrow>
          let name = (case local_name of
                        None \<Rightarrow> derive_local_name source_path
                      | Some n \<Rightarrow> if blank n then derive_local_name source_path else n)
          in Inr \<lparr>ad_data = AList.update ''name'' (VStr name) source,
               ad_unresolved_extends = (case parent_name source of
                   None \<Rightarrow> None
                 | Some p \<Rightarrow> if resolve_local (normalize_type_lookup p) = None then Some p else None),
               ad_collision = (resolve_local name \<noteq> None)\<rparr>)"

record reconciled =
  rn_fields :: "(string \<times> type_def) list"
  rn_dropped :: "string list"
  rn_made_optional :: "string list"
  rn_diverging :: "string list"

definition reconcile_intersect :: "type_env \<Rightarrow> (string \<times> type_def) list list \<Rightarrow> reconciled result" where
  "reconcile_intersect env fs =
     (let kept = filter (\<lambda>f. common_field fs f \<and> signatures_agree env fs f) (field_names fs) in
      map_sum id
        (\<lambda>merged. \<lparr>rn_fields = merged, rn_dropped = filter (\<lambda>f. f \<notin> set kept) (field_names fs), rn_made_optional = [],
           rn_diverging = filter (\<lambda>f. common_field fs f \<and> f \<notin> set kept) (field_names fs)\<rparr>)
        (map_r (\<lambda>f. map_sum id (Pair f) (joined_field env True fs f)) kept))"

definition reconcile_union :: "type_env \<Rightarrow> (string \<times> type_def) list list \<Rightarrow> reconciled result" where
  "reconcile_union env fs =
     (let having = (\<lambda>f. filter (\<lambda>a. has_field a f) fs);
          kept = filter (\<lambda>f. signatures_agree env (having f) f) (field_names fs)
      in map_sum id
        (\<lambda>merged. \<lparr>rn_fields = merged, rn_dropped = [], rn_made_optional = filter (\<lambda>f. \<not> common_field fs f) kept,
           rn_diverging = filter (\<lambda>f. f \<notin> set kept) (field_names fs)\<rparr>)
        (map_r (\<lambda>f. map_sum id (\<lambda>spec. (f, if common_field fs f then spec else set_optional spec))
                   (joined_field env False (having f) f)) kept))"

definition reconcile_prefer :: "type_env \<Rightarrow> (string \<times> type_def) list list \<Rightarrow> reconciled" where
  "reconcile_prefer env fs =
     (let names = field_names fs; preferred = hd fs in
      \<lparr>rn_fields = map (\<lambda>f. (f, if has_field preferred f then the_field preferred f
                              else set_optional (the_field (hd (filter (\<lambda>a. has_field a f) (tl fs))) f))) names,
       rn_dropped = [],
       rn_made_optional = filter (\<lambda>f. \<not> has_field preferred f) names,
       rn_diverging = concat (map (\<lambda>f. if has_field preferred f
                          then map (\<lambda>_. f) (filter (\<lambda>a. has_field a f
                                  \<and> field_type_signature env (the_field a f) \<noteq> field_type_signature env (the_field preferred f)) (tl fs))
                          else []) names)\<rparr>)"

definition op_reconcile ::
  "type_env \<Rightarrow> type_resolver \<Rightarrow> string list \<Rightarrow> string \<Rightarrow> (string \<times> reconciled) result option" where
  "op_reconcile env resolve paths strategy =
     (if strategy \<notin> {''intersect'', ''union'', ''prefer''} \<or> length paths < 2 then Some (Inl ValueError)
      else
        map_option (\<lambda>r. bind_r r (\<lambda>fs. map_sum id (Pair (synth_name ''reconciled/'' paths))
            (if strategy = ''intersect'' then reconcile_intersect env fs
             else if strategy = ''union'' then reconcile_union env fs
             else Inr (reconcile_prefer env fs))))
          (sources resolve paths))"

end
