(* ===== verification/Type_Validation.thy ===== *)
theory Type_Validation
  imports Type_Analysis
begin

section \<open>Validation of entities against their types\<close>

text \<open>
  \<open>entity_handlers/type_handler.py\<close>: the operation validate (structure, constraints, narrowing) and the dispatch
  of the analysis operations, over the types that the tree binds (\<open>get_type_entity\<close> of
  \<open>entity_core/types/registry.py\<close>). A constraint is dispatched to the handler of its kind: a function that returns
  the verdict, or \<open>None\<close> when the call fails; for the standard kinds it is \<open>type_constraint_handler\<close>.
\<close>

subsection \<open>Types in the tree\<close>

definition get_type_entity :: "string \<Rightarrow> typed_entity content_store \<Rightarrow> entity_tree \<Rightarrow> typed_entity option" where
  "get_type_entity name cs t =
     (case et_get t (normalize_uri (et_local t) (''system/type/'' @ name)) of
        None \<Rightarrow> None
      | Some h \<Rightarrow> cs_get cs h)"

definition resolve_type :: "type_env \<Rightarrow> type_resolver" where
  "resolve_type env name =
     (case get_type_entity name (ty_store env) (ty_tree env) of
        None \<Rightarrow> None
      | Some e \<Rightarrow> dict_of_val (te_data e))"

definition FIELDSPEC_KNOWN_KEYS :: "string list" where
  "FIELDSPEC_KNOWN_KEYS =
     [''type_ref'', ''array_of'', ''map_of'', ''key_type'', ''optional'', ''byte_size'', ''union_of'', ''type_param'',
      ''type_args'', ''default'', ''constraints'']"

definition TYPEDEF_KNOWN_KEYS :: "string list" where
  "TYPEDEF_KNOWN_KEYS = [''name'', ''fields'', ''extends'', ''layout'', ''type_params'', ''type_args'']"

subsection \<open>Effective fields\<close>

datatype walk_error = CycleAt string | ParentMissing string

text \<open>The definitions from the type up to its root, or those before an error.\<close>

partial_function (option) checked_chain ::
  "type_resolver \<Rightarrow> type_def \<Rightarrow> string list \<Rightarrow> type_def list \<Rightarrow> (type_def list \<times> walk_error option) option" where
  "checked_chain resolve cursor visited chain =
     (case own_name cursor of
        Some n \<Rightarrow>
          if n \<in> set visited then Some (chain, Some (CycleAt n))
          else (case parent_name cursor of
                  None \<Rightarrow> Some (chain @ [cursor], None)
                | Some p \<Rightarrow>
                    (case resolve p of
                       None \<Rightarrow> Some (chain @ [cursor], Some (ParentMissing p))
                     | Some next \<Rightarrow> checked_chain resolve next (n # visited) (chain @ [cursor])))
      | None \<Rightarrow>
          (case parent_name cursor of
             None \<Rightarrow> Some (chain @ [cursor], None)
           | Some p \<Rightarrow>
               (case resolve p of
                  None \<Rightarrow> Some (chain @ [cursor], Some (ParentMissing p))
                | Some next \<Rightarrow> checked_chain resolve next visited (chain @ [cursor]))))"

definition unknown_keys :: "type_def list \<Rightarrow> string list" where
  "unknown_keys chain = concat (map (filter (\<lambda>k. k \<notin> set TYPEDEF_KNOWN_KEYS) \<circ> map fst) chain)"

definition unknown_field_keys :: "type_def \<Rightarrow> string list" where
  "unknown_field_keys link =
     (case dict_get link ''fields'' of
        VDict fs \<Rightarrow> concat (map (\<lambda>(f, spec). case spec of
            VDict d \<Rightarrow> map (\<lambda>k. ''fields.'' @ f @ ''.'' @ k) (filter (\<lambda>k. k \<notin> set FIELDSPEC_KNOWN_KEYS) (map fst d))
          | _ \<Rightarrow> [''fields.'' @ f]) fs)
      | _ \<Rightarrow> [])"

definition checked_fields ::
  "type_resolver \<Rightarrow> type_def \<Rightarrow> ((string \<times> type_def) list \<times> string list \<times> walk_error option) option" where
  "checked_fields resolve d =
     map_option (\<lambda>(chain, e). case e of
         Some x \<Rightarrow> ([], sort (remdups (unknown_keys chain)), Some x)
       | None \<Rightarrow> (merge_fields chain, sort (remdups (unknown_keys chain @ concat (map unknown_field_keys chain))), None))
       (checked_chain resolve d [] [])"

subsection \<open>Structure\<close>

text \<open>Without floating-point numbers a float is an integer.\<close>

definition primitive_ok :: "string \<Rightarrow> val \<Rightarrow> bool" where
  "primitive_ok type_ref value =
     (if type_ref = ''primitive/any'' then True
      else if type_ref = ''primitive/null'' then value = VNull
      else if type_ref = ''primitive/bool'' then (case value of VBool b \<Rightarrow> True | _ \<Rightarrow> False)
      else if type_ref = ''primitive/string'' then (case value of VStr s \<Rightarrow> True | _ \<Rightarrow> False)
      else if type_ref = ''primitive/bytes'' then (case value of VBytes b \<Rightarrow> True | _ \<Rightarrow> False)
      else if type_ref = ''primitive/uint'' then (case value of VInt i \<Rightarrow> 0 \<le> i | _ \<Rightarrow> False)
      else if type_ref = ''primitive/int'' \<or> type_ref = ''primitive/float'' then (case value of VInt i \<Rightarrow> True | _ \<Rightarrow> False)
      else True)"

definition structural :: "string \<Rightarrow> violation" where
  "structural f = \<lparr>vi_field = f, vi_kind = ''structural'', vi_constraint = None\<rparr>"

definition shape_ok :: "type_def \<Rightarrow> val \<Rightarrow> bool" where
  "shape_ok spec value =
     (let absent = (value = VNull \<and> optional_field spec) in
      if map_of spec ''array_of'' \<noteq> None \<and> absent then True
      else if map_of spec ''array_of'' \<noteq> None \<and> (case value of VList xs \<Rightarrow> False | _ \<Rightarrow> True) then False
      else if map_of spec ''map_of'' \<noteq> None \<and> absent then True
      else if map_of spec ''map_of'' \<noteq> None \<and> (case value of VDict d \<Rightarrow> False | _ \<Rightarrow> True) then False
      else case dict_get spec ''type_ref'' of
        VStr r \<Rightarrow> starts_with r ''primitive/'' \<longrightarrow> primitive_ok r value
      | _ \<Rightarrow> True)"

definition field_ok :: "type_def \<Rightarrow> string \<times> type_def \<Rightarrow> bool" where
  "field_ok entity_data = (\<lambda>(f, spec).
     case map_of entity_data f of None \<Rightarrow> optional_field spec | Some value \<Rightarrow> shape_ok spec value)"

definition structural_check :: "type_def \<Rightarrow> (string \<times> type_def) list \<Rightarrow> violation list" where
  "structural_check entity_data fs = map (structural \<circ> fst) (filter (\<lambda>x. \<not> field_ok entity_data x) fs)"

subsection \<open>Constraints\<close>

type_synonym executor = "string \<Rightarrow> val \<Rightarrow> val \<Rightarrow> verdict option"

text \<open>How the call of the standard handler ends.\<close>

definition standard_executor :: "type_env \<Rightarrow> executor" where
  "standard_executor env k value data =
     (case type_constraint_handler env ''validate''
         (VDict [(''data'', VDict [(''value'', value), (''constraint_type'', VStr k), (''constraint_data'', data)])]) of
        Inr (Verdict v) \<Rightarrow> Some v
      | _ \<Rightarrow> None)"

definition constraint_violations :: "executor \<Rightarrow> string \<Rightarrow> val \<Rightarrow> val \<Rightarrow> violation list" where
  "constraint_violations execute f value c =
     (case entry_of c of
        None \<Rightarrow> [\<lparr>vi_field = f, vi_kind = ''unknown_constraint'', vi_constraint = None\<rparr>]
      | Some (k, data) \<Rightarrow>
          (case execute k value data of
             Some Satisfied \<Rightarrow> []
           | Some (Failed r) \<Rightarrow>
               [\<lparr>vi_field = f, vi_kind = (if r \<in> {UnknownConstraint, UnknownFormat} then ''unknown_constraint'' else ''constraint''),
                 vi_constraint = Some k\<rparr>]
           | None \<Rightarrow> [\<lparr>vi_field = f, vi_kind = ''unknown_constraint'', vi_constraint = Some k\<rparr>]))"

definition constraint_phase :: "executor \<Rightarrow> type_def \<Rightarrow> (string \<times> type_def) list \<Rightarrow> violation list" where
  "constraint_phase execute entity_data fs =
     concat (map (\<lambda>(f, spec). case map_of entity_data f of
         None \<Rightarrow> []
       | Some value \<Rightarrow> concat (map (constraint_violations execute f value) (constraints_of spec))) fs)"

subsection \<open>The operation validate\<close>

datatype type_answer =
    Validated bool "violation list" "string list"
  | Compared compare_result
  | Compatibility compat_report
  | Converged string "(string \<times> type_def) list"
  | AdoptedType adopted
  | Reconciled string reconciled
  | Refused int string

definition narrowing_violations :: "type_env \<Rightarrow> val \<Rightarrow> type_def \<Rightarrow> violation list result option" where
  "narrowing_violations env entity_type entity_data =
     (if entity_type = VStr ''system/type'' \<and> map_of entity_data ''extends'' \<noteq> None
      then verify_narrowing (ty_ecf env) (resolve_type env) entity_data
      else Some (Inr []))"

definition validate_data ::
  "type_env \<Rightarrow> executor \<Rightarrow> val \<Rightarrow> type_def \<Rightarrow> (string \<times> type_def) list \<Rightarrow> string list \<Rightarrow> type_answer result option" where
  "validate_data env execute entity_type entity_data fs unevaluated =
     (let vs1 = structural_check entity_data fs;
          vs2 = (if vs1 = [] then constraint_phase execute entity_data fs else [])
      in map_option (map_sum id (\<lambda>vs3. Validated (vs1 @ vs2 @ vs3 = []) (vs1 @ vs2 @ vs3) unevaluated))
           (narrowing_violations env entity_type entity_data))"

definition op_validate :: "type_env \<Rightarrow> executor \<Rightarrow> val \<Rightarrow> type_answer result option" where
  "op_validate env execute params =
     (case request_body params of
        VDict body \<Rightarrow>
          (case dict_get body ''entity'' of
             VDict entity \<Rightarrow>
               (case (let p = dict_get body ''type_path'' in if truthy p then p else dict_get entity ''type'') of
                  VStr name \<Rightarrow>
                    if name = [] then Some (Inr (Refused 400 ''invalid_request''))
                    else
                      (case resolve_type env name of
                         None \<Rightarrow> Some (Inr (Validated False [structural ''type''] []))
                       | Some d \<Rightarrow>
                           Option.bind (checked_fields (resolve_type env) d)
                             (\<lambda>(fs, unevaluated, e).
                                if e \<noteq> None then Some (Inr (Validated False [structural ''extends''] unevaluated))
                                else (case dict_get entity ''data'' of
                                        VDict entity_data \<Rightarrow>
                                          validate_data env execute (dict_get entity ''type'') entity_data fs unevaluated
                                      | _ \<Rightarrow> Some (Inr (Validated False [structural ''data''] unevaluated)))))
                | _ \<Rightarrow> Some (Inr (Refused 400 ''invalid_request'')))
           | _ \<Rightarrow> Some (Inr (Refused 400 ''invalid_request'')))
      | _ \<Rightarrow> Some (Inl AttributeError))"

subsection \<open>Dispatch\<close>

definition unresolvable :: "type_env \<Rightarrow> string list \<Rightarrow> bool" where
  "unresolvable env names = list_ex (\<lambda>n. resolve_type env (normalize_type_lookup n) = None) names"

text \<open>The strings of a list of at least two strings.\<close>

definition type_paths :: "val \<Rightarrow> string list option" where
  "type_paths v =
     (case v of
        VList xs \<Rightarrow>
          if length xs < 2 \<or> \<not> list_all (\<lambda>x. case x of VStr s \<Rightarrow> True | _ \<Rightarrow> False) xs then None
          else Some (List.map_filter (\<lambda>x. case x of VStr s \<Rightarrow> Some s | _ \<Rightarrow> None) xs)
      | _ \<Rightarrow> None)"

abbreviation bad_request :: "type_answer result option" where
  "bad_request \<equiv> Some (Inr (Refused 400 ''invalid_request''))"

abbreviation no_type :: "type_answer result option" where
  "no_type \<equiv> Some (Inr (Refused 404 ''type_not_found''))"

definition op_compare_dispatch :: "type_env \<Rightarrow> type_def \<Rightarrow> type_answer result option" where
  "op_compare_dispatch env body =
     (case (dict_get body ''type_a'', dict_get body ''type_b'') of
        (VStr a, VStr b) \<Rightarrow>
          if unresolvable env [a, b] then no_type
          else map_option (Inr \<circ> Compared) (op_compare env (resolve_type env) a b)
      | _ \<Rightarrow> bad_request)"

definition op_compatible_dispatch :: "type_env \<Rightarrow> type_def \<Rightarrow> type_answer result option" where
  "op_compatible_dispatch env body =
     (case (dict_get body ''type_a'', dict_get body ''type_b'',
            case map_of body ''direction'' of None \<Rightarrow> VStr ''bidirectional'' | Some d \<Rightarrow> d) of
        (VStr a, VStr b, VStr direction) \<Rightarrow>
          if direction \<notin> {''forward'', ''backward'', ''bidirectional''} then bad_request
          else if unresolvable env [a, b] then no_type
          else map_option (map_sum id Compatibility) (op_compatible env (resolve_type env) a b direction)
      | (VStr a, VStr b, VList xs) \<Rightarrow> Some (Inl TypeError)
      | (VStr a, VStr b, VDict d) \<Rightarrow> Some (Inl TypeError)
      | _ \<Rightarrow> bad_request)"

text \<open>A \<open>ValueError\<close> is answered; nothing else is caught.\<close>

definition value_error_refused :: "type_answer result \<Rightarrow> type_answer result" where
  "value_error_refused r = (if r = Inl ValueError then Inr (Refused 400 ''invalid_request'') else r)"

definition op_converge_dispatch :: "type_env \<Rightarrow> type_def \<Rightarrow> type_answer result option" where
  "op_converge_dispatch env body =
     (case type_paths (dict_get body ''type_paths'') of
        None \<Rightarrow> bad_request
      | Some paths \<Rightarrow>
          if unresolvable env paths then no_type
          else map_option (value_error_refused \<circ> map_sum id (\<lambda>(n, fs). Converged n fs)) (op_converge env (resolve_type env) paths))"

definition op_adopt_dispatch :: "type_env \<Rightarrow> type_def \<Rightarrow> type_answer result option" where
  "op_adopt_dispatch env body =
     (case dict_get body ''source_path'' of
        VStr source \<Rightarrow>
          (case dict_get body ''local_name'' of
             VNull \<Rightarrow>
               if unresolvable env [source] then no_type
               else Some (map_sum id AdoptedType (op_adopt (resolve_type env) (resolve_type env) source None))
           | VStr n \<Rightarrow>
               if unresolvable env [source] then no_type
               else Some (map_sum id AdoptedType (op_adopt (resolve_type env) (resolve_type env) source (Some n)))
           | _ \<Rightarrow> bad_request)
      | _ \<Rightarrow> bad_request)"

definition op_reconcile_dispatch :: "type_env \<Rightarrow> type_def \<Rightarrow> type_answer result option" where
  "op_reconcile_dispatch env body =
     (case type_paths (dict_get body ''type_paths'') of
        None \<Rightarrow> bad_request
      | Some paths \<Rightarrow>
          (case dict_get body ''strategy'' of
             VStr strategy \<Rightarrow>
               if strategy \<notin> {''intersect'', ''union'', ''prefer''} then bad_request
               else if unresolvable env paths then no_type
               else map_option (value_error_refused \<circ> map_sum id (\<lambda>(n, r). Reconciled n r))
                      (op_reconcile env (resolve_type env) paths strategy)
           | VList xs \<Rightarrow> Some (Inl TypeError)
           | VDict d \<Rightarrow> Some (Inl TypeError)
           | _ \<Rightarrow> bad_request))"

definition type_handler :: "type_env \<Rightarrow> executor \<Rightarrow> string \<Rightarrow> val \<Rightarrow> type_answer result option" where
  "type_handler env execute operation params =
     (if operation = ''validate'' then op_validate env execute params
      else
        let run = (\<lambda>f. case request_body params of VDict body \<Rightarrow> f env body | _ \<Rightarrow> Some (Inl AttributeError)) in
        if operation = ''compare'' then run op_compare_dispatch
        else if operation = ''compatible'' then run op_compatible_dispatch
        else if operation = ''converge'' then run op_converge_dispatch
        else if operation = ''adopt'' then run op_adopt_dispatch
        else if operation = ''reconcile'' then run op_reconcile_dispatch
        else Some (Inr (Refused 501 ''unsupported_operation'')))"

end
