(* ===== verification/Type_Soundness.thy ===== *)
theory Type_Soundness
  imports Type_Validation
begin

section \<open>What the type extension guarantees\<close>

text \<open>
  A constraint that narrows another admits no more, so that a type accepted as a narrowing keeps the constraints
  of all its ancestors; validation and analysis agree on the fields of a type; validation ends on a registry of
  named types, and does not on a definition without a name that extends itself.
\<close>

subsection \<open>The standard kinds\<close>

definition satisfies :: "type_env \<Rightarrow> string \<Rightarrow> val \<Rightarrow> val \<Rightarrow> bool" where
  "satisfies env k data value \<longleftrightarrow> dispatch_constraint_kind env value (VStr k) data = Inr Satisfied"

text \<open>What a well-formed constraint of a kind carries.\<close>

definition well_formed :: "string \<Rightarrow> val \<Rightarrow> bool" where
  "well_formed k data =
     (case data of
        VDict d \<Rightarrow>
          if k = kind ''min'' then number (dict_get d ''min'') \<noteq> None
          else if k = kind ''max'' then number (dict_get d ''max'') \<noteq> None
          else if k = kind ''min-length'' then \<exists>n \<ge> 0. dict_get d ''min_length'' = VInt n
          else if k = kind ''max-length'' then \<exists>n \<ge> 0. dict_get d ''max_length'' = VInt n
          else if k = kind ''min-count'' then \<exists>n \<ge> 0. dict_get d ''min_count'' = VInt n
          else if k = kind ''max-count'' then \<exists>n \<ge> 0. dict_get d ''max_count'' = VInt n
          else if k = kind ''pattern'' then \<exists>s. dict_get d ''pattern'' = VStr s
          else if k = kind ''format'' then \<exists>s. dict_get d ''format'' = VStr s
          else if k = kind ''one-of'' \<or> k = kind ''not-one-of'' then \<exists>xs. dict_get d ''values'' = VList xs
          else False
      | _ \<Rightarrow> False)"

text \<open>ECF encodes no other value like a string.\<close>

definition strings_encode :: "(val \<Rightarrow> bytes) \<Rightarrow> bool" where
  "strings_encode ecf \<longleftrightarrow> (\<forall>s v. ecf v = ecf (VStr s) \<longrightarrow> v = VStr s)"

lemma validator_of:
  "map_of (validators env) (kind ''min'') = Some validate_min"
  "map_of (validators env) (kind ''max'') = Some validate_max"
  "map_of (validators env) (kind ''min-length'') = Some validate_min_length"
  "map_of (validators env) (kind ''max-length'') = Some validate_max_length"
  "map_of (validators env) (kind ''min-count'') = Some validate_min_count"
  "map_of (validators env) (kind ''max-count'') = Some validate_max_count"
  "map_of (validators env) (kind ''pattern'') = Some (validate_pattern env)"
  "map_of (validators env) (kind ''one-of'') = Some (validate_one_of env)"
  "map_of (validators env) (kind ''not-one-of'') = Some (validate_not_one_of env)"
  "map_of (validators env) (kind ''format'') = Some (validate_format env)"
  "map_of (validators env) (kind ''type-pattern'') = Some (validate_type_pattern env)"
  by (simp_all add: validators_def kind_def)

lemma kind_inj [simp]: "kind a = kind b \<longleftrightarrow> a = b"
  by (simp add: kind_def)

text \<open>When a bound, an enumeration, a pattern or a format is satisfied.\<close>

lemma bounded_Satisfied:
  "bounded gauge read fld cmp value (VDict d) = Inr Satisfied
     \<longleftrightarrow> (\<exists>n b. gauge value = Some n \<and> read (dict_get d fld) = Some b \<and> cmp b n)"
  by (auto simp: bounded_def split: option.splits)

lemma satisfies_bounds:
  "satisfies env (kind ''min'') (VDict d) v \<longleftrightarrow> (\<exists>n b. number v = Some n \<and> number (dict_get d ''min'') = Some b \<and> b \<le> n)"
  "satisfies env (kind ''max'') (VDict d) v \<longleftrightarrow> (\<exists>n b. number v = Some n \<and> number (dict_get d ''max'') = Some b \<and> n \<le> b)"
  "satisfies env (kind ''min-length'') (VDict d) v
     \<longleftrightarrow> (\<exists>n b. measure_length v = Some n \<and> natural (dict_get d ''min_length'') = Some b \<and> b \<le> n)"
  "satisfies env (kind ''max-length'') (VDict d) v
     \<longleftrightarrow> (\<exists>n b. measure_length v = Some n \<and> natural (dict_get d ''max_length'') = Some b \<and> n \<le> b)"
  "satisfies env (kind ''min-count'') (VDict d) v
     \<longleftrightarrow> (\<exists>n b. collection_size v = Some n \<and> natural (dict_get d ''min_count'') = Some b \<and> b \<le> n)"
  "satisfies env (kind ''max-count'') (VDict d) v
     \<longleftrightarrow> (\<exists>n b. collection_size v = Some n \<and> natural (dict_get d ''max_count'') = Some b \<and> n \<le> b)"
  by (simp_all add: satisfies_def dispatch_constraint_kind_def validator_of bounded_Satisfied
      validate_min_def validate_max_def validate_min_length_def validate_max_length_def validate_min_count_def validate_max_count_def)

lemma satisfies_values:
  "satisfies env (kind ''one-of'') (VDict d) v
     \<longleftrightarrow> (\<exists>xs. dict_get d ''values'' = VList xs \<and> ty_ecf env v \<in> ty_ecf env ` set xs)"
  "satisfies env (kind ''not-one-of'') (VDict d) v
     \<longleftrightarrow> (\<exists>xs. dict_get d ''values'' = VList xs \<and> ty_ecf env v \<notin> ty_ecf env ` set xs)"
  by (auto simp: satisfies_def dispatch_constraint_kind_def validator_of validate_one_of_def validate_not_one_of_def
      ecf_equal_any_def list_ex_iff image_iff eq_commute [of "ty_ecf env v"] split: val.splits)

lemma satisfies_strings:
  "satisfies env (kind ''pattern'') (VDict d) v
     \<longleftrightarrow> (\<exists>s p m. v = VStr s \<and> dict_get d ''pattern'' = VStr p \<and> ty_re2 env p = Some m \<and> m s)"
  "satisfies env (kind ''format'') (VDict d) v
     \<longleftrightarrow> (\<exists>s f m. v = VStr s \<and> dict_get d ''format'' = VStr f \<and> ty_formats env f = Some m \<and> m s)"
  by (auto simp: satisfies_def dispatch_constraint_kind_def validator_of validate_pattern_def validate_format_def
      split: val.splits option.splits)

lemma number_Some [simp]: "number v = Some n \<longleftrightarrow> v = VInt n"
  by (cases v) (auto simp: number_def)

lemma number_VInt [simp]: "number (VInt n) = Some n"
  by (simp add: number_def)

lemma natural_VInt [simp]: "natural (VInt n) = (if n < 0 then None else Some n)"
  by (simp add: natural_def)

subsection \<open>Narrowing\<close>

lemma narrower_bounds:
  "check_min_bound fld (VDict c) (VDict p) = Inr True
     \<longleftrightarrow> (\<exists>x y. dict_get c fld = VInt x \<and> dict_get p fld = VInt y \<and> y \<le> x)"
  "check_max_bound fld (VDict c) (VDict p) = Inr True
     \<longleftrightarrow> (\<exists>x y. dict_get c fld = VInt x \<and> dict_get p fld = VInt y \<and> x \<le> y)"
  by (auto simp: check_min_bound_def check_max_bound_def split: option.splits)

lemma narrower_values:
  "check_subset ecf (VDict c) (VDict p) = Inr True
     \<longleftrightarrow> (\<exists>cv pv. dict_get c ''values'' = VList cv \<and> dict_get p ''values'' = VList pv \<and> ecf ` set cv \<subseteq> ecf ` set pv)"
  "check_superset ecf (VDict c) (VDict p) = Inr True
     \<longleftrightarrow> (\<exists>cv pv. dict_get c ''values'' = VList cv \<and> dict_get p ''values'' = VList pv \<and> ecf ` set pv \<subseteq> ecf ` set cv)"
  by (auto simp: check_subset_def check_superset_def list_all_iff split: val.splits)

lemma narrower_of:
  "is_narrower ecf (kind ''min'') c p = check_min_bound ''min'' c p"
  "is_narrower ecf (kind ''max'') c p = check_max_bound ''max'' c p"
  "is_narrower ecf (kind ''min-length'') c p = check_min_bound ''min_length'' c p"
  "is_narrower ecf (kind ''max-length'') c p = check_max_bound ''max_length'' c p"
  "is_narrower ecf (kind ''min-count'') c p = check_min_bound ''min_count'' c p"
  "is_narrower ecf (kind ''max-count'') c p = check_max_bound ''max_count'' c p"
  "is_narrower ecf (kind ''pattern'') c p = check_equal_field ecf c p ''pattern''"
  "is_narrower ecf (kind ''format'') c p = check_equal_field ecf c p ''format''"
  "is_narrower ecf (kind ''one-of'') c p = check_subset ecf c p"
  "is_narrower ecf (kind ''not-one-of'') c p = check_superset ecf c p"
  "is_narrower ecf (kind ''type-pattern'') c p = check_type_pattern c p"
  by (simp_all add: is_narrower_def)

lemma well_formed_kinds:
  assumes "well_formed k data"
  obtains d where "data = VDict d"
    "(k, \<exists>n. dict_get d ''min'' = VInt n) = (kind ''min'', True)
     \<or> (k, \<exists>n. dict_get d ''max'' = VInt n) = (kind ''max'', True)
     \<or> (k, \<exists>n \<ge> 0. dict_get d ''min_length'' = VInt n) = (kind ''min-length'', True)
     \<or> (k, \<exists>n \<ge> 0. dict_get d ''max_length'' = VInt n) = (kind ''max-length'', True)
     \<or> (k, \<exists>n \<ge> 0. dict_get d ''min_count'' = VInt n) = (kind ''min-count'', True)
     \<or> (k, \<exists>n \<ge> 0. dict_get d ''max_count'' = VInt n) = (kind ''max-count'', True)
     \<or> (k, \<exists>s. dict_get d ''pattern'' = VStr s) = (kind ''pattern'', True)
     \<or> (k, \<exists>s. dict_get d ''format'' = VStr s) = (kind ''format'', True)
     \<or> (k, \<exists>xs. dict_get d ''values'' = VList xs) = (kind ''one-of'', True)
     \<or> (k, \<exists>xs. dict_get d ''values'' = VList xs) = (kind ''not-one-of'', True)"
proof -
  obtain d where d: "data = VDict d" using assms by (cases data) (auto simp: well_formed_def)
  show ?thesis by (rule that [OF d]) (use assms in \<open>simp add: d well_formed_def split: if_splits\<close>)
qed

lemma equal_field_True:
  "strings_encode ecf \<Longrightarrow> check_equal_field ecf (VDict c) (VDict p) fld = Inr True \<Longrightarrow> dict_get p fld = VStr s
     \<Longrightarrow> dict_get c fld = VStr s"
  by (auto simp: check_equal_field_def strings_encode_def)

lemma narrower_dict:
  assumes "is_narrower ecf k child (VDict p) = Inr True" "well_formed k (VDict p)"
  obtains c where "child = VDict c"
proof -
  have "\<exists>c. child = VDict c"
    using assms
    by (cases child) (auto elim!: well_formed_kinds simp: narrower_of check_min_bound_def check_max_bound_def
        check_equal_field_def check_subset_def check_superset_def attr_def)
  with that show ?thesis by blast
qed

lemma narrowing_sound:
  assumes n: "is_narrower (ty_ecf env) k child parent = Inr True" and wf: "well_formed k parent"
    and ecf: "strings_encode (ty_ecf env)" and sat: "satisfies env k child value"
  shows "satisfies env k parent value"
proof -
  obtain p where p: "parent = VDict p" using wf by (rule well_formed_kinds)
  obtain c where c: "child = VDict c" using n wf unfolding p by (rule narrower_dict)
  note facts = n wf sat
  show ?thesis using wf
  proof (rule well_formed_kinds, elim disjE, goal_cases)
    case 7
    then have "\<exists>s. dict_get p ''pattern'' = VStr s" and k: "k = kind ''pattern''" by (auto simp: p)
    then show ?thesis
      using n sat equal_field_True [OF ecf] by (auto simp: p c k narrower_of satisfies_strings)
  next
    case 8
    then have "\<exists>s. dict_get p ''format'' = VStr s" and k: "k = kind ''format''" by (auto simp: p)
    then show ?thesis
      using n sat equal_field_True [OF ecf] by (auto simp: p c k narrower_of satisfies_strings)
  next
    case 9
    then show ?thesis using n sat by (auto simp: p c narrower_of satisfies_values narrower_values dest: subsetD [OF _ imageI])
  next
    case 10
    then show ?thesis using n sat by (auto simp: p c narrower_of satisfies_values narrower_values dest: subsetD [OF _ imageI])
  qed (use n sat in \<open>auto simp: p c narrower_of narrower_bounds satisfies_bounds split: if_splits\<close>)
qed

subsection \<open>The walks up the parents\<close>

text \<open>A registry in which every type is stored under its own name.\<close>

definition named :: "type_resolver \<Rightarrow> bool" where
  "named resolve \<longleftrightarrow> (\<forall>n d. resolve n = Some d \<longrightarrow> own_name d = Some n)"

definition seen_after :: "type_def \<Rightarrow> string list \<Rightarrow> string list" where
  "seen_after d visited = (case own_name d of None \<Rightarrow> visited | Some n \<Rightarrow> n # visited)"

definition seen_before :: "type_def \<Rightarrow> string list \<Rightarrow> bool" where
  "seen_before d visited \<longleftrightarrow> (\<exists>n. own_name d = Some n \<and> n \<in> set visited)"

lemma checked_chain_step:
  "checked_chain resolve cur visited chain =
     (if seen_before cur visited then Some (chain, Some (CycleAt (the (own_name cur))))
      else case parent_name cur of
        None \<Rightarrow> Some (chain @ [cur], None)
      | Some p \<Rightarrow>
          (case resolve p of
             None \<Rightarrow> Some (chain @ [cur], Some (ParentMissing p))
           | Some d \<Rightarrow> checked_chain resolve d (seen_after cur visited) (chain @ [cur])))"
  by (subst checked_chain.simps) (auto simp: seen_before_def seen_after_def split: option.split)

lemma chain_up_step:
  "chain_up resolve cur visited chain =
     (if seen_before cur visited then Some chain
      else case parent_name cur of
        None \<Rightarrow> Some (chain @ [cur])
      | Some p \<Rightarrow>
          (case resolve p of
             None \<Rightarrow> Some (chain @ [cur])
           | Some d \<Rightarrow> chain_up resolve d (seen_after cur visited) (chain @ [cur])))"
  by (subst chain_up.simps) (auto simp: seen_before_def seen_after_def split: option.split)

lemmas checked_chain_induct = checked_chain.raw_induct [rotated, consumes 1, case_names step]
lemmas narrow_up_induct = narrow_up.raw_induct [rotated, consumes 1, case_names step]

text \<open>Both walks see the same definitions.\<close>

lemma chains_agree:
  assumes "checked_chain resolve cur visited chain = Some r"
  shows "chain_up resolve cur visited chain = Some (fst r)"
  using assms
proof (induction rule: checked_chain_induct)
  case (step f resolve cur visited chain r)
  then show ?case
    by (cases r, subst chain_up_step) (auto simp: seen_before_def seen_after_def split: option.splits if_splits)
qed

text \<open>
  A walk without an error collects the type and its ancestors; the verification of narrowing goes the same way and
  reports what comparing each of them with the type reports.
\<close>

definition reports :: "(val \<Rightarrow> bytes) \<Rightarrow> (string \<times> type_def) list \<Rightarrow> type_def list \<Rightarrow> violation list list result" where
  "reports ecf child_fields ancestors = map_r (\<lambda>a. diff_fields ecf child_fields (safe_fields a)) ancestors"

lemma reports_simps [simp]:
  "reports ecf fs [] = Inr []"
  "reports ecf fs (a # as) = bind_r (diff_fields ecf fs (safe_fields a)) (\<lambda>vs. bind_r (reports ecf fs as) (\<lambda>vss. Inr (vs # vss)))"
  by (simp_all add: reports_def)

definition walks :: "(val \<Rightarrow> bytes) \<Rightarrow> type_resolver \<Rightarrow> (string \<times> type_def) list \<Rightarrow> type_def \<Rightarrow> string list \<Rightarrow> type_def list \<Rightarrow> bool" where
  "walks ecf resolve fs cur visited rest \<longleftrightarrow>
     (case parent_name cur of
        None \<Rightarrow> rest = []
      | Some p \<Rightarrow> \<forall>out. narrow_up ecf resolve fs p (seen_after cur visited) out
          = Some (map_sum id (\<lambda>vss. out @ concat vss) (reports ecf fs rest)))"

lemma reports_then:
  "map_sum id (\<lambda>vss. out @ concat vss) (bind_r r (\<lambda>vss. Inr (vs # vss))) = map_sum id (\<lambda>vss. out @ vs @ concat vss) r"
  by (cases r) simp_all

lemma narrow_up_exact:
  assumes "checked_chain resolve cur visited chain = Some r"
  shows "named resolve \<and> snd r = None \<longrightarrow>
    \<not> seen_before cur visited \<and> (\<exists>rest. fst r = chain @ cur # rest \<and> walks ecf resolve fs cur visited rest)"
  using assms
proof (induction rule: checked_chain_induct)
  case (step f resolve cur visited chain r)
  show ?case
  proof
    assume "named resolve \<and> snd r = None"
    then have nm: "named resolve" and ok: "snd r = None" by simp_all
    have body: "(if seen_before cur visited then Some (chain, Some (CycleAt (the (own_name cur))))
      else case parent_name cur of
        None \<Rightarrow> Some (chain @ [cur], None)
      | Some p \<Rightarrow>
          (case resolve p of
             None \<Rightarrow> Some (chain @ [cur], Some (ParentMissing p))
           | Some d \<Rightarrow> f resolve d (seen_after cur visited) (chain @ [cur]))) = Some r"
      using step.hyps by (auto simp: seen_before_def seen_after_def split: option.splits if_splits)
    have fresh: "\<not> seen_before cur visited" using body ok by (auto split: if_splits)
    have "\<exists>rest. fst r = chain @ cur # rest \<and> walks ecf resolve fs cur visited rest"
    proof (cases "parent_name cur")
      case None
      then show ?thesis using body ok by (auto simp: walks_def split: if_splits)
    next
      case (Some p)
      then obtain d where d: "resolve p = Some d" and rec: "f resolve d (seen_after cur visited) (chain @ [cur]) = Some r"
        using body ok by (auto split: if_splits option.splits)
      note ih = step.IH [OF rec, THEN mp, OF conjI [OF nm ok]]
      have unseen: "\<not> seen_before d (seen_after cur visited)" using ih by (rule conjunct1)
      from conjunct2 [OF ih] obtain rest where rest: "fst r = (chain @ [cur]) @ d # rest"
        "walks ecf resolve fs d (seen_after cur visited) rest" by blast
      have n: "own_name d = Some p" using nm d by (simp add: named_def)
      then have new: "p \<notin> set (seen_after cur visited)" and seen: "seen_after d (seen_after cur visited) = p # seen_after cur visited"
        using unseen by (simp_all add: seen_before_def seen_after_def [of d])
      have "walks ecf resolve fs cur visited (d # rest)"
        unfolding walks_def Some using rest(2) new d
        by (subst narrow_up.simps) (auto simp: walks_def seen reports_then split: option.splits sum.splits)
      with rest(1) show ?thesis by auto
    qed
    with fresh show "\<not> seen_before cur visited \<and> (\<exists>rest. fst r = chain @ cur # rest \<and> walks ecf resolve fs cur visited rest)" ..
  qed
qed

lemma verify_narrowing_reports:
  assumes "named resolve" "checked_chain resolve d [] [] = Some (d # ancestors, None)"
  shows "verify_narrowing ecf resolve d = Some (map_sum id concat (reports ecf (safe_fields d) ancestors))"
proof -
  have "walks ecf resolve (safe_fields d) d [] ancestors" using narrow_up_exact [OF assms(2), of ecf "safe_fields d"] assms(1) by simp
  then show ?thesis
    by (auto simp: verify_narrowing_def walks_def seen_after_def split: option.splits)
qed

lemma reports_Nil: "reports ecf fs as = Inr vss \<Longrightarrow> concat vss = [] \<Longrightarrow> a \<in> set as \<Longrightarrow> diff_fields ecf fs (safe_fields a) = Inr []"
  by (induction as arbitrary: vss) (auto simp: bind_r_Inr_iff)

subsection \<open>What comparing establishes\<close>

lemma narrowed_by_any_True:
  "narrowed_by_any ecf k cs p = Inr True \<Longrightarrow> \<exists>c \<in> set cs. is_narrower ecf k c p = Inr True"
  by (induction cs) (auto simp: bind_r_Inr_iff split: if_splits)

lemma of_kind_entry: "c \<in> set (of_kind k cs) \<Longrightarrow> \<exists>x \<in> set cs. entry_of x = Some (k, c)"
  by (induction cs) (auto simp: of_kind_def List.map_filter_simps split: option.splits prod.splits if_splits)

lemma diff_constraints_Nil:
  "diff_constraints ecf f ps cs = Inr [] \<Longrightarrow> c \<in> set ps \<Longrightarrow> entry_of c = Some (k, p)
     \<Longrightarrow> \<exists>x \<in> set cs. \<exists>d. entry_of x = Some (k, d) \<and> is_narrower ecf k d p = Inr True"
proof (induction ps)
  case (Cons q ps)
  have ps: "diff_constraints ecf f ps cs = Inr []"
    using Cons.prems(1) by (cases "entry_of q") (auto simp: bind_r_Inr_iff split: if_splits)
  show ?case
  proof (cases "c = q")
    case True
    then have "narrowed_by_any ecf k (of_kind k cs) p = Inr True"
      using Cons.prems(1,3) by (auto simp: bind_r_Inr_iff split: if_splits)
    then obtain d where "d \<in> set (of_kind k cs)" "is_narrower ecf k d p = Inr True"
      using narrowed_by_any_True by blast
    then show ?thesis using of_kind_entry by blast
  next
    case False
    with Cons.prems Cons.IH [OF ps] show ?thesis by simp
  qed
qed simp

lemma diff_fields_Nil:
  "diff_fields ecf child fs = Inr [] \<Longrightarrow> (f, spec) \<in> set fs \<Longrightarrow>
     diff_constraints ecf f (constraints_of spec) (case map_of child f of None \<Rightarrow> [] | Some s \<Rightarrow> constraints_of s) = Inr []"
proof (induction fs)
  case (Cons x fs)
  then show ?case by (cases x) (auto simp: bind_r_Inr_iff)
qed simp

text \<open>Where the data of all constraints are dictionaries, nothing raises, and what is reported is what is not narrowed.\<close>

definition dict_data :: "val list \<Rightarrow> bool" where
  "dict_data cs \<longleftrightarrow> (\<forall>c \<in> set cs. \<forall>k p. entry_of c = Some (k, p) \<longrightarrow> (\<exists>x. p = VDict x))"

definition dict_constraints :: "(string \<times> type_def) list \<Rightarrow> bool" where
  "dict_constraints fs \<longleftrightarrow> (\<forall>(f, spec) \<in> set fs. dict_data (constraints_of spec))"

definition own_constraints :: "(string \<times> type_def) list \<Rightarrow> string \<Rightarrow> val list" where
  "own_constraints fs f = (case map_of fs f of None \<Rightarrow> [] | Some spec \<Rightarrow> constraints_of spec)"

definition left_open :: "(val \<Rightarrow> bytes) \<Rightarrow> val list \<Rightarrow> val list \<Rightarrow> string \<Rightarrow> bool" where
  "left_open ecf cs ps k \<longleftrightarrow> (\<exists>c \<in> set ps. \<exists>p. entry_of c = Some (k, p) \<and> \<not> (\<exists>q \<in> set (of_kind k cs). is_narrower ecf k q p = Inr True))"

definition field_left_open ::
  "(val \<Rightarrow> bytes) \<Rightarrow> (string \<times> type_def) list \<Rightarrow> (string \<times> type_def) list \<Rightarrow> string \<Rightarrow> string \<Rightarrow> bool" where
  "field_left_open ecf child fs f k \<longleftrightarrow>
     (\<exists>spec. (f, spec) \<in> set fs \<and> left_open ecf (own_constraints child f) (constraints_of spec) k)"

abbreviation unnarrowed :: "string \<Rightarrow> string \<Rightarrow> violation" where
  "unnarrowed f k \<equiv> \<lparr>vi_field = f, vi_kind = ''structural'', vi_constraint = Some k\<rparr>"

lemma left_open_Cons:
  "left_open ecf cs (c # ps) k \<longleftrightarrow>
     (\<exists>p. entry_of c = Some (k, p) \<and> \<not> (\<exists>q \<in> set (of_kind k cs). is_narrower ecf k q p = Inr True)) \<or> left_open ecf cs ps k"
  by (simp add: left_open_def)

lemma field_left_open_Cons:
  "field_left_open ecf child ((g, spec) # fs) f k \<longleftrightarrow>
     f = g \<and> left_open ecf (own_constraints child g) (constraints_of spec) k \<or> field_left_open ecf child fs f k"
  by (auto simp: field_left_open_def)

lemma narrower_total: "\<exists>b. is_narrower ecf k (VDict c) (VDict p) = Inr b"
  by (simp add: is_narrower_def check_min_bound_def check_max_bound_def check_equal_field_def check_subset_def
      check_superset_def check_type_pattern_def)

lemma narrowed_by_any_total:
  "\<forall>c \<in> set cs. \<exists>x. c = VDict x \<Longrightarrow>
     narrowed_by_any ecf k cs (VDict p) = Inr (\<exists>c \<in> set cs. is_narrower ecf k c (VDict p) = Inr True)"
proof (induction cs)
  case (Cons c cs)
  then obtain x where c: "c = VDict x" by auto
  obtain b where "is_narrower ecf k c (VDict p) = Inr b" using narrower_total c by blast
  with Cons show ?case by simp
qed simp

lemma of_kind_dicts: "dict_data cs \<Longrightarrow> \<forall>c \<in> set (of_kind k cs). \<exists>x. c = VDict x"
  using of_kind_entry by (fastforce simp: dict_data_def)

lemma own_dicts: "dict_constraints fs \<Longrightarrow> dict_data (own_constraints fs f)"
proof (cases "map_of fs f")
  case (Some spec)
  assume "dict_constraints fs"
  then show ?thesis using map_of_SomeD [OF Some] Some by (auto simp: own_constraints_def dict_constraints_def)
qed (simp add: own_constraints_def dict_data_def)

lemma diff_constraints_total:
  assumes "dict_data cs"
  shows "dict_data ps \<Longrightarrow> \<exists>vs. diff_constraints ecf f ps cs = Inr vs \<and> set vs = {unnarrowed f k | k. left_open ecf cs ps k}"
proof (induction ps)
  case (Cons c ps)
  then obtain vs where vs: "diff_constraints ecf f ps cs = Inr vs" "set vs = {unnarrowed f k | k. left_open ecf cs ps k}"
    by (auto simp: dict_data_def)
  show ?case
  proof (cases "entry_of c")
    case None
    with vs show ?thesis by (simp add: left_open_Cons)
  next
    case (Some kp)
    then obtain k x where c: "entry_of c = Some (k, VDict x)" using Cons.prems by (cases kp) (auto simp: dict_data_def)
    note n = narrowed_by_any_total [OF of_kind_dicts [OF assms, of k], of ecf k x]
    show ?thesis
    proof (cases "\<exists>q \<in> set (of_kind k cs). is_narrower ecf k q (VDict x) = Inr True")
      case True
      then have "left_open ecf cs (c # ps) j \<longleftrightarrow> left_open ecf cs ps j" for j by (auto simp: left_open_Cons c)
      then show ?thesis using vs c n True by simp
    next
      case False
      then have "left_open ecf cs (c # ps) j \<longleftrightarrow> j = k \<or> left_open ecf cs ps j" for j by (auto simp: left_open_Cons c)
      then have "{unnarrowed f j | j. left_open ecf cs (c # ps) j} = insert (unnarrowed f k) {unnarrowed f j | j. left_open ecf cs ps j}"
        by blast
      then show ?thesis using vs c n False by simp
    qed
  qed
qed (simp add: left_open_def)

lemma diff_fields_total:
  assumes "dict_constraints child"
  shows "dict_constraints fs \<Longrightarrow>
    \<exists>vs. diff_fields ecf child fs = Inr vs \<and> set vs = {unnarrowed f k | f k. field_left_open ecf child fs f k}"
proof (induction fs)
  case (Cons x fs)
  obtain g spec where x: "x = (g, spec)" by (cases x)
  have "dict_data (constraints_of spec)" using Cons.prems by (simp add: x dict_constraints_def)
  from diff_constraints_total [OF own_dicts [OF assms] this] obtain vs where
    vs: "diff_constraints ecf g (constraints_of spec) (own_constraints child g) = Inr vs"
      "set vs = {unnarrowed g k | k. left_open ecf (own_constraints child g) (constraints_of spec) k}" by blast
  from Cons obtain ws where ws: "diff_fields ecf child fs = Inr ws" "set ws = {unnarrowed f k | f k. field_left_open ecf child fs f k}"
    by (auto simp: dict_constraints_def)
  have "{unnarrowed f k | f k. field_left_open ecf child (x # fs) f k} = set (vs @ ws)"
    unfolding set_append vs(2) ws(2) x field_left_open_Cons by blast
  moreover have "diff_fields ecf child (x # fs) = Inr (vs @ ws)" using vs(1) ws(1) by (simp add: x own_constraints_def)
  ultimately show ?case by simp
qed (simp add: field_left_open_def)

lemma reports_total:
  assumes "dict_constraints child"
  shows "\<forall>a \<in> set as. dict_constraints (safe_fields a) \<Longrightarrow> \<exists>vss. reports ecf child as = Inr vss
    \<and> set (concat vss) = {unnarrowed f k | f k. \<exists>a \<in> set as. field_left_open ecf child (safe_fields a) f k}"
proof (induction as)
  case (Cons a as)
  have "dict_constraints (safe_fields a)" using Cons.prems by simp
  from diff_fields_total [OF assms this, of ecf] obtain vs where vs: "diff_fields ecf child (safe_fields a) = Inr vs"
    "set vs = {unnarrowed f k | f k. field_left_open ecf child (safe_fields a) f k}" by (elim exE conjE)
  have "\<exists>vss. reports ecf child as = Inr vss
    \<and> set (concat vss) = {unnarrowed f k | f k. \<exists>a \<in> set as. field_left_open ecf child (safe_fields a) f k}"
    by (rule Cons.IH) (use Cons.prems in simp)
  then obtain vss where vss: "reports ecf child as = Inr vss"
    "set (concat vss) = {unnarrowed f k | f k. \<exists>a \<in> set as. field_left_open ecf child (safe_fields a) f k}" by (elim exE conjE)
  have "{unnarrowed f k | f k. \<exists>b \<in> set (a # as). field_left_open ecf child (safe_fields b) f k} = set (concat (vs # vss))"
    unfolding concat.simps set_append vs(2) vss(2) by auto
  then show ?case using vs(1) vss(1) by simp
qed simp

subsection \<open>Satisfied constraints of an entity\<close>

definition follows_standard :: "type_env \<Rightarrow> executor \<Rightarrow> bool" where
  "follows_standard env execute \<longleftrightarrow> (\<forall>k \<in> fst ` set (validators env). execute k = standard_executor env k)"

lemma or_dict_idem [simp]: "or_dict (or_dict v) = or_dict v"
  by (cases v) (auto simp: or_dict_def)

lemma standard_Satisfied: "standard_executor env k value (or_dict data) = Some Satisfied \<longleftrightarrow> satisfies env k (or_dict data) value"
  by (auto simp: standard_executor_def type_constraint_handler_def request_body_def satisfies_def dict_get_def bind_r_def
      split: sum.splits)

lemma entry_data: "entry_of c = Some (k, d) \<Longrightarrow> or_dict d = d"
  by (auto simp: entry_of_def split: val.splits)

lemma violations_Nil:
  "constraint_violations execute f value c = [] \<longleftrightarrow> (\<exists>k d. entry_of c = Some (k, d) \<and> execute k value d = Some Satisfied)"
  by (auto simp: constraint_violations_def split: option.splits verdict.splits)

lemma phase_Nil:
  "constraint_phase execute ed fs = [] \<longleftrightarrow>
     (\<forall>(f, spec) \<in> set fs. \<forall>value. map_of ed f = Some value \<longrightarrow>
        (\<forall>c \<in> set (constraints_of spec). constraint_violations execute f value c = []))"
  by (auto simp: constraint_phase_def split: option.splits)

lemma well_formed_standard: "well_formed k d \<Longrightarrow> k \<in> fst ` set (validators env)"
  by (elim well_formed_kinds) (auto simp: validators_def)

lemma fold_update: "map_of (fold (\<lambda>(k, v). AList.update k v) xs ys) = map_of ys ++ map_of (rev xs)"
proof (induction xs arbitrary: ys)
  case (Cons x xs)
  then show ?case by (cases x) (auto simp: update_conv' fun_eq_iff map_add_def split: option.splits)
qed simp

lemma own_field_effective:
  assumes "distinct (map fst (safe_fields d))" "map_of (safe_fields d) f = Some spec"
  shows "(f, spec) \<in> set (merge_fields (d # rest))"
proof -
  have "map_of (rev (safe_fields d)) f = Some spec"
    using assms by (intro map_of_is_SomeI) (auto simp: rev_map [symmetric] dest: map_of_SomeD)
  then have "map_of (merge_fields (d # rest)) f = Some spec"
    by (simp add: merge_fields_def fold_update map_add_def)
  then show ?thesis by (rule map_of_SomeD)
qed

subsection \<open>Properties of narrowing\<close>

text \<open>An encoding, a registry with two types and two types without names, for the examples.\<close>

definition sample_ecf :: "val \<Rightarrow> bytes" where
  "sample_ecf v = (case v of VStr s \<Rightarrow> 1 # map (word_of_nat \<circ> of_char) s | VInt n \<Rightarrow> [2, word_of_int n] | _ \<Rightarrow> [0])"

lemma sample_ecf_strings: "strings_encode sample_ecf"
proof -
  have "inj (\<lambda>c. word_of_nat (of_char c) :: byte)"
  proof (rule injI)
    fix a b :: char
    assume "word_of_nat (of_char a) = (word_of_nat (of_char b) :: byte)"
    then have "(of_char a :: nat) mod 256 = of_char b mod 256" by (simp flip: unat_of_nat [where 'a = 8, simplified])
    then show "a = b" by (simp add: mod_less)
  qed
  then have "map (word_of_nat \<circ> of_char) s = (map (word_of_nat \<circ> of_char) t :: bytes) \<longleftrightarrow> s = t" for s t
    by (simp add: inj_map_eq_map comp_def)
  then show ?thesis by (auto simp: strings_encode_def sample_ecf_def split: val.splits)
qed

definition length_of :: "string \<Rightarrow> int \<Rightarrow> type_def" where
  "length_of name n = [(''name'', VStr name), (''fields'', VDict [(''x'', VDict [(''type_ref'', VStr ''primitive/string''),
     (''constraints'', VList [VDict [(''type'', VStr (kind ''max-length'')), (''data'', VDict [(''max_length'', VInt n)])]])])])]"

definition sample_types :: type_env where
  "sample_types =
     \<lparr>ty_store = [([1], \<lparr>te_type = ''system/type'', te_data = VDict (length_of ''a'' 9)\<rparr>),
                  ([2], \<lparr>te_type = ''system/type'', te_data = VDict ((''extends'', VStr ''a'') # length_of ''b'' 5)\<rparr>)],
      ty_tree = et_set ''system/type/b'' [2] (et_set ''system/type/a'' [1] (new_tree ''P'')), ty_ecf = sample_ecf,
      ty_re2 = (\<lambda>p. Some (\<lambda>s. s = p)), ty_formats = (\<lambda>f. None), ty_text = (\<lambda>v. [])\<rparr>"

definition nameless_types :: type_env where
  "nameless_types = sample_types
     \<lparr>ty_store := [([1], \<lparr>te_type = ''system/type'', te_data = VDict [(''extends'', VStr ''a'')]\<rparr>)]\<rparr>"

lemma type_uri: "normalize_uri L (''system/type/'' @ n) = CHR ''/'' # L @ ''/system/type/'' @ n"
proof -
  have "find_from (CHR ''/'') (''system/type/'' @ n) 0 = Some 6" by (simp add: find_from_def)
  moreover have "\<not> is_peer_id ''system''" by code_simp
  ultimately show ?thesis by (simp add: normalize_uri_def ENTITY_SCHEME_def)
qed

lemma sample_tree: "et_tree (ty_tree sample_types) = [(''/P/system/type/a'', [1]), (''/P/system/type/b'', [2])]" "et_local (ty_tree sample_types) = ''P''"
  by code_simp+

lemma resolve_sample:
  "resolve_type sample_types n = (if n = ''a'' then Some (length_of ''a'' 9)
     else if n = ''b'' then Some ((''extends'', VStr ''a'') # length_of ''b'' 5) else None)"
proof -
  have "et_get (ty_tree sample_types) (CHR ''/'' # ''P'' @ ''/system/type/'' @ n) = (if n = ''a'' then Some [1] else if n = ''b'' then Some [2] else None)"
    by (simp add: et_get_def sample_tree normalize_uri_def ENTITY_SCHEME_def)
  then have get: "et_get (ty_tree sample_types) (normalize_uri (et_local (ty_tree sample_types)) (''system/type/'' @ n))
      = (if n = ''a'' then Some [1] else if n = ''b'' then Some [2] else None)" by (simp only: sample_tree type_uri)
  have "cs_get (ty_store sample_types) [1] = Some \<lparr>te_type = ''system/type'', te_data = VDict (length_of ''a'' 9)\<rparr>"
    "cs_get (ty_store sample_types) [2] = Some \<lparr>te_type = ''system/type'', te_data = VDict ((''extends'', VStr ''a'') # length_of ''b'' 5)\<rparr>"
    by (simp_all add: sample_types_def cs_get_def)
  then show ?thesis unfolding resolve_type_def get_type_entity_def get by (simp add: dict_of_val_def)
qed

lemma resolve_nameless: "resolve_type nameless_types ''a'' = Some [(''extends'', VStr ''a'')]"
  by code_simp

lemma sample_named: "named (resolve_type sample_types)"
  by (auto simp: named_def resolve_sample own_name_def length_of_def dict_get_def)

text \<open>
  A constraint that narrows another of its kind admits no value that the other refuses, for every standard
  kind but typed references, when the wider one is well formed.
\<close>

theorem narrower_admits_less:
  assumes "is_narrower (ty_ecf env) k child parent = Inr True" "well_formed k parent" "strings_encode (ty_ecf env)"
    and "dispatch_constraint_kind env value (VStr k) child = Inr Satisfied"
  shows "dispatch_constraint_kind env value (VStr k) parent = Inr Satisfied"
  using narrowing_sound [OF assms(1-3)] assms(4) by (simp add: satisfies_def)

theorem narrower_admits_less_witness:
  "dispatch_constraint_kind sample_types (VInt 6) (VStr (kind ''min'')) (VDict [(''min'', VInt 3)]) = Inr Satisfied"
proof -
  have "is_narrower (ty_ecf sample_types) (kind ''min'') (VDict [(''min'', VInt 5)]) (VDict [(''min'', VInt 3)]) = Inr True"
    "dispatch_constraint_kind sample_types (VInt 6) (VStr (kind ''min'')) (VDict [(''min'', VInt 5)]) = Inr Satisfied"
    by code_simp+
  moreover have "well_formed (kind ''min'') (VDict [(''min'', VInt 3)])" by (simp add: well_formed_def dict_get_def)
  moreover have "strings_encode (ty_ecf sample_types)" by (simp add: sample_types_def sample_ecf_strings)
  ultimately show ?thesis using narrower_admits_less [of sample_types] by blast
qed

text \<open>
  C25. A type whose narrowing is accepted keeps the constraints of its ancestors: on a registry where types
  have their own names, data that meets the constraints of the type meets those of every ancestor all of whose
  constraints are well formed and of the standard kinds other than \<open>type-pattern\<close>. For reference patterns it fails, as
  \<open>longer_exact_pattern_disjoint\<close> shows, and of custom kinds nothing is said.
\<close>

theorem narrowed_type_keeps_constraints:
  assumes "named (resolve_type env)" "strings_encode (ty_ecf env)" "follows_standard env execute"
    and "checked_chain (resolve_type env) d [] [] = Some (d # ancestors, None)"
    and "verify_narrowing (ty_ecf env) (resolve_type env) d = Some (Inr [])"
    and "distinct (map fst (safe_fields d))"
    and "constraint_phase execute ed (merge_fields (d # ancestors)) = []"
    and "a \<in> set ancestors"
    and "\<forall>(f, spec) \<in> set (safe_fields a). \<forall>c \<in> set (constraints_of spec). \<exists>k p. entry_of c = Some (k, p) \<and> well_formed k p"
  shows "constraint_phase execute ed (safe_fields a) = []"
proof -
  have dn: "diff_fields (ty_ecf env) (safe_fields d) (safe_fields a) = Inr []"
    using verify_narrowing_reports [OF assms(1,4), of "ty_ecf env"] assms(5) reports_Nil [OF _ _ assms(8)]
    by (cases "reports (ty_ecf env) (safe_fields d) ancestors") auto
  have "constraint_violations execute f v c = []"
    if f: "(f, spec) \<in> set (safe_fields a)" "map_of ed f = Some v" "c \<in> set (constraints_of spec)" for f spec v c
  proof -
    obtain k p where c: "entry_of c = Some (k, p)" "well_formed k p" using assms(9) f by blast
    from diff_constraints_Nil [OF diff_fields_Nil [OF dn f(1)] f(3) c(1)]
    obtain s x q where x: "map_of (safe_fields d) f = Some s" "x \<in> set (constraints_of s)" "entry_of x = Some (k, q)"
      "is_narrower (ty_ecf env) k q p = Inr True" by (cases "map_of (safe_fields d) f") auto
    have "constraint_violations execute f v x = []"
      using own_field_effective [OF assms(6) x(1), of ancestors] assms(7) f(2) x(2) by (fastforce simp: phase_Nil)
    moreover have ex: "execute k = standard_executor env k"
      using assms(3) well_formed_standard [OF c(2), of env] unfolding follows_standard_def by blast
    ultimately have "satisfies env k q v"
      using x(3) standard_Satisfied [of env k v q] by (simp add: violations_Nil entry_data [OF x(3)])
    then have "satisfies env k p v" by (rule narrowing_sound [OF x(4) c(2) assms(2)])
    then show ?thesis
      using c(1) ex standard_Satisfied [of env k v p] by (simp add: violations_Nil entry_data [OF c(1)])
  qed
  then show ?thesis by (auto simp: phase_Nil)
qed

theorem narrowed_type_keeps_constraints_witness:
  "constraint_phase (standard_executor sample_types) [(''x'', VStr ''abc'')] (safe_fields (length_of ''a'' 9)) = []"
proof -
  let ?a = "length_of ''a'' 9" and ?b = "(''extends'', VStr ''a'') # length_of ''b'' 5"
  have r: "resolve_type sample_types = (\<lambda>n. if n = ''a'' then Some ?a else if n = ''b'' then Some ?b else None)"
    by (rule ext) (rule resolve_sample)
  have names: "own_name ?b = Some ''b''" "parent_name ?b = Some ''a''" "own_name ?a = Some ''a''" "parent_name ?a = None" by code_simp+
  have chain: "checked_chain (resolve_type sample_types) ?b [] [] = Some ([?b, ?a], None)"
    by (simp add: checked_chain.simps r names)
  have diff: "diff_fields (ty_ecf sample_types) (safe_fields ?b) (safe_fields ?a) = Inr []" by code_simp
  have narrow: "verify_narrowing (ty_ecf sample_types) (resolve_type sample_types) ?b = Some (Inr [])"
    by (simp add: verify_narrowing_def narrow_up.simps [of _ _ _ "''a''"] r names diff)
  have phase: "constraint_phase (standard_executor sample_types) [(''x'', VStr ''abc'')] (merge_fields [?b, ?a]) = []" by code_simp
  have "strings_encode (ty_ecf sample_types)" by (simp add: sample_types_def sample_ecf_strings)
  moreover have "follows_standard sample_types (standard_executor sample_types)" by (simp add: follows_standard_def)
  moreover have "distinct (map fst (safe_fields ?b))" by code_simp
  moreover have "\<forall>(f, spec) \<in> set (safe_fields ?a). \<forall>c \<in> set (constraints_of spec). \<exists>k p. entry_of c = Some (k, p) \<and> well_formed k p"
  proof -
    have "safe_fields ?a = [(''x'', [(''type_ref'', VStr ''primitive/string''),
        (''constraints'', VList [VDict [(''type'', VStr (kind ''max-length'')), (''data'', VDict [(''max_length'', VInt 9)])]])])]"
      by code_simp
    then show ?thesis by (simp add: constraints_of_def dict_get_def entry_of_def or_dict_def well_formed_def)
  qed
  ultimately show ?thesis
    using narrowed_type_keeps_constraints [OF sample_named _ _ chain narrow _ phase] by simp
qed

text \<open>
  C29. Narrowing decides by constraints alone, and reports exactly what it should: where the data of constraints are
  dictionaries, the verification returns one report for every field and kind of constraint that an ancestor, however
  far up, has on a field, and that no constraint of this kind on the type's own definition of the field narrows. A
  field that is inherited without being repeated has no constraints of its own, so it is reported; what else a
  definition says of a field (its type, whether it is optional) is not looked at.
\<close>

theorem narrowing_exact:
  assumes "named resolve" "checked_chain resolve d [] [] = Some (d # ancestors, None)"
    and "\<forall>t \<in> set (d # ancestors). dict_constraints (safe_fields t)"
  shows "\<exists>vs. verify_narrowing ecf resolve d = Some (Inr vs)
    \<and> set vs = {\<lparr>vi_field = f, vi_kind = ''structural'', vi_constraint = Some k\<rparr> | f k.
        \<exists>a \<in> set ancestors. \<exists>spec. (f, spec) \<in> set (safe_fields a) \<and> (\<exists>c \<in> set (constraints_of spec). \<exists>p. entry_of c = Some (k, p)
          \<and> \<not> (\<exists>q \<in> set (of_kind k (case map_of (safe_fields d) f of None \<Rightarrow> [] | Some s \<Rightarrow> constraints_of s)).
                 is_narrower ecf k q p = Inr True))}"
proof -
  obtain vss where v: "reports ecf (safe_fields d) ancestors = Inr vss"
    "set (concat vss) = {unnarrowed f k | f k. \<exists>a \<in> set ancestors. field_left_open ecf (safe_fields d) (safe_fields a) f k}"
    using reports_total [of "safe_fields d" ancestors ecf] assms(3) by auto
  have "verify_narrowing ecf resolve d = Some (Inr (concat vss))"
    by (simp add: verify_narrowing_reports [OF assms(1,2)] v(1))
  with v(2) show ?thesis unfolding field_left_open_def left_open_def own_constraints_def by (intro exI conjI)
qed

theorem narrowing_exact_witness:
  "\<exists>vs. verify_narrowing sample_ecf (resolve_type sample_types) [(''name'', VStr ''c''), (''extends'', VStr ''a'')] = Some (Inr vs)
    \<and> set vs = {\<lparr>vi_field = ''x'', vi_kind = ''structural'', vi_constraint = Some (kind ''max-length'')\<rparr>}"
proof -
  let ?a = "length_of ''a'' 9" and ?d = "[(''name'', VStr ''c''), (''extends'', VStr ''a'')]"
  have "own_name ?d = Some ''c''" "parent_name ?d = Some ''a''" "own_name ?a = Some ''a''" "parent_name ?a = None" by code_simp+
  then have chain: "checked_chain (resolve_type sample_types) ?d [] [] = Some ([?d, ?a], None)"
    by (simp add: checked_chain.simps resolve_sample)
  have fs: "safe_fields ?d = []" "safe_fields ?a = [(''x'', [(''type_ref'', VStr ''primitive/string''),
      (''constraints'', VList [VDict [(''type'', VStr (kind ''max-length'')), (''data'', VDict [(''max_length'', VInt 9)])]])])]"
    by code_simp+
  have "\<forall>t \<in> set [?d, ?a]. dict_constraints (safe_fields t)"
    by (simp add: fs dict_constraints_def dict_data_def constraints_of_def dict_get_def entry_of_def or_dict_def)
  from narrowing_exact [OF sample_named chain this, of sample_ecf] show ?thesis
    by (simp add: fs constraints_of_def dict_get_def entry_of_def of_kind_def List.map_filter_simps)
qed

subsection \<open>Ending\<close>

lemma named_finite:
  assumes "named (resolve_type env)"
  shows "finite {n. resolve_type env n \<noteq> None}"
proof (rule finite_subset)
  let ?name = "\<lambda>e. case te_data e of VDict d \<Rightarrow> own_name d | _ \<Rightarrow> None"
  have "n \<in> the ` ?name ` snd ` set (ty_store env)" if n: "resolve_type env n = Some d" for n d
  proof -
    obtain e where e: "get_type_entity n (ty_store env) (ty_tree env) = Some e" "te_data e = VDict d"
      using n by (auto simp: resolve_type_def dict_of_val_def split: option.splits val.splits)
    then have "e \<in> snd ` set (ty_store env)"
      by (auto simp: get_type_entity_def cs_get_def image_iff split: option.splits dest!: map_of_SomeD) force
    moreover have "the (?name e) = n" using e(2) n assms by (auto simp: named_def)
    ultimately show ?thesis by force
  qed
  then show "{n. resolve_type env n \<noteq> None} \<subseteq> the ` ?name ` snd ` set (ty_store env)" by auto
qed simp

text \<open>Along a walk the names resolved are new, and there are finitely many.\<close>

lemma fewer_left:
  "finite N \<Longrightarrow> p \<in> N \<Longrightarrow> p \<notin> set visited \<Longrightarrow> card (N - set (p # visited)) < card (N - set visited)"
  by (rule psubset_card_mono) auto

lemma checked_chain_ends:
  assumes "named resolve" "finite {n. resolve n \<noteq> None}"
  shows "\<exists>r. checked_chain resolve d visited chain = Some r"
proof -
  let ?N = "{n. resolve n \<noteq> None}"
  have rec: "\<exists>r. checked_chain resolve d visited chain = Some r" if "own_name d = Some n" "n \<in> ?N" for d n visited chain
    using that
  proof (induction "card (?N - set visited)" arbitrary: d n visited chain rule: less_induct)
    case less
    show ?case
    proof (cases "n \<in> set visited \<or> parent_name d = None \<or> resolve (the (parent_name d)) = None")
      case True
      then show ?thesis using less.prems(1) by (subst checked_chain_step) (auto simp: seen_before_def split: option.splits)
    next
      case False
      then obtain p d' where p: "n \<notin> set visited" "parent_name d = Some p" "resolve p = Some d'" by auto
      have "card (?N - set (n # visited)) < card (?N - set visited)"
        using fewer_left [OF assms(2) less.prems(2) p(1)] .
      from less.hyps [OF this, of d' p "chain @ [d]"] p(3) assms(1) p less.prems(1) show ?thesis
        by (subst checked_chain_step) (auto simp: seen_before_def seen_after_def named_def)
    qed
  qed
  show ?thesis
  proof (cases "seen_before d visited \<or> parent_name d = None \<or> resolve (the (parent_name d)) = None")
    case True
    then show ?thesis by (subst checked_chain_step) (auto split: option.splits)
  next
    case False
    then obtain p d' where p: "\<not> seen_before d visited" "parent_name d = Some p" "resolve p = Some d'" by auto
    then have "own_name d' = Some p" "p \<in> ?N" using assms(1) by (auto simp: named_def)
    from rec [OF this, of "seen_after d visited" "chain @ [d]"] p show ?thesis by (subst checked_chain_step) simp
  qed
qed

lemma narrow_up_ends:
  assumes "finite {n. resolve n \<noteq> None}"
  shows "\<exists>r. narrow_up ecf resolve child p visited out = Some r"
proof (induction "card ({n. resolve n \<noteq> None} - set visited)" arbitrary: p visited out rule: less_induct)
  case less
  show ?case
  proof (cases "p \<in> set visited \<or> resolve p = None")
    case True
    then show ?thesis by (subst narrow_up.simps) auto
  next
    case False
    then obtain d where d: "p \<notin> set visited" "resolve p = Some d" by auto
    then have "card ({n. resolve n \<noteq> None} - set (p # visited)) < card ({n. resolve n \<noteq> None} - set visited)"
      by (intro fewer_left assms) auto
    then have "\<exists>r. narrow_up ecf resolve child q (p # visited) out' = Some r" for q out' by (rule less.hyps)
    with d show ?thesis by (subst narrow_up.simps) (auto split: option.splits sum.splits)
  qed
qed

text \<open>
  C27. Validation ends, with an answer or an exception, whatever is asked, on a registry in which every type is
  stored under its own name.
\<close>

theorem validation_ends:
  assumes "named (resolve_type env)"
  shows "\<exists>r. op_validate env execute params = Some r"
proof -
  note fin = named_finite [OF assms]
  have "checked_fields (resolve_type env) d \<noteq> None" for d
    using checked_chain_ends [OF assms fin, of d "[]" "[]"] by (auto simp: checked_fields_def)
  then have "\<forall>d. \<exists>r. checked_fields (resolve_type env) d = Some r" by (simp only: not_None_eq) blast
  from choice [OF this] obtain cf where cf: "\<And>d. checked_fields (resolve_type env) d = Some (cf d)" by blast
  have vn: "\<exists>r. verify_narrowing (ty_ecf env) (resolve_type env) d = Some r" for d
    using narrow_up_ends [OF fin] by (auto simp: verify_narrowing_def split: option.splits)
  have "\<exists>r. validate_data env execute t ed fs u = Some r" for t ed fs u
    using vn [of ed] by (auto simp: validate_data_def narrowing_violations_def Let_def)
  then obtain vd where vd: "\<And>t ed fs u. validate_data env execute t ed fs u = Some (vd t ed fs u)" by metis
  show ?thesis
    by (auto simp: op_validate_def cf vd Let_def split: val.splits option.splits prod.splits)
qed

theorem validation_ends_witness:
  "\<exists>r. op_validate sample_types (standard_executor sample_types)
     (VDict [(''entity'', VDict [(''type'', VStr ''b''), (''data'', VDict [(''x'', VStr ''abc'')])])]) = Some r"
  by (rule validation_ends [OF sample_named])

lemma nameless_loops:
  assumes "checked_chain resolve d visited chain = Some r"
  shows "parent_name d = Some n \<and> resolve n = Some d \<longrightarrow> own_name d \<noteq> None"
  using assms
proof (induction rule: checked_chain_induct)
  case (step f resolve d visited chain r)
  show ?case
    using step.hyps step.IH [of resolve d visited "chain @ [d]" r] by (auto split: option.splits if_splits)
qed

text \<open>
  C28. A definition without a name that extends the type it is stored as is walked for ever: validating any
  entity against it never returns. The guard against cycles goes by the \<open>name\<close> that definitions give
  themselves, while the walk goes by the name they are stored under.
\<close>

theorem nameless_type_never_validates:
  assumes "resolve_type env n = Some d" "own_name d = None" "parent_name d = Some n" "n \<noteq> []"
  shows "op_validate env execute (VDict [(''entity'', VDict [(''type'', VStr n), (''data'', ed)])]) = None"
proof -
  have "checked_chain (resolve_type env) d [] [] = None"
    using nameless_loops [of "resolve_type env" d "[]" "[]" _ n] assms
    by (cases "checked_chain (resolve_type env) d [] []") auto
  then have "checked_fields (resolve_type env) d = None" by (simp add: checked_fields_def)
  with assms show ?thesis by (simp add: op_validate_def request_body_def dict_get_def)
qed

theorem nameless_type_never_validates_witness:
  "op_validate nameless_types (standard_executor nameless_types) (VDict [(''entity'', VDict [(''type'', VStr ''a''), (''data'', VDict [])])]) = None"
  by (rule nameless_type_never_validates [OF resolve_nameless]) (simp_all add: own_name_def parent_name_def dict_get_def)



end
