(* ===== verification/Type_Merging.thy ===== *)
theory Type_Merging
  imports Type_Soundness
begin

section \<open>What merging and comparing types keeps\<close>

text \<open>
  What the merges of \<open>entity_handlers/type_analysis.py\<close> do to the values a constraint admits, and what its
  compatibility report says of the data two types admit.
\<close>

subsection \<open>Merged constraints\<close>

text \<open>A constraint as a merge is given it: a dictionary with a kind and data.\<close>

definition admits :: "type_env \<Rightarrow> string \<Rightarrow> type_def \<Rightarrow> val \<Rightarrow> bool" where
  "admits env k c v \<longleftrightarrow> dispatch_constraint_kind env v (VStr k) (or_dict (dict_get c ''data'')) = Inr Satisfied"

lemma well_formed_data:
  assumes "well_formed k (or_dict (dict_get c ''data''))"
  obtains d where "map_of c ''data'' = Some (VDict d)" "or_dict (dict_get c ''data'') = VDict d"
proof -
  obtain d where d: "or_dict (dict_get c ''data'') = VDict d" using assms by (rule well_formed_kinds)
  have "d \<noteq> []"
    using assms unfolding d by (elim well_formed_kinds) (auto simp: dict_get_def)
  then have "dict_get c ''data'' = VDict d" using d by (auto simp: or_dict_def split: if_splits)
  with that d show ?thesis by (auto simp: dict_get_def split: option.splits)
qed

lemma last_parts: "last_part (kind ''min'') = ''min''" "last_part (kind ''max'') = ''max''"
  "last_part (kind ''min-length'') = ''min-length''" "last_part (kind ''max-length'') = ''max-length''"
  "last_part (kind ''min-count'') = ''min-count''" "last_part (kind ''max-count'') = ''max-count''"
  by code_simp+

definition bound_at :: "string \<Rightarrow> type_def \<Rightarrow> int" where
  "bound_at fld c = (case data_or_empty c of VDict d \<Rightarrow> (case dict_get d fld of VInt n \<Rightarrow> n | _ \<Rightarrow> 0) | _ \<Rightarrow> 0)"

lemma merge_bounds_exact:
  assumes "\<forall>c \<in> set items. \<exists>d. data_or_empty c = VDict d \<and> (\<exists>n. dict_get d (last_part k) = VInt n)" "items \<noteq> []"
  shows "merge_bounds pick k items =
    Inr (Some [(''type'', VStr k), (''data'', VDict [(last_part k, VInt (pick (map (bound_at (last_part k)) items)))])])"
proof -
  have "map_r (\<lambda>c. attr (data_or_empty c) (last_part k)) items = Inr (map (\<lambda>c. VInt (bound_at (last_part k) c)) items)"
    by (rule map_r_Inr) (use assms(1) in \<open>auto simp: bound_at_def\<close>)
  moreover have "List.map_filter number (map (\<lambda>c. VInt (bound_at (last_part k) c)) items) = map (bound_at (last_part k)) items"
    by (induction items) (simp_all add: List.map_filter_simps)
  ultimately show ?thesis using assms(2) by (simp add: merge_bounds_def)
qed

definition values_at :: "type_def \<Rightarrow> val list" where
  "values_at c = (case data_or_empty c of VDict d \<Rightarrow> (case dict_get d ''values'' of VList xs \<Rightarrow> xs | _ \<Rightarrow> []) | _ \<Rightarrow> [])"

lemma distinct_common_exact:
  "ecf ` set (distinct_common ecf common vs) = common \<inter> ecf ` set vs"
proof -
  have "ecf ` set (fold (\<lambda>v acc. if ecf v \<in> common \<and> \<not> list_ex (\<lambda>x. ecf v = ecf x) acc then acc @ [v] else acc) vs acc)
      = ecf ` set acc \<union> (common \<inter> ecf ` set vs)" for acc
  proof (induction vs arbitrary: acc)
    case (Cons v vs)
    show ?case
    proof (cases "ecf v \<in> common \<and> \<not> list_ex (\<lambda>x. ecf v = ecf x) acc")
      case True
      then show ?thesis by (simp del: list_ex_iff add: Cons.IH)
    next
      case False
      then have "ecf v \<in> common \<Longrightarrow> ecf v \<in> ecf ` set acc" by (auto simp: list_ex_iff)
      then have "ecf ` set acc \<union> (common \<inter> ecf ` set vs) = ecf ` set acc \<union> (common \<inter> insert (ecf v) (ecf ` set vs))" by blast
      with False show ?thesis by (simp only: fold_simps if_False Cons.IH list.set image_insert)
    qed
  qed simp
  then show ?thesis by (simp add: distinct_common_def)
qed

lemma fold_Int: "fold (\<inter>) As A = A \<inter> \<Inter> (set As)"
  by (induction As arbitrary: A) auto

lemma merge_values_exact:
  assumes "\<forall>c \<in> set items. \<exists>d. data_or_empty c = VDict d \<and> (\<exists>xs. dict_get d ''values'' = VList xs)" "items \<noteq> []"
  shows "\<exists>xs. merge_values ecf intersecting k items = Inr (Some [(''type'', VStr k), (''data'', VDict [(''values'', VList xs)])])
    \<and> ecf ` set xs = (if intersecting then \<Inter>c \<in> set items. ecf ` set (values_at c) else \<Union>c \<in> set items. ecf ` set (values_at c))"
proof -
  have l: "map_r listed_values items = Inr (map values_at items)"
  proof (rule map_r_Inr)
    fix c assume "c \<in> set items"
    then obtain d xs where "data_or_empty c = VDict d" "dict_get d ''values'' = VList xs" using assms(1) by blast
    then show "listed_values c = Inr (values_at c)"
      by (auto simp: listed_values_def values_at_def items_of_def dict_get_def split: option.splits)
  qed
  define encoded where "encoded = map (\<lambda>vs. ecf ` set vs) (map values_at items)"
  define common where "common = (if intersecting then fold (\<inter>) (tl encoded) (hd encoded) else \<Union> (set encoded))"
  have ne: "encoded \<noteq> []" using assms(2) by (simp add: encoded_def)
  have set: "set encoded = (\<lambda>c. ecf ` set (values_at c)) ` set items" by (auto simp: encoded_def)
  have com: "common = (if intersecting then \<Inter> (set encoded) else \<Union> (set encoded))"
    using ne by (cases encoded) (simp_all add: common_def fold_Int)
  have "ecf ` set (concat (map values_at items)) = \<Union> (set encoded)" by (auto simp: set)
  moreover have "common \<subseteq> \<Union> (set encoded)" using ne by (cases encoded) (auto simp: com)
  ultimately have "ecf ` set (distinct_common ecf common (concat (map values_at items))) = common"
    by (simp add: distinct_common_exact Int_absorb2)
  moreover have "merge_values ecf intersecting k items = Inr (Some [(''type'', VStr k), (''data'',
      VDict [(''values'', VList (distinct_common ecf common (concat (map values_at items))))])])"
    by (simp add: merge_values_def l Let_def encoded_def common_def)
  ultimately show ?thesis by (simp add: com set)
qed

lemma same_number:
  "items \<noteq> [] \<Longrightarrow> (\<forall>c \<in> set items. \<exists>n. v = VInt n \<and> P c n) \<longleftrightarrow> (\<exists>n. v = VInt n \<and> (\<forall>c \<in> set items. P c n))"
  by (cases items) auto

text \<open>
  C26. Merged constraints mean what they say: the most restrictive merge of well-formed minima, maxima, enumerations
  or exclusions admits exactly the values that all of them admit, the least restrictive one those that some
  admits.
\<close>

theorem merged_constraint_exact:
  assumes "k \<in> {kind ''min'', kind ''max'', kind ''one-of'', kind ''not-one-of''}" "items \<noteq> []"
    and "\<forall>c \<in> set items. well_formed k (or_dict (dict_get c ''data''))"
  shows "\<exists>m. merge_kind (ty_ecf env) k items restrictive = Inr (Some m)
    \<and> (\<forall>v. admits env k m v = (if restrictive then \<forall>c \<in> set items. admits env k c v else \<exists>c \<in> set items. admits env k c v))"
proof -
  have data: "\<exists>d. data_or_empty c = VDict d \<and> or_dict (dict_get c ''data'') = VDict d \<and> well_formed k (VDict d)"
    if "c \<in> set items" for c
  proof -
    have w: "well_formed k (or_dict (dict_get c ''data''))" using assms(3) that by blast
    then show ?thesis by (rule well_formed_data) (use w in \<open>auto simp: data_or_empty_def\<close>)
  qed
  have ad: "admits env j c v = satisfies env j (or_dict (dict_get c ''data'')) v" for j c v
    by (simp add: admits_def satisfies_def)
  have fin: "finite (f ` set items)" "f ` set items \<noteq> {}" for f :: "type_def \<Rightarrow> int" using assms(2) by auto
  consider "k = kind ''min''" | "k = kind ''max''" | "k = kind ''one-of''" | "k = kind ''not-one-of''" using assms(1) by auto
  then show ?thesis
  proof cases
    case 1
    then have b: "\<exists>d. data_or_empty c = VDict d \<and> or_dict (dict_get c ''data'') = VDict d \<and> dict_get d ''min'' = VInt (bound_at ''min'' c)"
      if "c \<in> set items" for c using data [OF that] by (auto simp: well_formed_def bound_at_def)
    have sat: "admits env k c v \<longleftrightarrow> (\<exists>n. v = VInt n \<and> bound_at ''min'' c \<le> n)" if "c \<in> set items" for c v
      using b [OF that] unfolding ad 1 by (auto simp: satisfies_bounds)
    let ?pick = "if restrictive then Max \<circ> set else Min \<circ> set :: int list \<Rightarrow> int"
    let ?m = "[(''type'', VStr k), (''data'', VDict [(''min'', VInt (?pick (map (bound_at ''min'') items)))])]"
    have b': "\<forall>c \<in> set items. \<exists>d. data_or_empty c = VDict d \<and> (\<exists>n. dict_get d ''min'' = VInt n)"
      using b by blast
    have m: "merge_kind (ty_ecf env) k items restrictive = Inr (Some ?m)"
      using merge_bounds_exact [of items "kind ''min''" ?pick, unfolded last_parts, OF b' assms(2)]
      unfolding 1 merge_kind_def by (cases restrictive) simp_all
    have "admits env k ?m v \<longleftrightarrow> (\<exists>n. v = VInt n \<and> ?pick (map (bound_at ''min'') items) \<le> n)" for v
      unfolding ad 1 by (simp add: satisfies_bounds dict_get_def or_dict_def)
    then have "\<forall>v. admits env k ?m v
        = (if restrictive then \<forall>c \<in> set items. admits env k c v else \<exists>c \<in> set items. admits env k c v)"
      using fin [of "bound_at ''min''"] assms(2) by (auto simp: sat same_number Max_le_iff Min_le_iff)
    with m show ?thesis by blast
  next
    case 2
    then have b: "\<exists>d. data_or_empty c = VDict d \<and> or_dict (dict_get c ''data'') = VDict d \<and> dict_get d ''max'' = VInt (bound_at ''max'' c)"
      if "c \<in> set items" for c using data [OF that] by (auto simp: well_formed_def bound_at_def)
    have sat: "admits env k c v \<longleftrightarrow> (\<exists>n. v = VInt n \<and> n \<le> bound_at ''max'' c)" if "c \<in> set items" for c v
      using b [OF that] unfolding ad 2 by (auto simp: satisfies_bounds)
    let ?pick = "if restrictive then Min \<circ> set else Max \<circ> set :: int list \<Rightarrow> int"
    let ?m = "[(''type'', VStr k), (''data'', VDict [(''max'', VInt (?pick (map (bound_at ''max'') items)))])]"
    have b': "\<forall>c \<in> set items. \<exists>d. data_or_empty c = VDict d \<and> (\<exists>n. dict_get d ''max'' = VInt n)"
      using b by blast
    have m: "merge_kind (ty_ecf env) k items restrictive = Inr (Some ?m)"
      using merge_bounds_exact [of items "kind ''max''" ?pick, unfolded last_parts, OF b' assms(2)]
      unfolding 2 merge_kind_def by (cases restrictive) simp_all
    have "admits env k ?m v \<longleftrightarrow> (\<exists>n. v = VInt n \<and> n \<le> ?pick (map (bound_at ''max'') items))" for v
      unfolding ad 2 by (simp add: satisfies_bounds dict_get_def or_dict_def)
    then have "\<forall>v. admits env k ?m v
        = (if restrictive then \<forall>c \<in> set items. admits env k c v else \<exists>c \<in> set items. admits env k c v)"
      using fin [of "bound_at ''max''"] assms(2) by (auto simp: sat same_number Min_ge_iff Max_ge_iff)
    with m show ?thesis by blast
  next
    case 3
    then have v: "\<exists>d. data_or_empty c = VDict d \<and> or_dict (dict_get c ''data'') = VDict d \<and> dict_get d ''values'' = VList (values_at c)"
      if "c \<in> set items" for c using data [OF that] by (auto simp: well_formed_def values_at_def)
    have sat: "admits env k c v \<longleftrightarrow> ty_ecf env v \<in> ty_ecf env ` set (values_at c)" if "c \<in> set items" for c v
      using v [OF that] unfolding ad 3 by (auto simp: satisfies_values)
    obtain xs where xs: "merge_values (ty_ecf env) restrictive k items = Inr (Some [(''type'', VStr k), (''data'', VDict [(''values'', VList xs)])])"
      "ty_ecf env ` set xs = (if restrictive then \<Inter>c \<in> set items. ty_ecf env ` set (values_at c)
         else \<Union>c \<in> set items. ty_ecf env ` set (values_at c))"
      using merge_values_exact [of items "ty_ecf env" restrictive k] v assms(2) by blast
    have "admits env k [(''type'', VStr k), (''data'', VDict [(''values'', VList xs)])] v \<longleftrightarrow> ty_ecf env v \<in> ty_ecf env ` set xs" for v
      unfolding ad 3 by (simp add: satisfies_values dict_get_def or_dict_def)
    then have "\<forall>v. admits env k [(''type'', VStr k), (''data'', VDict [(''values'', VList xs)])] v
        = (if restrictive then \<forall>c \<in> set items. admits env k c v else \<exists>c \<in> set items. admits env k c v)"
      by (simp add: xs(2) sat)
    with xs(1) 3 show ?thesis by (simp add: merge_kind_def)
  next
    case 4
    then have v: "\<exists>d. data_or_empty c = VDict d \<and> or_dict (dict_get c ''data'') = VDict d \<and> dict_get d ''values'' = VList (values_at c)"
      if "c \<in> set items" for c using data [OF that] by (auto simp: well_formed_def values_at_def)
    have sat: "admits env k c v \<longleftrightarrow> ty_ecf env v \<notin> ty_ecf env ` set (values_at c)" if "c \<in> set items" for c v
      using v [OF that] unfolding ad 4 by (auto simp: satisfies_values)
    obtain xs where xs: "merge_values (ty_ecf env) (\<not> restrictive) k items = Inr (Some [(''type'', VStr k), (''data'', VDict [(''values'', VList xs)])])"
      "ty_ecf env ` set xs = (if \<not> restrictive then \<Inter>c \<in> set items. ty_ecf env ` set (values_at c)
         else \<Union>c \<in> set items. ty_ecf env ` set (values_at c))"
      using merge_values_exact [of items "ty_ecf env" "\<not> restrictive" k] v assms(2) by blast
    have "admits env k [(''type'', VStr k), (''data'', VDict [(''values'', VList xs)])] v \<longleftrightarrow> ty_ecf env v \<notin> ty_ecf env ` set xs" for v
      unfolding ad 4 by (simp add: satisfies_values dict_get_def or_dict_def)
    then have "\<forall>v. admits env k [(''type'', VStr k), (''data'', VDict [(''values'', VList xs)])] v
        = (if restrictive then \<forall>c \<in> set items. admits env k c v else \<exists>c \<in> set items. admits env k c v)"
      by (simp add: xs(2) sat)
    with xs(1) 4 show ?thesis by (simp add: merge_kind_def)
  qed
qed

theorem merged_constraint_exact_witness:
  "\<exists>m. merge_kind (ty_ecf sample_types) (kind ''min'') [[(''data'', VDict [(''min'', VInt 3)])], [(''data'', VDict [(''min'', VInt 5)])]] True
       = Inr (Some m) \<and> admits sample_types (kind ''min'') m (VInt 5) \<and> \<not> admits sample_types (kind ''min'') m (VInt 4)"
proof -
  let ?items = "[[(''data'', VDict [(''min'', VInt 3)])], [(''data'', VDict [(''min'', VInt 5)])]]"
  have "\<forall>c \<in> set ?items. well_formed (kind ''min'') (or_dict (dict_get c ''data''))"
    by (simp add: well_formed_def dict_get_def or_dict_def)
  moreover have "\<forall>c \<in> set ?items. admits sample_types (kind ''min'') c (VInt 5)"
    "\<not> (\<forall>c \<in> set ?items. admits sample_types (kind ''min'') c (VInt 4))"
    by (simp_all add: admits_def or_dict_def dict_get_def flip: satisfies_def) (simp_all add: satisfies_bounds dict_get_def)
  ultimately show ?thesis
    using merged_constraint_exact [of "kind ''min''" ?items sample_types True] by auto
qed


lemma bound_missed:
  assumes "last_part k \<noteq> fld"
  shows "merge_bounds pick k [[(''type'', t), (''data'', VDict [(fld, m)])], [(''type'', t), (''data'', VDict [(fld, n)])]] = Inr None"
proof -
  have "data_or_empty [(''type'', t), (''data'', VDict [(fld, x)])] = VDict [(fld, x)]" for x
    by (simp add: data_or_empty_def)
  then show ?thesis
    using assms by (simp add: merge_bounds_def dict_get_def bind_r_def number_def List.map_filter_simps)
qed

definition length_bound :: "string \<Rightarrow> string \<Rightarrow> int \<Rightarrow> val" where
  "length_bound k fld n = VDict [(''type'', VStr (kind k)), (''data'', VDict [(fld, VInt n)])]"

lemma entries_of_bound:
  "entries_of [length_bound k fld n] = [(kind k, [(''type'', VStr (kind k)), (''data'', VDict [(fld, VInt n)])])]"
  by (simp add: entries_of_def length_bound_def dict_get_def List.map_filter_simps)

text \<open>
  C30. Bounds of lengths and counts do not survive a merge: two sources that bound the same length or count, even
  alike, are merged to no constraint at all. The merge looks for the bound under the name of the kind, spelt
  with a hyphen, and the data of these kinds spells it with an underscore.
\<close>

theorem merged_length_bounds_lost:
  assumes "(k, fld) \<in> {(''min-length'', ''min_length''), (''max-length'', ''max_length''),
      (''min-count'', ''min_count''), (''max-count'', ''max_count'')}"
  shows "intersect_constraints ecf [[length_bound k fld m], [length_bound k fld n]] = Inr []
    \<and> union_constraints ecf [[length_bound k fld m], [length_bound k fld n]] = Inr []"
proof -
  let ?c = "\<lambda>n. [(''type'', VStr (kind k)), (''data'', VDict [(fld, VInt n)])]"
  have "merge_kind ecf (kind k) [?c m, ?c n] restrictive = Inr None" for restrictive
    using assms by (elim insertE emptyE) (simp_all add: merge_kind_def bound_missed last_parts)
  then show ?thesis
    by (simp add: intersect_constraints_def union_constraints_def merge_constraints_def entries_of_bound Let_def List.map_filter_simps)
qed

theorem merged_length_bounds_lost_witness:
  "intersect_constraints (\<lambda>v. []) [[length_bound ''max-length'' ''max_length'' 5], [length_bound ''max-length'' ''max_length'' 9]] = Inr []"
  using merged_length_bounds_lost [of "''max-length''" "''max_length''" "\<lambda>v. []" 5 9] by simp

subsection \<open>What narrowing and compatibility do not see\<close>

lemma matches_literal: "CHR ''*'' \<notin> set p \<Longrightarrow> matches_pattern p u \<longleftrightarrow> u \<noteq> NEVER_MATCH \<and> u = p"
  by (rule matches_exact) (auto simp: prefix_def suffix_def)

text \<open>
  A longer reference pattern counts as narrower than an exact one, although no type matches both: data that is
  valid for the child is not valid for the parent, whenever what it refers to is there.
\<close>

theorem longer_exact_pattern_disjoint:
  assumes "ext \<noteq> []" "CHR ''*'' \<notin> set (pattern @ ext)"
  shows "is_narrower ecf (kind ''type-pattern'') (VDict [(''pattern'', VStr (pattern @ ext))]) (VDict [(''pattern'', VStr pattern)]) = Inr True
    \<and> \<not> (matches_pattern (pattern @ ext) name \<and> matches_pattern pattern name)"
proof -
  have "literal_prefix pattern = pattern" using assms(2) by (simp add: literal_prefix_def takeWhile_eq_all_conv) blast
  then show ?thesis
    using assms by (auto simp: is_narrower_def check_type_pattern_def dict_get_def bind_r_def matches_literal)
qed

theorem longer_exact_pattern_disjoint_witness:
  "is_narrower (\<lambda>v. []) (kind ''type-pattern'') (VDict [(''pattern'', VStr ''app/userlist'')]) (VDict [(''pattern'', VStr ''app/user'')])
     = Inr True \<and> \<not> (matches_pattern ''app/userlist'' ''app/user'' \<and> matches_pattern ''app/user'' ''app/user'')"
  using longer_exact_pattern_disjoint [of "''list''" "''app/user''" "\<lambda>v. []" "''app/user''"] by simp

subsection \<open>What a report of compatibility is worth\<close>

text \<open>A field is described in one way: by a named type, as an array, as a map, or as something that is not checked.\<close>

definition one_way :: "type_def \<Rightarrow> bool" where
  "one_way spec \<longleftrightarrow>
     (case map_of spec ''type_ref'' of
        Some r \<Rightarrow> (\<exists>s. r = VStr s) \<and> map_of spec ''array_of'' = None \<and> map_of spec ''map_of'' = None
      | None \<Rightarrow> map_of spec ''array_of'' = None \<or> map_of spec ''map_of'' = None)"

lemma shape_cases:
  assumes "one_way spec"
  obtains (named_type) r where "field_type_signature env spec = ''type_ref:'' @ r"
      "\<And>v. shape_ok spec v \<longleftrightarrow> (starts_with r ''primitive/'' \<longrightarrow> primitive_ok r v)"
  | (array) x where "field_type_signature env spec = ''array_of:'' @ x"
      "\<And>v. shape_ok spec v \<longleftrightarrow> (v = VNull \<and> optional_field spec) \<or> (\<exists>xs. v = VList xs)"
  | (dict) x where "field_type_signature env spec = ''map_of['' @ x"
      "\<And>v. shape_ok spec v \<longleftrightarrow> (v = VNull \<and> optional_field spec) \<or> (\<exists>d. v = VDict d)"
  | (other) "(\<exists>x. field_type_signature env spec = ''union('' @ x) \<or> field_type_signature env spec = ''?''" "\<And>v. shape_ok spec v"
proof (cases "map_of spec ''type_ref''")
  case (Some r)
  then obtain s where "r = VStr s" "map_of spec ''array_of'' = None" "map_of spec ''map_of'' = None"
    using assms by (auto simp: one_way_def)
  with Some show ?thesis
    by (intro named_type [of s]) (simp_all add: field_type_signature.simps formatted_def shape_ok_def dict_get_def)
next
  case ref: None
  show ?thesis
  proof (cases "map_of spec ''array_of''")
    case (Some inner)
    then have "map_of spec ''map_of'' = None" using assms ref by (auto simp: one_way_def)
    with Some ref show ?thesis
      by (intro array) (auto simp: field_type_signature.simps [of env spec] shape_ok_def dict_get_def split: val.splits)
  next
    case arr: None
    show ?thesis
    proof (cases "map_of spec ''map_of''")
      case (Some inner)
      with arr ref show ?thesis
        by (intro dict) (auto simp: field_type_signature.simps [of env spec] shape_ok_def dict_get_def Let_def split: val.splits)
    next
      case None
      with arr ref show ?thesis
        by (intro other) (auto simp: field_type_signature.simps [of env spec] shape_ok_def dict_get_def split: val.splits option.splits)
    qed
  qed
qed

lemma shape_transfer:
  assumes "one_way a" "one_way b" "field_type_signature env a = field_type_signature env b"
    and "optional_field a \<longrightarrow> optional_field b" "shape_ok a v"
  shows "shape_ok b v"
  by (rule shape_cases [OF assms(1), of env]; rule shape_cases [OF assms(2), of env]) (use assms(3-5) in auto)

lemma some_primitive: "\<exists>v. primitive_ok r v"
proof -
  have "primitive_ok r VNull \<or> primitive_ok r (VBool True) \<or> primitive_ok r (VStr []) \<or> primitive_ok r (VBytes []) \<or> primitive_ok r (VInt 0)"
    by (simp add: primitive_ok_def)
  then show ?thesis by blast
qed

lemma some_shape: "one_way spec \<Longrightarrow> \<exists>v. shape_ok spec v"
  by (rule shape_cases [of spec undefined]) (use some_primitive in auto)

lemma merge_fields_distinct: "distinct (map fst (merge_fields chain))"
proof -
  have one: "distinct (map fst ys) \<Longrightarrow> distinct (map fst (fold (\<lambda>(k, v). AList.update k v) xs ys))" for xs ys :: "(string \<times> type_def) list"
    by (induction xs arbitrary: ys) (auto simp: distinct_update)
  have "distinct (map fst ys) \<Longrightarrow> distinct (map fst (fold (\<lambda>link. fold (\<lambda>(k, spec). AList.update k spec) (safe_fields link)) links ys))"
    for links ys by (induction links arbitrary: ys) (simp_all add: one)
  then show ?thesis by (simp add: merge_fields_def)
qed

lemma fields_at_distinct: "fields_at resolve path = Some fs \<Longrightarrow> distinct (map fst fs)"
  by (auto simp: fields_at_def effective_fields_def merge_fields_distinct split: option.splits)

lemma structural_Nil:
  "structural_check ed fs = [] \<longleftrightarrow>
     (\<forall>(f, spec) \<in> set fs. case map_of ed f of None \<Rightarrow> optional_field spec | Some v \<Rightarrow> shape_ok spec v)"
  by (auto simp: structural_check_def filter_empty_conv field_ok_def)

lemma missing_Nil: "missing_required a b = [] \<longleftrightarrow> (\<forall>(f, spec) \<in> set a. optional_field spec \<or> map_of b f \<noteq> None)"
proof -
  have "missing_required a b = [] \<longleftrightarrow> set (missing_required a b) = {}" by (simp only: set_empty)
  then show ?thesis by (auto simp: missing_required_def has_field_def)
qed

lemma mismatches_Nil:
  "mismatches env a b = [] \<longleftrightarrow>
     (\<forall>f s t. map_of a f = Some s \<longrightarrow> map_of b f = Some t \<longrightarrow> field_type_signature env s = field_type_signature env t)"
proof -
  have "mismatches env a b = [] \<longleftrightarrow> (\<forall>f \<in> set (field_names [a, b]). \<forall>s t. map_of a f = Some s \<longrightarrow> map_of b f = Some t
      \<longrightarrow> field_type_signature env s = field_type_signature env t)"
  proof -
    have "(has_field a f \<and> has_field b f \<longrightarrow> P (the_field a f) (the_field b f))
        \<longleftrightarrow> (\<forall>s t. map_of a f = Some s \<longrightarrow> map_of b f = Some t \<longrightarrow> P s t)" for f P
      by (cases "map_of a f"; cases "map_of b f") (simp_all add: has_field_def the_field_def)
    note fields = this [of _ "\<lambda>s t. field_type_signature env s = field_type_signature env t"]
    show ?thesis
      unfolding fields [symmetric] by (auto simp: mismatches_def List.map_filter_def filter_empty_conv Let_def split: if_splits)
  qed
  moreover have "f \<in> set (field_names [a, b])" if "map_of a f = Some s" for f s
    using map_of_SomeD [OF that] by (auto simp: field_names_def intro: rev_image_eqI)
  ultimately show ?thesis by blast
qed

lemma all_fields: "distinct (map fst fs) \<Longrightarrow> (\<forall>(f, s) \<in> set fs. P f s) \<longleftrightarrow> (\<forall>f s. map_of fs f = Some s \<longrightarrow> P f s)"
  by auto

text \<open>Data with a value for the required fields only.\<close>

lemma required_only:
  "distinct (map fst xs) \<Longrightarrow> map_of (map (\<lambda>(g, s). (g, w s)) (filter (\<lambda>(g, s). \<not> optional_field s) xs)) g
     = (case map_of xs g of None \<Rightarrow> None | Some s \<Rightarrow> if optional_field s then None else Some (w s))"
proof (induction xs)
  case (Cons x xs)
  have "g \<notin> fst ` set xs \<Longrightarrow> map_of xs g = None" by (simp add: map_of_eq_None_iff)
  with Cons show ?case by (cases x) auto
qed simp

text \<open>
  C31. What a report of compatibility says, and what it is worth. Asked for the forward direction, or for both, the
  report is positive exactly when every field of the second type has the same signature in the first type or, if it is
  not there, is optional. Then entities of the first type, with no other fields than its own, are all structurally
  valid for the second if and only if no field is optional in the first type and required in the second, which the
  report does not look at. Fields are described in one way: by a named type, as an array or as a map.
\<close>

theorem compatibility_exact:
  assumes "fields_at resolve pa = Some A" "fields_at resolve pb = Some B" "direction \<in> {''forward'', ''bidirectional''}"
    and "list_all (one_way \<circ> snd) A" "list_all (one_way \<circ> snd) B"
  shows "\<exists>r. op_compatible env resolve pa pb direction = Some (Inr r)
    \<and> (ct_level r \<in> {FullyCompatible, ForwardOnly} \<longleftrightarrow>
         (\<forall>f b. map_of B f = Some b \<longrightarrow>
            (case map_of A f of Some a \<Rightarrow> field_type_signature env a = field_type_signature env b | None \<Rightarrow> optional_field b)))
    \<and> (ct_level r \<in> {FullyCompatible, ForwardOnly} \<longrightarrow>
         ((\<forall>ed. fst ` set ed \<subseteq> fst ` set A \<longrightarrow> structural_check ed A = [] \<longrightarrow> structural_check ed B = []) \<longleftrightarrow>
          (\<forall>f a b. map_of A f = Some a \<longrightarrow> map_of B f = Some b \<longrightarrow> optional_field a \<longrightarrow> optional_field b)))"
proof -
  note dA = fields_at_distinct [OF assms(1)] and dB = fields_at_distinct [OF assms(2)]
  have A: "(f, s) \<in> set A \<longleftrightarrow> map_of A f = Some s" for f s using dA by simp
  have B: "(f, s) \<in> set B \<longleftrightarrow> map_of B f = Some s" for f s using dB by simp
  have ow: "one_way s" if "map_of A f = Some s \<or> map_of B f = Some s" for f s
    using that assms(4,5) by (auto simp: list_all_iff simp flip: A B)
  obtain r where r: "op_compatible env resolve pa pb direction = Some (Inr r)"
    "ct_level r = level_of direction (missing_required B A = [] \<and> mismatches env A B = [])
       (missing_required A B = [] \<and> mismatches env A B = []) (ct_shared r \<noteq> [])"
    using assms(1-3) by (auto simp: op_compatible_def Let_def)
  have fwd: "ct_level r \<in> {FullyCompatible, ForwardOnly} \<longleftrightarrow> missing_required B A = [] \<and> mismatches env A B = []"
    using assms(3) by (auto simp: r(2) level_of_def split: if_splits)
  let ?agree = "\<forall>f b. map_of B f = Some b \<longrightarrow>
    (case map_of A f of Some a \<Rightarrow> field_type_signature env a = field_type_signature env b | None \<Rightarrow> optional_field b)"
  let ?exchange = "\<forall>ed. fst ` set ed \<subseteq> fst ` set A \<longrightarrow> structural_check ed A = [] \<longrightarrow> structural_check ed B = []"
  let ?keeps = "\<forall>f a b. map_of A f = Some a \<longrightarrow> map_of B f = Some b \<longrightarrow> optional_field a \<longrightarrow> optional_field b"
  have agree: "ct_level r \<in> {FullyCompatible, ForwardOnly} \<longleftrightarrow> ?agree"
  proof -
    have "(case map_of A f of Some a \<Rightarrow> P a | None \<Rightarrow> Q) \<longleftrightarrow> (Q \<or> map_of A f \<noteq> None) \<and> (\<forall>a. map_of A f = Some a \<longrightarrow> P a)" for f P Q
      by (cases "map_of A f") simp_all
    note case_iff = this
    show ?thesis unfolding fwd missing_Nil mismatches_Nil all_fields [OF dB] case_iff by blast
  qed
  have valid: "structural_check ed fs = [] \<longleftrightarrow> (\<forall>f s. map_of fs f = Some s \<longrightarrow>
      (case map_of ed f of None \<Rightarrow> optional_field s | Some v \<Rightarrow> shape_ok s v))" if "distinct (map fst fs)" for ed fs
    unfolding structural_Nil by (rule all_fields [OF that])
  have "?exchange" if "?agree" "?keeps"
  proof (intro allI impI)
    fix ed assume own: "fst ` set ed \<subseteq> fst ` set A" and ok: "structural_check ed A = []"
    have "case map_of ed f of None \<Rightarrow> optional_field b | Some v \<Rightarrow> shape_ok b v" if b: "map_of B f = Some b" for f b
    proof (cases "map_of A f")
      case None
      then have "map_of ed f = None" using own by (auto simp: map_of_eq_None_iff)
      then show ?thesis using \<open>?agree\<close> b None by fastforce
    next
      case (Some a)
      have sig: "field_type_signature env a = field_type_signature env b" using \<open>?agree\<close> b Some by fastforce
      have opt: "optional_field a \<longrightarrow> optional_field b" using \<open>?keeps\<close> b Some by blast
      have "case map_of ed f of None \<Rightarrow> optional_field a | Some v \<Rightarrow> shape_ok a v" using ok Some by (simp only: valid [OF dA])
      then show ?thesis
        using shape_transfer [OF _ _ sig opt] ow [of f a] ow [of f b] Some b opt by (simp split: option.splits)
    qed
    then show "structural_check ed B = []" unfolding valid [OF dB] by blast
  qed
  moreover have "?keeps" if "?exchange"
  proof (intro allI impI, rule ccontr)
    fix f a b assume f: "map_of A f = Some a" "map_of B f = Some b" "optional_field a" "\<not> optional_field b"
    have "\<forall>s. \<exists>v. one_way s \<longrightarrow> shape_ok s v" using some_shape by blast
    from choice [OF this] obtain w where w: "\<And>s. one_way s \<Longrightarrow> shape_ok s (w s)" by blast
    let ?ed = "map (\<lambda>(g, s). (g, w s)) (filter (\<lambda>(g, s). \<not> optional_field s) A)"
    note m = required_only [OF dA, of w]
    have "fst ` set ?ed \<subseteq> fst ` set A" by (auto intro: rev_image_eqI)
    moreover have "structural_check ?ed A = []"
      unfolding valid [OF dA] m using w ow by (auto split: option.split)
    ultimately have "structural_check ?ed B = []" using \<open>?exchange\<close> by blast
    then show False unfolding valid [OF dB] m using f by fastforce
  qed
  ultimately show ?thesis using r(1) agree by blast
qed

theorem compatibility_exact_witness:
  "let spec = (''type_ref'', VStr ''primitive/string''); optional_spec = [spec, (''optional'', VBool True)];
       resolve = (\<lambda>n. if n = ''a'' then Some [(''fields'', VDict [(''x'', VDict optional_spec)])]
         else if n = ''b'' then Some [(''fields'', VDict [(''x'', VDict [spec])])] else None)
   in \<exists>r. op_compatible sample_types resolve ''a'' ''b'' ''forward'' = Some (Inr r) \<and> ct_level r \<in> {FullyCompatible, ForwardOnly}
     \<and> \<not> (\<forall>ed. fst ` set ed \<subseteq> {''x''} \<longrightarrow> structural_check ed [(''x'', optional_spec)] = []
          \<longrightarrow> structural_check ed [(''x'', [spec])] = [])"
proof -
  let ?spec = "(''type_ref'', VStr ''primitive/string'')"
  let ?opt = "[?spec, (''optional'', VBool True)]"
  let ?a = "[(''fields'', VDict [(''x'', VDict ?opt)])]" and ?b = "[(''fields'', VDict [(''x'', VDict [?spec])])]"
  let ?resolve = "\<lambda>n. if n = ''a'' then Some ?a else if n = ''b'' then Some ?b else None"
  have fs: "effective_fields ?resolve ?a = Some [(''x'', ?opt)]" "effective_fields ?resolve ?b = Some [(''x'', [?spec])]"
    by (simp_all add: effective_fields_def chain_up.simps own_name_def parent_name_def dict_get_def merge_fields_def
        safe_fields_def List.map_filter_simps)
  have n: "normalize_type_lookup ''a'' = ''a''" "normalize_type_lookup ''b'' = ''b''" by code_simp+
  have at: "fields_at ?resolve ''a'' = Some [(''x'', ?opt)]" "fields_at ?resolve ''b'' = Some [(''x'', [?spec])]"
    unfolding fields_at_def n by (simp_all add: fs)
  have sig: "field_type_signature sample_types (?spec # xs) = ''type_ref:primitive/string''" for xs
    by (simp add: field_type_signature.simps formatted_def)
  have opt: "optional_field ?opt" "\<not> optional_field [?spec]" by (simp_all add: optional_field_def dict_get_def)
  have one: "list_all (one_way \<circ> snd) [(''x'', ?opt)]" "list_all (one_way \<circ> snd) [(''x'', [?spec])]"
    by (simp_all add: one_way_def)
  have dir: "''forward'' \<in> {''forward'', ''bidirectional''}" by simp
  from compatibility_exact [OF at dir one, of sample_types] obtain r where
    r: "op_compatible sample_types ?resolve ''a'' ''b'' ''forward'' = Some (Inr r)" and
    agree: "ct_level r \<in> {FullyCompatible, ForwardOnly} \<longleftrightarrow> (\<forall>f b. map_of [(''x'', [?spec])] f = Some b \<longrightarrow>
      (case map_of [(''x'', ?opt)] f of Some a \<Rightarrow> field_type_signature sample_types a = field_type_signature sample_types b
       | None \<Rightarrow> optional_field b))" and
    exchange: "ct_level r \<in> {FullyCompatible, ForwardOnly} \<longrightarrow> (\<forall>ed. fst ` set ed \<subseteq> fst ` set [(''x'', ?opt)] \<longrightarrow>
        structural_check ed [(''x'', ?opt)] = [] \<longrightarrow> structural_check ed [(''x'', [?spec])] = []) \<longleftrightarrow>
      (\<forall>f a b. map_of [(''x'', ?opt)] f = Some a \<longrightarrow> map_of [(''x'', [?spec])] f = Some b \<longrightarrow> optional_field a \<longrightarrow> optional_field b)"
    by (elim exE conjE)
  have level: "ct_level r \<in> {FullyCompatible, ForwardOnly}" unfolding agree by (simp add: sig)
  have "\<not> (\<forall>f a b. map_of [(''x'', ?opt)] f = Some a \<longrightarrow> map_of [(''x'', [?spec])] f = Some b \<longrightarrow> optional_field a \<longrightarrow> optional_field b)"
    using opt by (simp add: exI [of _ "''x''"])
  with exchange level have "\<not> (\<forall>ed. fst ` set ed \<subseteq> fst ` set [(''x'', ?opt)] \<longrightarrow>
        structural_check ed [(''x'', ?opt)] = [] \<longrightarrow> structural_check ed [(''x'', [?spec])] = [])" by blast
  then have "\<not> (\<forall>ed. fst ` set ed \<subseteq> {''x''} \<longrightarrow>
        structural_check ed [(''x'', ?opt)] = [] \<longrightarrow> structural_check ed [(''x'', [?spec])] = [])" by (simp only: list.set image_insert image_empty fst_conv not_False_eq_True)
  with r level show ?thesis unfolding Let_def by blast
qed

end
