(* ===== verification/Spec2Isabelle.thy ===== *)
theory Spec2Isabelle
  imports Prelude Varint Paths Patterns Tokens Hashes Identity Checking Attenuation Chain Stores Revocation Bounds Emit
    Snapshot_Trie Trie_Slots Trie_Canonical Trie_Ops Snapshots Versions Revision_Config Merge
    Revision_Ops Revision_Refs Revision_Settings Revision_Remote Commits Merges Checkouts Exchange
    Type_Constraints Type_Narrowing Type_Analysis Type_Validation Type_Soundness Type_Merging
begin

text \<open>
  A verification development for entity-core-py: a peer that keeps signed, content-addressed entities
  in a store, binds them to paths in a tree, answers requests under delegated capabilities, and versions
  its tree like a revision-control system and checks entities against the types that the tree defines.

  \<^bold>\<open>The program and its parts.\<close> File names below are under \<open>packages/entity-core/src/entity_core\<close> or, where
  marked (handlers), \<open>packages/entity-handlers/src/entity_handlers\<close>, of \<open>src/\<close>.
  Identifiers and hashes (\<open>utils\<close>, \<open>crypto/identity.py\<close>) name everything. The stores (\<open>storage\<close>) keep
  entities by hash and bind hashes to paths; every write of the tree goes through the emit pathway, which
  calls hooks that may write again. A request is authorised by a capability token: the token's grants are
  matched against the operation, handler, resource and peer (\<open>capability/checking.py\<close>), and the token must
  end a chain of attenuating delegations from the local peer (\<open>capability/delegation.py\<close>), none of which is
  revoked. Snapshots of the tree are tries whose nodes are entities, so that a root hash stands for a map;
  the revision extension (handlers) records versions over such roots, merges them and transcribes them back
  into the tree. The type extension (handlers) reads type definitions from the tree: it validates an entity
  against its type and constraints, verifies that a type narrows those it extends, and compares and merges types.

  \<^bold>\<open>Theories and sources.\<close>
  \<^item> \<open>Prelude\<close>: bytes, exceptions as values (\<open>result\<close>), Python's string methods.
  \<^item> \<open>Varint\<close>: \<open>utils/varint.py\<close>. \<open>Paths\<close>: \<open>utils/path.py\<close>, \<open>utils/identity.py\<close>. \<open>Hashes\<close>: \<open>utils/ecf.py\<close>.
    \<open>Identity\<close>: \<open>crypto/identity.py\<close>, \<open>capability/peer_canon.py\<close>.
  \<^item> \<open>Patterns\<close> and \<open>Checking\<close>: \<open>capability/checking.py\<close>, the pattern language and the checks at dispatch and in
    handlers. \<open>Tokens\<close>: \<open>capability/token.py\<close>, \<open>temporal.py\<close>, \<open>grant.py\<close>. \<open>Attenuation\<close> and \<open>Chain\<close>:
    \<open>capability/delegation.py\<close> with the verification half of \<open>crypto/signing.py\<close>. \<open>Revocation\<close>:
    \<open>capability/revocation.py\<close>. \<open>Bounds\<close>: \<open>protocol/bounds.py\<close>.
  \<^item> \<open>Stores\<close>: \<open>storage/content_store.py\<close>, \<open>entity_tree.py\<close>, \<open>tree_registry.py\<close>. \<open>Emit\<close>: \<open>storage/emit.py\<close>.
  \<^item> \<open>Snapshot_Trie\<close> (definitions), \<open>Trie_Slots\<close>, \<open>Trie_Canonical\<close>, \<open>Trie_Ops\<close> (lemmas) and \<open>Snapshots\<close>
    (theorems): \<open>storage/trie.py\<close>.
  \<^item> \<open>Versions\<close> (the version graph), \<open>Revision_Config\<close> (patterns, configuration, captured bindings) and \<open>Merge\<close>
    (three-way merge, difference, transcription): the algorithms of \<open>revision.py\<close> (handlers), with
    \<open>types/deletion_marker.py\<close>. Its request handlers, each in full: \<open>Revision_Ops\<close> (commit, log, status, ancestor,
    difference, merge, resolve), \<open>Revision_Refs\<close> (branches, tags, checkout, cherry-pick, revert), \<open>Revision_Settings\<close>
    (the two configuration operations) and \<open>Revision_Remote\<close> (fetch, pull, push and the dispatcher).
  \<^item> \<open>Commits\<close>, \<open>Merges\<close>, \<open>Checkouts\<close> and \<open>Exchange\<close>: what is proved of these handlers, on states of the emit
    pathway on which nothing listens (\<open>quiet\<close>), so that a write changes what it says and nothing else.
  \<^item> \<open>Type_Constraints\<close>: \<open>type_constraint.py\<close>. \<open>Type_Narrowing\<close>: \<open>type_narrowing.py\<close>. \<open>Type_Analysis\<close>:
    \<open>type_analysis.py\<close>. \<open>Type_Validation\<close>: \<open>type_handler.py\<close> (four files of the handlers) and the lookup of
    \<open>types/registry.py\<close>. \<open>Type_Soundness\<close> and \<open>Type_Merging\<close>: what is proved of them.

  \<^bold>\<open>How the code is rendered.\<close> A Python function is a HOL function of the same name up to a leading underscore;
  a dataclass is a record, a dictionary an association list in insertion order, a set a set, \<open>None\<close> the
  \<open>None\<close> of an option. A function that can raise returns \<open>Inl\<close> with the class of the exception. State
  (store, tree, pathway) is passed and returned. Where Python iterates over a set, the model fixes an
  order and says so. Loops over the version graph are \<open>function\<close>s whose termination is proved from the
  finiteness of the store; the walks along \<open>extends\<close> need not end and are partial functions; walks along hash links that an adversary could chain for ever have Python's
  recursion limit as fuel and raise \<open>RecursionError\<close> at 0.

  \<^bold>\<open>Parameters.\<close> SHA-256 and SHA-384, the CBOR encoding of entities, Base58, Ed25519 and Ed448 verification,
  RE2, the checkers of named formats and the clock are arguments of the definitions that use them; what is assumed of one (injectivity of the
  content hash, 32 bytes of the routing hash) is a hypothesis of the theorem, discharged in its witness for a
  concrete function. Hooks of the emit pathway are programs over its actions, so that re-entrant writes are
  part of the model. Other handlers that a merge dispatches to are a function on the state; the other peer of a pull
  or a push is a function of the request on a state of its own.

  \<^bold>\<open>What is proved.\<close> Away from peer wildcards, pattern targets and permissions authorise nothing that the
  concrete check refuses, and the two levels of checking agree; a delegation never widens the authority of plain
  grants, so the root of an accepted chain of them authorises all that the leaf does; the chain walks end; minted
  identifiers, hashes and tokens are read back. Writes restore the pathway's depth and stack, keep the stores well formed and nest at most to the
  refusal depth. Tries implement finite maps, independently of history, with an exact difference. The walks
  over the version graph end on every graph and compute ancestry; the merge refines an abstract three-way
  merge in which a change is lost only where a deletion meets an edit; transcription binds the live paths of a version and no marker. A commit captures what
  is there and is captured itself; merging is convergent between two peers; checkout, cherry-pick and revert make
  the tree and the new version what the versions involved say, path by path. Peers hand out only what the history
  of a prefix reaches, and a first fetch and a finished pull are complete. A type that narrows its ancestors keeps
  their constraints of the standard kinds but reference patterns, narrowing and the report of compatibility say exactly
  what they look at, merged constraints admit what they should, and validation ends where types have their own names.
  Where the code
  falls short of its documentation the theorem says what it does instead: these are the theorems about
  peer wildcards, handler excludes, missing content hashes, nested deletes, keys that are routed alike, older
  merge bases, engine paths that validated excludes do not exclude, deletions that stay pending, pushes
  that transfer nothing, cherry-picks that overwrite, types without a name, narrowing that looks at constraints only,
  lost bounds of lengths and reports of compatibility that do not compare what is optional.

  \<^bold>\<open>Interfaces.\<close> \<open>pattern_language\<close> (Attenuation) is what attenuation needs of a pattern matcher, interpreted for
  the four kinds of scope; \<open>content_addressed\<close> (Stores) is the contract of a store, interpreted for the plain
  and the notifying one; \<open>reentrant\<close> and \<open>agreeing\<close> (Emit) say what the performer of actions keeps, and are
  interpreted on the pathway itself.

  \<^bold>\<open>Bounds and fuel.\<close> A trie has 51 levels of 5 bits, so 52 nested calls collect and 53 compare any snapshot.
  The refusal depth of 32 bounds nested writes, so 33 is enough fuel where no hook deletes. A chain has at
  most as many links as the bound its walk is given (64 in the code).

  \<^bold>\<open>Not modelled.\<close> Network, asyncio and file input and output (peer runtime, framing, HTTP, relays, discovery,
  signalling, local files), the cryptographic libraries, the literal type definitions, diagnostics and
  conformance vectors, the SDK and the command line; floating-point numbers in validated data; the
  recording of versions on writes (\<open>auto_version.py\<close>, \<open>root_tracker.py\<close>); and, for want of time, the handlers other
  than the revision and type extensions: compute, continuations, subscriptions, query, registry, identity, role,
  quorum, attestation.
\<close>

end
